(* ===== verification/Prelude.thy ===== *)
theory Prelude
  imports Main "HOL-Library.Word" "HOL-Library.Multiset"
begin

text \<open>
  Shared vocabulary of the development: names for the kernel's integer types, the
  collections of rewrite rules the component theories extend, and generic facts on
  lists, intervals and natural-number arithmetic that several components use.
\<close>

unbundle bit_operations_syntax

type_synonym u64 = "64 word"
type_synonym u32 = "32 word"

text \<open>
  \<open>align_simps\<close> collects the facts on aligned addresses, \<open>layout_simps\<close> the
  numerals of the address-space layout.
\<close>

named_theorems align_simps "facts on aligned addresses and sizes"
named_theorems layout_simps "numeric constants of the memory layout"

section \<open>Lists\<close>

lemma remove1_eq_filter:
  "distinct xs \<Longrightarrow> remove1 x xs = filter (\<lambda>y. y \<noteq> x) xs"
  by (simp add: distinct_remove1_removeAll removeAll_filter_not_eq eq_commute)

lemma set_remove1_distinct [simp]:
  "distinct xs \<Longrightarrow> set (remove1 x xs) = set xs - {x}"
  by (rule set_remove1_eq)

text \<open>A loop over a list whose body may fail.\<close>

fun foldo :: "('a \<Rightarrow> 'x \<Rightarrow> 'x option) \<Rightarrow> 'a list \<Rightarrow> 'x \<Rightarrow> 'x option" where
  "foldo f [] x = Some x"
| "foldo f (a # as) x = (case f a x of None \<Rightarrow> None | Some y \<Rightarrow> foldo f as y)"

lemma foldo_append: "foldo f (as @ bs) x = (case foldo f as x of None \<Rightarrow> None | Some y \<Rightarrow> foldo f bs y)"
  by (induction as arbitrary: x) (auto split: option.split)

lemma foldo_total: "foldo (\<lambda>a x. Some (f a x)) as x = Some (fold f as x)"
  by (induction as arbitrary: x) auto

lemma distinct_concat_map:
  assumes "distinct xs" and "\<And>x. x \<in> set xs \<Longrightarrow> distinct (f x)"
    and "\<And>x y. x \<in> set xs \<Longrightarrow> y \<in> set xs \<Longrightarrow> x \<noteq> y \<Longrightarrow> set (f x) \<inter> set (f y) = {}"
  shows "distinct (concat (map f xs))"
  using assms by (induction xs) force+

lemma sorted_map_last: "x \<in> set xs \<Longrightarrow> sorted (map f xs) \<Longrightarrow> xs \<noteq> [] \<Longrightarrow> f x \<le> f (last xs)"
  by (induction xs) auto

lemma find_append:
  "find P (xs @ ys) = (case find P xs of None \<Rightarrow> find P ys | Some x \<Rightarrow> Some x)"
  by (induction xs) auto

lemma find_SomeD: "find P xs = Some x \<Longrightarrow> P x \<and> x \<in> set xs"
  by (induction xs) (auto split: if_splits)

lemma find_None_iff_Ball: "find P xs = None \<longleftrightarrow> (\<forall>x\<in>set xs. \<not> P x)"
  by (induction xs) auto

section \<open>Half-open intervals of addresses\<close>

definition span :: "nat \<Rightarrow> nat \<Rightarrow> nat set" where
  "span a n = {a ..< a + n}"

lemma span_0 [simp]: "span a 0 = {}"
  by (simp add: span_def)

lemma span_empty_iff [simp]: "span a n = {} \<longleftrightarrow> n = 0"
  by (auto simp: span_def)

lemma in_span_iff [simp]: "x \<in> span a n \<longleftrightarrow> a \<le> x \<and> x < a + n"
  by (auto simp: span_def)

lemma span_disjoint_iff:
  "span a m \<inter> span b n = {} \<longleftrightarrow> m = 0 \<or> n = 0 \<or> a + m \<le> b \<or> b + n \<le> a"
proof -
  have "\<exists>x. x \<in> span a m \<inter> span b n"
    if "0 < m" "0 < n" "b < a + m" "a < b + n"
    using that by (intro exI [of _ "max a b"]) auto
  then show ?thesis by fastforce
qed

lemma span_append: "span a (m + n) = span a m \<union> span (a + m) n"
  by (auto simp: span_def)

lemma finite_span [simp]: "finite (span a n)"
  by (simp add: span_def)

lemma card_span [simp]: "card (span a n) = n"
  by (simp add: span_def)

section \<open>Multiples of a positive number\<close>

lemma dvd_add_le:
  fixes x y d :: nat
  assumes "d dvd x" and "d dvd y" and "x < y"
  shows "x + d \<le> y"
proof -
  from assms obtain i j where "x = d * i" "y = d * j" by (auto elim!: dvdE)
  with assms(3) have "Suc i \<le> j" by (simp add: Suc_le_eq)
  then have "d * Suc i \<le> d * j" by (rule mult_le_mono2)
  with \<open>x = d * i\<close> \<open>y = d * j\<close> show ?thesis by simp
qed

lemma dvd_sub_le:
  fixes x y d :: nat
  assumes "d dvd x" and "d dvd y" and "x < y"
  shows "x \<le> y - d"
  using dvd_add_le [OF assms] by simp

end
