(* ===== verification/Bits.thy ===== *)
theory Bits
  imports Prelude
begin

text \<open>
  The integer helpers of the kernel: alignment (\<open>include/osv/align.hh\<close>), base-two
  logarithms (\<open>include/osv/ilog2.hh\<close>) and iteration over the set bits of a
  \<open>std::bitset\<close> (\<open>include/osv/bitset-iter.hh\<close>).

  Alignment is modelled on 64-bit words, as the source computes it, and again on natural
  numbers for the components whose addresses are natural numbers; the two agree wherever
  the word computation does not wrap. The logarithms take the value of an unsigned 64-bit
  operand.
\<close>

section \<open>Bit length of a natural number\<close>

fun bit_length :: "nat \<Rightarrow> nat" where
  "bit_length n = (if n = 0 then 0 else Suc (bit_length (n div 2)))"

declare bit_length.simps [simp del]

lemma bit_length_0 [simp]: "bit_length 0 = 0"
  by (simp add: bit_length.simps)

lemma bit_length_pos: "0 < n \<Longrightarrow> bit_length n = Suc (bit_length (n div 2))"
  by (simp add: bit_length.simps [of n])

lemma bit_length_le_iff: "bit_length n \<le> k \<longleftrightarrow> n < 2 ^ k"
proof (induction n arbitrary: k rule: bit_length.induct)
  case (1 n)
  show ?case
  proof (cases "n = 0")
    case True
    then show ?thesis by simp
  next
    case False
    show ?thesis
    proof (cases k)
      case 0
      with False show ?thesis by (simp add: bit_length_pos)
    next
      case (Suc j)
      have "bit_length n \<le> k \<longleftrightarrow> n div 2 < 2 ^ j"
        using False Suc "1.IH" [of j] by (simp add: bit_length_pos)
      also have "\<dots> \<longleftrightarrow> n < 2 ^ k"
        using Suc by (simp add: less_mult_imp_div_less div_less_iff_less_mult mult.commute)
      finally show ?thesis .
    qed
  qed
qed

lemma bit_length_eq_0_iff [simp]: "bit_length n = 0 \<longleftrightarrow> n = 0"
  using bit_length_le_iff [of n 0] by auto

lemma bit_length_Suc_iff: "bit_length n = Suc k \<longleftrightarrow> 2 ^ k \<le> n \<and> n < 2 ^ Suc k"
  using bit_length_le_iff [of n k] bit_length_le_iff [of n "Suc k"] by linarith

lemma bit_length_le_64: "n < 2 ^ 64 \<Longrightarrow> bit_length n \<le> 64"
  by (simp add: bit_length_le_iff)

lemma bit_length_mono: "m \<le> n \<Longrightarrow> bit_length m \<le> bit_length n"
  using bit_length_le_iff [of m "bit_length n"] bit_length_le_iff [of n "bit_length n"]
  by simp

lemma div_xor: "(x XOR y) div 2 ^ k = (x div 2 ^ k) XOR (y div 2 ^ k)" for x y :: nat
  by (simp flip: drop_bit_eq_div)

lemma xor_eq_0_iff_nat: "x XOR y = 0 \<longleftrightarrow> x = y" for x y :: nat
proof
  assume "x XOR y = 0"
  then have "bit x n = bit y n" for n
    using bit_xor_iff [of x y n] by simp
  then show "x = y" by (simp add: bit_eq_iff)
qed simp

text \<open>
  The length of the exclusive or of two numbers is the position above which they agree:
  the fact on which the bucket index of a timer rests.
\<close>

lemma bit_length_xor_le_iff:
  "bit_length (x XOR y) \<le> k \<longleftrightarrow> x div 2 ^ k = y div 2 ^ k"
proof -
  have "bit_length (x XOR y) \<le> k \<longleftrightarrow> (x XOR y) div 2 ^ k = 0"
    by (simp add: bit_length_le_iff div_eq_0_iff)
  also have "\<dots> \<longleftrightarrow> x div 2 ^ k = y div 2 ^ k"
    by (simp add: div_xor xor_eq_0_iff_nat)
  finally show ?thesis .
qed

section \<open>Logarithms: ilog2.hh\<close>

text \<open>
  The compiler builtins \<open>__builtin_clzl\<close> and \<open>__builtin_ctzl\<close> are undefined at
  zero; every caller below tests for zero first, and the model's value there (64) is
  never used.
\<close>

definition count_leading_zeros :: "nat \<Rightarrow> nat" where
  "count_leading_zeros n = 64 - bit_length n"

fun count_trailing_zeros :: "nat \<Rightarrow> nat" where
  "count_trailing_zeros n =
     (if n = 0 then 64 else if odd n then 0 else Suc (count_trailing_zeros (n div 2)))"

function ilog2_roundup_constexpr :: "nat \<Rightarrow> nat" where
  "ilog2_roundup_constexpr n =
     (if n \<le> 1 then 0 else 1 + ilog2_roundup_constexpr (n div 2 + n mod 2))"
  by pat_completeness auto
termination
  by (relation "measure id") (simp, simp, presburger)

definition ilog2_roundup :: "nat \<Rightarrow> nat" where
  "ilog2_roundup n = (if n \<le> 1 then 0 else 64 - count_leading_zeros (n - 1))"

definition ilog2 :: "nat \<Rightarrow> nat" where
  "ilog2 n = (if n \<le> 1 then 0 else 64 - count_leading_zeros n - 1)"

definition is_power_of_two :: "u64 \<Rightarrow> bool" where
  "is_power_of_two n \<longleftrightarrow> n AND (n - 1) = 0"

declare count_trailing_zeros.simps [simp del] ilog2_roundup_constexpr.simps [simp del]

lemma ilog2_roundup_bit_length:
  "n < 2 ^ 64 \<Longrightarrow> ilog2_roundup n = bit_length (n - 1)"
  using bit_length_le_64 [of "n - 1"]
  by (auto simp: ilog2_roundup_def count_leading_zeros_def)

lemma ilog2_bit_length: "n < 2 ^ 64 \<Longrightarrow> ilog2 n = bit_length n - 1"
  using bit_length_le_64 [of n] bit_length_le_iff [of n 1]
  by (auto simp: ilog2_def count_leading_zeros_def)

lemma ilog2_roundup_le_iff: "n < 2 ^ 64 \<Longrightarrow> ilog2_roundup n \<le> k \<longleftrightarrow> n \<le> 2 ^ k"
  by (cases n) (auto simp: ilog2_roundup_bit_length bit_length_le_iff)

lemma ilog2_bounds:
  assumes "0 < n" and "n < 2 ^ 64"
  shows "2 ^ ilog2 n \<le> n" and "n < 2 ^ Suc (ilog2 n)"
proof -
  obtain k where k: "bit_length n = Suc k"
    using assms(1) by (cases "bit_length n") auto
  then have "ilog2 n = k" using assms(2) by (simp add: ilog2_bit_length)
  with k show "2 ^ ilog2 n \<le> n" and "n < 2 ^ Suc (ilog2 n)"
    by (simp_all add: bit_length_Suc_iff)
qed

lemma ilog2_eqI: "2 ^ k \<le> n \<Longrightarrow> n < 2 ^ Suc k \<Longrightarrow> n < 2 ^ 64 \<Longrightarrow> ilog2 n = k"
  using bit_length_Suc_iff [of n k] by (simp add: ilog2_bit_length)

lemma ilog2_le_roundup: "n < 2 ^ 64 \<Longrightarrow> ilog2 n \<le> ilog2_roundup n"
proof (cases "n = 0")
  case False
  assume n: "n < 2 ^ 64"
  have "2 ^ ilog2 n \<le> n" using False n by (intro ilog2_bounds) auto
  also have "n \<le> 2 ^ ilog2_roundup n" using n ilog2_roundup_le_iff [of n "ilog2_roundup n"] by simp
  finally show ?thesis by simp
qed (simp add: ilog2_def)

lemma constexpr_le_iff: "ilog2_roundup_constexpr n \<le> k \<longleftrightarrow> n \<le> 2 ^ k"
proof (induction n arbitrary: k rule: ilog2_roundup_constexpr.induct)
  case (1 n)
  show ?case
  proof (cases "n \<le> 1")
    case True
    then show ?thesis
      using one_le_power [of "2::nat" k] by (simp add: ilog2_roundup_constexpr.simps order_trans)
  next
    case False
    show ?thesis
    proof (cases k)
      case 0
      with False show ?thesis by (subst ilog2_roundup_constexpr.simps) simp
    next
      case (Suc j)
      have "ilog2_roundup_constexpr n \<le> k \<longleftrightarrow> n div 2 + n mod 2 \<le> 2 ^ j"
        using False Suc "1.IH" [of j] by (simp add: ilog2_roundup_constexpr.simps [of n])
      also have "\<dots> \<longleftrightarrow> n \<le> 2 ^ k" unfolding Suc by simp presburger
      finally show ?thesis .
    qed
  qed
qed

lemma ilog2_roundup_constexpr_eq:
  assumes "n < 2 ^ 64"
  shows "ilog2_roundup_constexpr n = ilog2_roundup n"
  using constexpr_le_iff [of n] ilog2_roundup_le_iff [OF assms] by (meson order_antisym order_refl)

lemma bit_of_word_unat: "bit w j \<longleftrightarrow> bit (unat w) j" for w :: "'a::len word"
  by (simp add: bit_unsigned_iff)

lemma count_trailing_zeros_lowest:
  assumes "0 < n"
  shows "bit n (count_trailing_zeros n)" and "j < count_trailing_zeros n \<Longrightarrow> \<not> bit n j"
proof -
  have "bit n (count_trailing_zeros n) \<and> (\<forall>j < count_trailing_zeros n. \<not> bit n j)"
    using assms
  proof (induction n rule: count_trailing_zeros.induct)
    case (1 n)
    show ?case
    proof (cases "odd n")
      case True
      with "1.prems" show ?thesis by (simp add: count_trailing_zeros.simps [of n] bit_0)
    next
      case False
      let ?c = "count_trailing_zeros (n div 2)"
      have IH: "bit (n div 2) ?c" "\<forall>j < ?c. \<not> bit (n div 2) j"
        using "1.IH" "1.prems" False by auto
      have "\<not> bit n j" if "j < Suc ?c" for j
        using that IH(2) False by (cases j) (auto simp: bit_0 bit_Suc)
      with IH(1) "1.prems" False show ?thesis
        by (auto simp: count_trailing_zeros.simps [of n] bit_Suc)
    qed
  qed
  then show "bit n (count_trailing_zeros n)"
    and "j < count_trailing_zeros n \<Longrightarrow> \<not> bit n j" by auto
qed

lemma count_trailing_zeros_eqI:
  assumes "bit n k" and "\<And>j. j < k \<Longrightarrow> \<not> bit n j"
  shows "count_trailing_zeros n = k"
proof -
  from assms(1) have "0 < n" by (cases n) auto
  note low = count_trailing_zeros_lowest [OF this]
  show ?thesis using low assms by (metis linorder_neqE_nat)
qed

section \<open>Alignment: align.hh\<close>

definition align_down :: "u64 \<Rightarrow> u64 \<Rightarrow> u64" where
  "align_down n alignment = n AND NOT (alignment - 1)"

definition align_up :: "u64 \<Rightarrow> u64 \<Rightarrow> u64" where
  "align_up n alignment = align_down (n + alignment - 1) alignment"

definition align_check :: "u64 \<Rightarrow> u64 \<Rightarrow> bool" where
  "align_check n alignment \<longleftrightarrow> align_down n alignment = n"

text \<open>The same computations on natural numbers, for a positive alignment.\<close>

definition nalign_down :: "nat \<Rightarrow> nat \<Rightarrow> nat" where
  "nalign_down n a = n - n mod a"

definition nalign_up :: "nat \<Rightarrow> nat \<Rightarrow> nat" where
  "nalign_up n a = nalign_down (n + a - 1) a"

lemma nalign_down_le [simp]: "nalign_down n a \<le> n"
  by (simp add: nalign_down_def)

lemma nalign_down_dvd [simp, intro]: "a dvd nalign_down n a"
  by (simp add: nalign_down_def minus_mod_eq_mult_div)

lemma nalign_down_gt: "0 < a \<Longrightarrow> n < nalign_down n a + a"
  using mod_less_divisor [of a n] mod_less_eq_dividend [of n a]
  unfolding nalign_down_def by linarith

lemma nalign_down_greatest: "a dvd m \<Longrightarrow> m \<le> n \<Longrightarrow> m \<le> nalign_down n a"
  by (metis div_le_mono dvd_def dvd_div_mult_self minus_mod_eq_div_mult mult_le_mono1 nalign_down_def)

lemma nalign_down_id [simp]: "a dvd n \<Longrightarrow> nalign_down n a = n"
  by (simp add: nalign_down_def)

lemma nalign_up_ge: "0 < a \<Longrightarrow> n \<le> nalign_up n a"
  using nalign_down_gt [of a "n + a - 1"] by (simp add: nalign_up_def)

lemma nalign_up_dvd [simp, intro]: "a dvd nalign_up n a"
  by (simp add: nalign_up_def)

lemma nalign_up_lt: "0 < a \<Longrightarrow> nalign_up n a < n + a"
  using nalign_down_le [of "n + a - 1" a] unfolding nalign_up_def by linarith

lemma nalign_up_least: "0 < a \<Longrightarrow> a dvd m \<Longrightarrow> n \<le> m \<Longrightarrow> nalign_up n a \<le> m"
proof (rule ccontr)
  assume a: "0 < a" "a dvd m" "n \<le> m" and "\<not> nalign_up n a \<le> m"
  then have "m + a \<le> nalign_up n a" by (intro dvd_add_le) auto
  with nalign_up_lt [of a n] a show False by simp
qed

lemma nalign_up_id [simp]: "0 < a \<Longrightarrow> a dvd n \<Longrightarrow> nalign_up n a = n"
  by (simp add: antisym nalign_up_ge nalign_up_least)

lemma nalign_up_0 [simp]: "nalign_up 0 a = 0"
  by (cases a) (simp_all add: nalign_up_def nalign_down_def)

lemma nalign_up_eq_0_iff [simp]: "0 < a \<Longrightarrow> nalign_up n a = 0 \<longleftrightarrow> n = 0"
  using nalign_up_ge [of a n] by auto

lemmas nalign_bounds = nalign_down_le nalign_down_gt nalign_up_ge nalign_up_lt

lemma mask_word_eq: "2 ^ k - 1 = (mask k :: 'a::len word)"
  by (simp add: mask_eq_exp_minus_1)

lemma align_down_push_drop: "align_down n (2 ^ k) = push_bit k (drop_bit k n)"
  unfolding align_down_def mask_word_eq
  by (rule bit_word_eqI) (auto simp: bit_simps)

lemma unat_align_down: "unat (align_down n (2 ^ k)) = nalign_down (unat n) (2 ^ k)"
proof -
  have "unat (align_down n (2 ^ k)) = take_bit 64 (push_bit k (drop_bit k (unat n)))"
    by (simp add: align_down_push_drop unsigned_push_bit_eq unat_drop_bit_eq)
  also have "push_bit k (drop_bit k (unat n)) = nalign_down (unat n) (2 ^ k)"
    by (simp add: push_bit_eq_mult drop_bit_eq_div nalign_down_def minus_mod_eq_mult_div mult.commute)
  also have "take_bit 64 (nalign_down (unat n) (2 ^ k)) = nalign_down (unat n) (2 ^ k)"
    using unsigned_less [of n, where 'a = nat]
    by (intro take_bit_nat_eq_self le_less_trans [OF nalign_down_le]) simp
  finally show ?thesis .
qed

lemma unat_align_up:
  assumes "k < 64" and "unat n + 2 ^ k - 1 < 2 ^ 64"
  shows "unat (align_up n (2 ^ k)) = nalign_up (unat n) (2 ^ k)"
proof -
  have "unat (2 ^ k - 1 :: u64) = 2 ^ k - 1"
    using assms(1) unat_of_nat [of "2 ^ k - 1", where 'a = 64]
      power_strict_increasing [of k 64 "2::nat"] by (simp add: of_nat_diff)
  then have "unat (n + (2 ^ k - 1)) = unat n + (2 ^ k - 1)"
    using assms(2) by (subst unat_add_lem [THEN iffD1]) auto
  moreover have "unat n + 2 ^ k - 1 = unat n + (2 ^ k - 1)" by simp
  ultimately show ?thesis
    by (simp add: align_up_def nalign_up_def unat_align_down add_diff_eq)
qed

section \<open>Iterating over the set bits of a bitset: bitset-iter.hh\<close>

text \<open>
  A \<open>std::bitset<N>\<close> with \<open>N \<le> 64\<close> is a 64-bit word, the value of its
  \<open>to_ulong()\<close>. The iterator is the pair of the remaining bits and the index.
\<close>

definition get_first_set :: "u64 \<Rightarrow> nat" where
  "get_first_set b = count_trailing_zeros (unat b)"

definition get_last_set :: "u64 \<Rightarrow> nat" where
  "get_last_set b = 64 - 1 - count_leading_zeros (unat b)"

definition set_iterator_advance :: "u64 \<times> int \<Rightarrow> u64 \<times> int" where
  "set_iterator_advance it =
     (case it of (b, i) \<Rightarrow>
        if b = 0 then (b, -1)
        else let shift = get_first_set b + 1 in (drop_bit shift b, i + int shift))"

definition set_iterator_begin :: "u64 \<Rightarrow> nat \<Rightarrow> u64 \<times> int" where
  "set_iterator_begin b offset = set_iterator_advance (drop_bit offset b, int offset - 1)"

lemma drop_bit_less: "b \<noteq> 0 \<Longrightarrow> unat (drop_bit (Suc k) b) < unat b" for b :: u64
proof -
  assume "b \<noteq> 0"
  then have "0 < unat b" by (simp add: unat_gt_0)
  then have "unat b div 2 ^ Suc k < unat b"
    using one_less_power [of "2::nat" "Suc k"] by (intro div_less_dividend) simp_all
  then show ?thesis by (simp add: unat_drop_bit_eq drop_bit_eq_div [where 'a = nat])
qed

text \<open>The range-based for loop: advance until the index is that of \<open>end()\<close>.\<close>

function set_iterator_walk :: "u64 \<times> int \<Rightarrow> nat list" where
  "set_iterator_walk it =
     (if snd it = -1 then [] else nat (snd it) # set_iterator_walk (set_iterator_advance it))"
  by pat_completeness auto
termination
proof (relation "measure (\<lambda>(b, i). unat b + (if i = -1 then 0 else 1))", goal_cases)
  case (2 it)
  obtain b i where it: "it = (b, i)" by (cases it)
  show ?case
  proof (cases "b = 0")
    case True
    with 2 it show ?thesis by (simp add: set_iterator_advance_def)
  next
    case False
    with 2 it drop_bit_less [OF False, of "get_first_set b"] show ?thesis
      by (auto simp: set_iterator_advance_def Let_def)
  qed
qed simp

definition for_each_set :: "u64 \<Rightarrow> nat \<Rightarrow> nat list" where
  "for_each_set b offset = set_iterator_walk (set_iterator_begin b offset)"

declare set_iterator_walk.simps [simp del]

lemma get_first_set_lowest:
  assumes "b \<noteq> 0"
  shows "bit b (get_first_set b)" and "j < get_first_set b \<Longrightarrow> \<not> bit b j"
    and "get_first_set b < 64"
proof -
  have "0 < unat b" using assms by (simp add: unat_gt_0)
  note low = count_trailing_zeros_lowest [OF this]
  show *: "bit b (get_first_set b)" and "j < get_first_set b \<Longrightarrow> \<not> bit b j"
    using low by (simp_all add: get_first_set_def bit_of_word_unat)
  from bit_imp_le_length [OF *] show "get_first_set b < 64" by simp
qed

lemma get_last_set_highest:
  assumes "b \<noteq> 0"
  shows "bit b (get_last_set b)" and "get_last_set b < j \<Longrightarrow> \<not> bit b j"
    and "get_last_set b < 64"
proof -
  let ?n = "unat b"
  have pos: "0 < ?n" using assms by (simp add: unat_gt_0)
  have lt: "?n < 2 ^ 64" using unsigned_less [of b, where 'a = nat] by simp
  obtain k where k: "bit_length ?n = Suc k" using pos by (cases "bit_length ?n") auto
  have "Suc k \<le> 64" using k bit_length_le_64 [OF lt] by simp
  then have last: "get_last_set b = k"
    by (simp add: get_last_set_def count_leading_zeros_def k)
  from k have b: "2 ^ k \<le> ?n" "?n < 2 ^ Suc k" by (simp_all add: bit_length_Suc_iff)
  have "?n div 2 ^ k = 1"
    using b by (intro div_nat_eqI) simp_all
  then show "bit b (get_last_set b)"
    by (simp add: bit_of_word_unat last bit_iff_odd)
  show "get_last_set b < 64" using last \<open>Suc k \<le> 64\<close> by simp
  show "\<not> bit b j" if "get_last_set b < j"
  proof -
    have "(2::nat) ^ Suc k \<le> 2 ^ j" using that last by (intro power_increasing) auto
    with b(2) have "?n div 2 ^ j = 0" by simp
    then show ?thesis by (simp add: bit_of_word_unat bit_iff_odd)
  qed
qed

text \<open>
  The walk from position \<open>p\<close> with the bits below \<open>p\<close> already shifted out yields
  exactly the remaining set bits in increasing order.
\<close>

definition bits_from :: "u64 \<Rightarrow> nat \<Rightarrow> nat list" where
  "bits_from b p = filter (bit b) [p ..< 64]"

lemma bits_from_step:
  assumes "drop_bit p b \<noteq> 0" and "k = p + get_first_set (drop_bit p b)"
  shows "bits_from b p = k # bits_from b (Suc k)"
proof -
  note low = get_first_set_lowest [OF assms(1)]
  have k: "bit b k" using low(1) by (simp add: assms(2) bit_drop_bit_eq)
  then have "k < 64" by (rule bit_imp_le_length [where 'a = 64, simplified])
  then have "[p ..< 64] = [p ..< k] @ k # [Suc k ..< 64]"
    by (metis assms(2) le_add1 le_add_diff_inverse less_imp_le upt_add_eq_append upt_conv_Cons)
  moreover have "filter (bit b) [p ..< k] = []"
  proof (rule filter_False, rule ballI)
    fix j assume "j \<in> set [p ..< k]"
    then have "\<not> bit (drop_bit p b) (j - p)" using assms(2) by (intro low(2)) auto
    with \<open>j \<in> set [p ..< k]\<close> show "\<not> bit b j" by (simp add: bit_drop_bit_eq)
  qed
  ultimately show ?thesis using k by (simp add: bits_from_def)
qed

lemma bits_from_none: "drop_bit p b = 0 \<Longrightarrow> bits_from b p = []"
  by (auto simp: bits_from_def filter_empty_conv bit_eq_iff bit_drop_bit_eq)
    (metis le_add_diff_inverse less_imp_diff_less)

lemma set_iterator_walk_bits:
  "set_iterator_walk (set_iterator_advance (drop_bit p b, int p - 1)) = bits_from b p"
proof (induction "64 - p" arbitrary: p rule: less_induct)
  case less
  show ?case
  proof (cases "drop_bit p b = 0")
    case True
    then show ?thesis
      by (simp add: set_iterator_advance_def set_iterator_walk.simps bits_from_none)
  next
    case False
    define k where "k = p + get_first_set (drop_bit p b)"
    have adv: "set_iterator_advance (drop_bit p b, int p - 1) = (drop_bit (Suc k) b, int (Suc k) - 1)"
      using False by (simp add: set_iterator_advance_def Let_def k_def add.commute)
    have "bit b k" using get_first_set_lowest(1) [OF False] by (simp add: k_def bit_drop_bit_eq)
    then have "k < 64" by (rule bit_imp_le_length [where 'a = 64, simplified])
    then have "64 - Suc k < 64 - p" using k_def by linarith
    from less.hyps [OF this] show ?thesis
      unfolding adv by (subst set_iterator_walk.simps) (simp add: bits_from_step [OF False k_def])
  qed
qed

theorem for_each_set_eq: "for_each_set b offset = filter (bit b) [offset ..< 64]"
  using set_iterator_walk_bits [of offset b]
  by (simp add: for_each_set_def set_iterator_begin_def bits_from_def)

end
