(* ===== verification/CpuSet.thy ===== *)
theory CpuSet
  imports Bits
begin

text \<open>
  The lock-free set of CPU ids of \<open>include/osv/sched.hh\<close> (class \<open>cpu_set\<close>): an array
  of four 64-bit words. The scheduler uses it as the mask of CPUs that have queued
  wakeups. Each definition is one method; \<open>fetch_or\<close>, \<open>fetch_and\<close> and
  \<open>exchange\<close> of the source are single atomic steps on one word. The last section
  interleaves the consumer's \<open>fetch_clear\<close> with concurrent producers.
\<close>

definition max_cpus :: nat where
  "max_cpus = 256"

definition bits_per_word :: nat where
  "bits_per_word = 64"

definition nr_words :: nat where
  "nr_words = max_cpus div bits_per_word"

type_synonym cpu_set = "u64 list"

lemmas cpu_set_consts = max_cpus_def bits_per_word_def nr_words_def

definition cpu_set_empty :: cpu_set where
  "cpu_set_empty = replicate nr_words 0"

definition cpu_bit :: "nat \<Rightarrow> u64" where
  "cpu_bit c = push_bit (c mod bits_per_word) 1"

definition cpu_set_set :: "nat \<Rightarrow> cpu_set \<Rightarrow> cpu_set" where
  "cpu_set_set c ws = ws[c div bits_per_word := ws ! (c div bits_per_word) OR cpu_bit c]"

definition cpu_set_test_and_set :: "nat \<Rightarrow> cpu_set \<Rightarrow> bool \<times> cpu_set" where
  "cpu_set_test_and_set c ws =
     (ws ! (c div bits_per_word) AND cpu_bit c \<noteq> 0, cpu_set_set c ws)"

text \<open>The result is the whole previous word, converted to a truth value.\<close>

definition cpu_set_test_all_and_set :: "nat \<Rightarrow> cpu_set \<Rightarrow> bool \<times> cpu_set" where
  "cpu_set_test_all_and_set c ws = (ws ! (c div bits_per_word) \<noteq> 0, cpu_set_set c ws)"

definition cpu_set_clear :: "nat \<Rightarrow> cpu_set \<Rightarrow> cpu_set" where
  "cpu_set_clear c ws = ws[c div bits_per_word := ws ! (c div bits_per_word) AND NOT (cpu_bit c)]"

text \<open>One iteration of the loop of \<open>fetch_clear\<close>: \<open>(returned set, this set)\<close>.\<close>

definition fetch_clear_word :: "nat \<Rightarrow> cpu_set \<times> cpu_set \<Rightarrow> cpu_set \<times> cpu_set" where
  "fetch_clear_word i rs =
     (case rs of (ret, ws) \<Rightarrow>
        if ws ! i \<noteq> 0 then (ret[i := ws ! i], ws[i := 0]) else (ret, ws))"

definition cpu_set_fetch_clear :: "cpu_set \<Rightarrow> cpu_set \<times> cpu_set" where
  "cpu_set_fetch_clear ws = fold fetch_clear_word [0 ..< nr_words] (cpu_set_empty, ws)"

definition cpu_set_bool :: "cpu_set \<Rightarrow> bool" where
  "cpu_set_bool ws \<longleftrightarrow> (\<exists>i \<in> set [0 ..< nr_words]. ws ! i \<noteq> 0)"

function cpu_set_advance :: "cpu_set \<Rightarrow> nat \<Rightarrow> nat" where
  "cpu_set_advance ws idx =
     (if idx < max_cpus then
        let w = idx div bits_per_word; b = idx mod bits_per_word;
            overflow = ws ! w AND NOT (push_bit b 1 - 1) in
          if overflow \<noteq> 0 then w * bits_per_word + count_trailing_zeros (unat overflow)
          else cpu_set_advance ws ((w + 1) * bits_per_word)
      else max_cpus)"
  by pat_completeness auto
termination
  by (relation "measure (\<lambda>(ws, idx). max_cpus - idx)")
    (auto simp: cpu_set_consts mult.commute intro!: diff_less_mono2)

definition cpu_set_next :: "cpu_set \<Rightarrow> nat \<Rightarrow> nat" where
  "cpu_set_next ws idx = (if Suc idx < max_cpus then cpu_set_advance ws (Suc idx) else Suc idx)"

text \<open>The range-based for loop, from \<open>begin()\<close> to \<open>end()\<close>; 257 iterations are enough.\<close>

fun cpu_set_walk :: "nat \<Rightarrow> cpu_set \<Rightarrow> nat \<Rightarrow> nat list" where
  "cpu_set_walk 0 ws idx = []"
| "cpu_set_walk (Suc fuel) ws idx =
     (if idx = max_cpus then [] else idx # cpu_set_walk fuel ws (cpu_set_next ws idx))"

definition cpu_set_iterate :: "cpu_set \<Rightarrow> nat list" where
  "cpu_set_iterate ws = cpu_set_walk (Suc max_cpus) ws (cpu_set_advance ws 0)"

declare cpu_set_advance.simps [simp del]

section \<open>Membership\<close>

definition wf_cpu_set :: "cpu_set \<Rightarrow> bool" where
  "wf_cpu_set ws \<longleftrightarrow> length ws = nr_words"

definition in_cpu_set :: "cpu_set \<Rightarrow> nat \<Rightarrow> bool" where
  "in_cpu_set ws c \<longleftrightarrow> c < max_cpus \<and> bit (ws ! (c div bits_per_word)) (c mod bits_per_word)"

lemma word_index: "c < max_cpus \<Longrightarrow> c div bits_per_word < nr_words"
  by (simp add: cpu_set_consts less_mult_imp_div_less)

lemma cpu_bit_iff: "bit (cpu_bit c) j \<longleftrightarrow> j = c mod bits_per_word"
  by (auto simp: cpu_bit_def bit_simps bits_per_word_def)

lemma same_cpu_iff:
  "c = d \<longleftrightarrow> c div bits_per_word = d div bits_per_word \<and> c mod bits_per_word = d mod bits_per_word"
  by (metis div_mult_mod_eq)

lemma wf_cpu_set_simps [simp]:
  "wf_cpu_set cpu_set_empty"
  "wf_cpu_set ws \<Longrightarrow> wf_cpu_set (cpu_set_set c ws)"
  "wf_cpu_set ws \<Longrightarrow> wf_cpu_set (cpu_set_clear c ws)"
  by (simp_all add: wf_cpu_set_def cpu_set_empty_def cpu_set_set_def cpu_set_clear_def)

lemma in_cpu_set_empty [simp]: "\<not> in_cpu_set cpu_set_empty c"
  using word_index [of c] by (auto simp: in_cpu_set_def cpu_set_empty_def)

lemma in_cpu_set_set:
  assumes "wf_cpu_set ws" and "c < max_cpus"
  shows "in_cpu_set (cpu_set_set c ws) d \<longleftrightarrow> d = c \<or> in_cpu_set ws d"
  using assms word_index [of c] word_index [of d] same_cpu_iff [of d c]
  by (auto simp: in_cpu_set_def cpu_set_set_def wf_cpu_set_def nth_list_update bit_or_iff cpu_bit_iff)

lemma in_cpu_set_clear:
  assumes "wf_cpu_set ws" and "c < max_cpus"
  shows "in_cpu_set (cpu_set_clear c ws) d \<longleftrightarrow> d \<noteq> c \<and> in_cpu_set ws d"
  using assms word_index [of c] word_index [of d] same_cpu_iff [of d c]
  by (auto simp: in_cpu_set_def cpu_set_clear_def wf_cpu_set_def nth_list_update bit_and_iff
      bit_not_iff cpu_bit_iff bits_per_word_def)

lemma bit_word_iff_and_cpu_bit:
  "w AND cpu_bit c = 0 \<longleftrightarrow> \<not> bit w (c mod bits_per_word)" for w :: u64
proof
  assume "w AND cpu_bit c = 0"
  then have "\<not> bit (w AND cpu_bit c) (c mod bits_per_word)" by simp
  then show "\<not> bit w (c mod bits_per_word)" by (simp add: bit_and_iff cpu_bit_iff)
next
  assume "\<not> bit w (c mod bits_per_word)"
  then show "w AND cpu_bit c = 0"
    by (intro bit_word_eqI) (auto simp: bit_and_iff cpu_bit_iff)
qed

lemma test_and_set_result:
  assumes "c < max_cpus"
  shows "fst (cpu_set_test_and_set c ws) \<longleftrightarrow> in_cpu_set ws c"
proof -
  have "ws ! (c div bits_per_word) AND cpu_bit c = 0
    \<longleftrightarrow> \<not> bit (ws ! (c div bits_per_word)) (c mod bits_per_word)"
    by (simp add: bit_word_iff_and_cpu_bit)
  with assms show ?thesis by (auto simp: cpu_set_test_and_set_def in_cpu_set_def)
qed

section \<open>Iteration\<close>

lemma overflow_bit:
  "bit (w AND NOT (push_bit b 1 - 1)) j \<longleftrightarrow> bit w j \<and> b \<le> j" for w :: u64
proof -
  have "push_bit b 1 - 1 = (mask b :: u64)"
    by (simp add: mask_eq_exp_minus_1 push_bit_eq_mult)
  then show ?thesis
    by (auto simp: bit_and_iff bit_not_iff bit_mask_iff dest: bit_imp_le_length)
qed

text \<open>In the word of \<open>idx\<close> the masked word has exactly the members from \<open>idx\<close> on.\<close>

lemma overflow_member:
  assumes "idx < max_cpus" and "c div bits_per_word = idx div bits_per_word"
  shows "bit (ws ! (idx div bits_per_word) AND NOT (push_bit (idx mod bits_per_word) 1 - 1))
      (c mod bits_per_word) \<longleftrightarrow> in_cpu_set ws c \<and> idx \<le> c"
proof -
  have "idx mod bits_per_word \<le> c mod bits_per_word \<longleftrightarrow> idx \<le> c"
    using assms(2) div_mult_mod_eq [of c bits_per_word] div_mult_mod_eq [of idx bits_per_word]
    by (metis nat_add_left_cancel_le)
  moreover have "c < max_cpus"
    using assms div_less_iff_less_mult [of 64 c 4] div_less_iff_less_mult [of 64 idx 4]
    by (simp add: cpu_set_consts)
  ultimately show ?thesis
    using assms(2) unfolding overflow_bit in_cpu_set_def by simp
qed

definition members_from :: "cpu_set \<Rightarrow> nat \<Rightarrow> nat list" where
  "members_from ws idx = filter (in_cpu_set ws) [idx ..< max_cpus]"

lemma members_from_end [simp]: "members_from ws max_cpus = []"
  by (simp add: members_from_def)

lemma members_from_skip:
  assumes "idx \<le> r" and "r \<le> max_cpus"
    and "\<And>c. idx \<le> c \<Longrightarrow> c < r \<Longrightarrow> \<not> in_cpu_set ws c"
  shows "members_from ws idx = members_from ws r"
proof -
  have "[idx ..< max_cpus] = [idx ..< r] @ [r ..< max_cpus]"
    using assms(1,2) by (metis le_add_diff_inverse upt_add_eq_append)
  moreover have "filter (in_cpu_set ws) [idx ..< r] = []"
    using assms(3) by (simp add: filter_empty_conv)
  ultimately show ?thesis by (simp add: members_from_def)
qed

lemma members_from_hit:
  "in_cpu_set ws r \<Longrightarrow> members_from ws r = r # members_from ws (Suc r)"
  by (simp add: members_from_def in_cpu_set_def upt_conv_Cons)

text \<open>The two ways an iteration of \<open>advance\<close> ends: in the word of \<open>idx\<close>, or past it.\<close>

lemma advance_past_word:
  assumes "idx < max_cpus"
    and "ws ! (idx div bits_per_word) AND NOT (push_bit (idx mod bits_per_word) 1 - 1) = 0"
  shows "members_from ws idx = members_from ws ((idx div bits_per_word + 1) * bits_per_word)"
proof (rule members_from_skip)
  show "idx \<le> (idx div bits_per_word + 1) * bits_per_word"
    and "(idx div bits_per_word + 1) * bits_per_word \<le> max_cpus"
    using assms(1) by (simp_all add: cpu_set_consts)
next
  fix c assume c: "idx \<le> c" "c < (idx div bits_per_word + 1) * bits_per_word"
  then have "c div bits_per_word = idx div bits_per_word"
    by (simp add: bits_per_word_def)
  from overflow_member [OF assms(1) this, of ws] assms(2) c(1)
  show "\<not> in_cpu_set ws c" by simp
qed

lemma advance_in_word:
  fixes ov :: u64
  assumes "idx < max_cpus"
    and ov: "ov = ws ! (idx div bits_per_word) AND NOT (push_bit (idx mod bits_per_word) 1 - 1)"
    and "ov \<noteq> 0"
    and r: "r = idx div bits_per_word * bits_per_word + count_trailing_zeros (unat ov)"
  shows "in_cpu_set ws r" and "idx \<le> r" and "members_from ws idx = members_from ws r"
proof -
  note low = get_first_set_lowest [OF assms(3), unfolded get_first_set_def]
  have word: "r div bits_per_word = idx div bits_per_word"
    and pos: "r mod bits_per_word = count_trailing_zeros (unat ov)"
    using low(3) by (simp_all add: r bits_per_word_def)
  show mem: "in_cpu_set ws r" and le: "idx \<le> r"
    using overflow_member [OF assms(1) word, of ws, folded ov] low(1) by (simp_all add: pos)
  show "members_from ws idx = members_from ws r"
  proof (rule members_from_skip [OF le])
    show "r \<le> max_cpus" using mem by (simp add: in_cpu_set_def)
  next
    fix c assume c: "idx \<le> c" "c < r"
    then have cw: "c div bits_per_word = idx div bits_per_word"
      using word div_le_mono [of idx c bits_per_word] div_le_mono [of c r bits_per_word] by simp
    then have "c mod bits_per_word < r mod bits_per_word"
      using c(2) word div_mult_mod_eq [of c bits_per_word] div_mult_mod_eq [of r bits_per_word]
      by (metis nat_add_left_cancel_less)
    then have "\<not> bit ov (c mod bits_per_word)" using low(2) by (simp add: pos)
    with overflow_member [OF assms(1) cw, of ws, folded ov] c(1) show "\<not> in_cpu_set ws c" by simp
  qed
qed

lemma cpu_set_advance_least:
  "(cpu_set_advance ws idx = max_cpus \<or> in_cpu_set ws (cpu_set_advance ws idx)) \<and>
   (idx \<le> max_cpus \<longrightarrow> idx \<le> cpu_set_advance ws idx) \<and>
   members_from ws idx = members_from ws (cpu_set_advance ws idx)"
proof (induction ws idx rule: cpu_set_advance.induct)
  case (1 ws idx)
  define w where "w = idx div bits_per_word"
  define b where "b = idx mod bits_per_word"
  define ov where "ov = ws ! w AND NOT (push_bit b 1 - 1)"
  consider "\<not> idx < max_cpus" | "idx < max_cpus" "ov = 0" | "idx < max_cpus" "ov \<noteq> 0" by blast
  then show ?case
  proof cases
    case 1
    then have "cpu_set_advance ws idx = max_cpus" by (subst cpu_set_advance.simps) simp
    then show ?thesis using 1 by (auto simp: members_from_def)
  next
    case 2
    have eq: "cpu_set_advance ws idx = cpu_set_advance ws ((w + 1) * bits_per_word)"
      using 2 by (subst cpu_set_advance.simps) (simp add: Let_def ov_def w_def b_def)
    have "idx \<le> (w + 1) * bits_per_word" "(w + 1) * bits_per_word \<le> max_cpus"
      using 2(1) by (simp_all add: w_def cpu_set_consts)
    with "1.IH" [OF 2(1) w_def b_def ov_def] 2(2)
      advance_past_word [OF 2(1), of ws, folded w_def b_def, folded ov_def]
    show ?thesis unfolding eq by auto
  next
    case 3
    have eq: "cpu_set_advance ws idx = w * bits_per_word + count_trailing_zeros (unat ov)"
      using 3 by (subst cpu_set_advance.simps) (simp add: Let_def ov_def w_def b_def)
    show ?thesis
      using advance_in_word [OF 3(1) ov_def [unfolded w_def b_def] 3(2) eq [unfolded w_def]] by simp
  qed
qed

lemma cpu_set_walk_members:
  assumes "idx = max_cpus \<or> in_cpu_set ws idx" and "max_cpus - idx < fuel"
  shows "cpu_set_walk fuel ws idx = members_from ws idx"
  using assms
proof (induction fuel arbitrary: idx)
  case (Suc fuel)
  show ?case
  proof (cases "idx = max_cpus")
    case False
    with Suc.prems have mem: "in_cpu_set ws idx" and lt: "idx < max_cpus"
      by (auto simp: in_cpu_set_def)
    let ?n = "cpu_set_next ws idx"
    have n: "?n = max_cpus \<or> in_cpu_set ws ?n" "Suc idx \<le> ?n"
        "members_from ws (Suc idx) = members_from ws ?n"
      using cpu_set_advance_least [of ws "Suc idx"] lt by (auto simp: cpu_set_next_def)
    have "max_cpus - ?n < fuel" using n(2) Suc.prems(2) lt by linarith
    with n Suc.IH [of ?n] False show ?thesis by (simp add: members_from_hit [OF mem])
  qed simp
qed simp

text \<open>The range-based loop over a set visits exactly its members, once each, in order.\<close>

lemma cpu_set_iterate_eq: "cpu_set_iterate ws = filter (in_cpu_set ws) [0 ..< max_cpus]"
  unfolding cpu_set_iterate_def
  using cpu_set_advance_least [of ws 0] cpu_set_walk_members [of "cpu_set_advance ws 0" ws "Suc max_cpus"]
  by (simp add: members_from_def less_Suc_eq_le)

section \<open>The consumer against concurrent producers\<close>

text \<open>
  \<open>cpu::handle_incoming_wakeups\<close> empties the mask with \<open>fetch_clear\<close> while other CPUs
  call \<open>set\<close> on it. The events are the atomic steps of either side: a producer's
  \<open>fetch_or\<close>, and the consumer's work on one word. (Only the consumer clears bits, so a
  word it loaded as non-zero is still non-zero at the \<open>exchange\<close>: the pair acts at the
  \<open>exchange\<close>, or at the \<open>load\<close> when that saw zero.)
\<close>

datatype mask_event = EvSet nat | EvFetch nat

fun mask_step :: "mask_event \<Rightarrow> cpu_set \<times> cpu_set \<Rightarrow> cpu_set \<times> cpu_set" where
  "mask_step (EvSet c) (ret, ws) = (ret, cpu_set_set c ws)"
| "mask_step (EvFetch i) rs = fetch_clear_word i rs"

definition producers :: "mask_event list \<Rightarrow> nat set" where
  "producers es = {c. EvSet c \<in> set es}"

definition fetches :: "mask_event list \<Rightarrow> nat list" where
  "fetches es = concat (map (\<lambda>e. case e of EvFetch i \<Rightarrow> [i] | EvSet _ \<Rightarrow> []) es)"

definition mask_pair_ok :: "cpu_set \<times> cpu_set \<Rightarrow> bool" where
  "mask_pair_ok rs \<longleftrightarrow> wf_cpu_set (fst rs) \<and> wf_cpu_set (snd rs)"

lemma fetch_clear_word_members:
  assumes "mask_pair_ok (ret, ws)" and "ret ! i = 0" and "i < nr_words"
    and "fetch_clear_word i (ret, ws) = (ret', ws')"
  shows "mask_pair_ok (ret', ws')"
    and "in_cpu_set ret' c \<or> in_cpu_set ws' c \<longleftrightarrow> in_cpu_set ret c \<or> in_cpu_set ws c"
    and "j \<noteq> i \<Longrightarrow> ret' ! j = ret ! j" and "ws' ! i = 0"
  using assms word_index [of c]
  by (auto simp: mask_pair_ok_def wf_cpu_set_def fetch_clear_word_def in_cpu_set_def
      nth_list_update split: if_splits)

lemma mask_run_members:
  assumes "mask_pair_ok rs" and "distinct (fetches es)" and "producers es \<subseteq> {..< max_cpus}"
    and "\<forall>i \<in> set (fetches es). i < nr_words \<and> fst rs ! i = 0"
    and "fold mask_step es rs = rs'"
  shows "mask_pair_ok rs' \<and> (\<forall>c. in_cpu_set (fst rs') c \<or> in_cpu_set (snd rs') c \<longleftrightarrow>
    in_cpu_set (fst rs) c \<or> in_cpu_set (snd rs) c \<or> c \<in> producers es)"
  using assms
proof (induction es arbitrary: rs)
  case Nil
  then show ?case by (simp add: producers_def)
next
  case (Cons e es)
  obtain ret ws where rs: "rs = (ret, ws)" by (cases rs)
  show ?case
  proof (cases e)
    case (EvSet c)
    have pr: "producers (e # es) = insert c (producers es)"
      and fe: "fetches (e # es) = fetches es" using EvSet by (auto simp: producers_def fetches_def)
    have ok: "mask_pair_ok (ret, cpu_set_set c ws)" and wf: "wf_cpu_set ws" and "c < max_cpus"
      using Cons.prems(1,3) rs pr by (auto simp: mask_pair_ok_def)
    then show ?thesis
      using Cons.IH [OF ok] Cons.prems(2-5) rs EvSet in_cpu_set_set [OF wf \<open>c < max_cpus\<close>]
      unfolding pr fe by auto
  next
    case (EvFetch i)
    have pr: "producers (e # es) = producers es"
      and fe: "fetches (e # es) = i # fetches es" using EvFetch by (auto simp: producers_def fetches_def)
    obtain ret' ws' where st: "fetch_clear_word i (ret, ws) = (ret', ws')" by fastforce
    note fc = fetch_clear_word_members [OF Cons.prems(1) [unfolded rs] _ _ st]
    have i: "ret ! i = 0" "i < nr_words" "i \<notin> set (fetches es)"
      using Cons.prems(2,4) rs unfolding fe by auto
    have "\<forall>j \<in> set (fetches es). j < nr_words \<and> fst (ret', ws') ! j = 0"
      using Cons.prems(4) i fc(3) unfolding fe rs by (metis fst_conv list.set_intros(2))
    then show ?thesis
      using Cons.IH [OF fc(1) [OF i(1,2)]] Cons.prems(2,3,5) rs EvFetch st fc(2) [OF i(1,2)]
      unfolding pr fe by auto
  qed
qed

lemma fetch_clear_events:
  "cpu_set_fetch_clear ws = fold mask_step (map EvFetch [0 ..< nr_words]) (cpu_set_empty, ws)"
proof -
  have "fetch_clear_word = (\<lambda>i. mask_step (EvFetch i))" by (simp add: fun_eq_iff)
  then show ?thesis by (simp add: cpu_set_fetch_clear_def fold_map comp_def)
qed

lemma cpu_set_empty_nth: "i < nr_words \<Longrightarrow> cpu_set_empty ! i = 0"
  by (simp add: cpu_set_empty_def)

lemma nr_words_Suc: "nr_words = Suc (Suc (Suc (Suc 0)))"
  by (simp add: cpu_set_consts)

lemma nr_words_upt: "[0 ..< nr_words] = [0, 1, 2, 3]"
  unfolding nr_words_Suc by simp

lemma cpu_set_empty_eq: "cpu_set_empty = [0, 0, 0, 0]"
  unfolding cpu_set_empty_def nr_words_Suc by simp

lemma fetch_clear_sequential:
  assumes "wf_cpu_set ws"
  shows "cpu_set_fetch_clear ws = (ws, cpu_set_empty)"
proof -
  have "length ws = Suc (Suc (Suc (Suc 0)))"
    using assms by (simp add: wf_cpu_set_def cpu_set_consts)
  then obtain a b c d where "ws = [a, b, c, d]"
    by (auto simp: length_Suc_conv)
  then show ?thesis
    by (simp add: cpu_set_fetch_clear_def fetch_clear_word_def nr_words_upt cpu_set_empty_eq)
qed



text \<open>Claim C32: iterating over a CPU set visits exactly its members, once each and in
  ascending order.\<close>

theorem cpu_set_iterate_members:
  "cpu_set_iterate ws = filter (in_cpu_set ws) [0 ..< max_cpus]"
  by (rule cpu_set_iterate_eq)

end
