(* ===== verification/TimerSet.thy ===== *)
theory TimerSet
  imports Bits
begin

text \<open>
  The timer queue of \<open>include/osv/timer-set.hh\<close>: a radix structure whose bucket index is
  the length of the common prefix of a timer's timeout and the last expiry time.

  \<open>Timer\<close> and \<open>Clock\<close> are template parameters of the class: a timer is any value, its
  \<open>get_timeout()\<close> the argument \<open>tmo\<close> of the operations. Timestamps are the signed 64-bit
  count of the clock, here integers bounded by \<open>max_timestamp\<close>. The intrusive lists are
  lists of timers and \<open>_non_empty_buckets\<close> is a 64-bit word.
\<close>

section \<open>The structure and its operations\<close>

definition max_timestamp :: int where
  "max_timestamp = 2 ^ 63 - 1"

definition n_buckets :: nat where
  "n_buckets = 64"

record 'a timer_set =
  buckets :: "nat \<Rightarrow> 'a list"
  expired :: "'a list"
  last_ts :: int
  next_ts :: int
  non_empty_buckets :: u64

text \<open>\<open>bitsets::count_leading_zeros(long long)\<close> is \<open>__builtin_clzll\<close> less one.\<close>

definition count_leading_zeros_signed :: "int \<Rightarrow> nat" where
  "count_leading_zeros_signed x = count_leading_zeros (nat x) - 1"

definition get_index :: "'a timer_set \<Rightarrow> int \<Rightarrow> nat" where
  "get_index s ts =
     (if ts \<le> last_ts s then n_buckets - 1
      else count_leading_zeros_signed (ts XOR last_ts s))"

definition get_last_non_empty_bucket :: "'a timer_set \<Rightarrow> nat" where
  "get_last_non_empty_bucket s = get_last_set (non_empty_buckets s)"

definition assign_bit :: "nat \<Rightarrow> bool \<Rightarrow> u64 \<Rightarrow> u64" where
  "assign_bit i b w = (if b then set_bit i w else unset_bit i w)"

definition ts_init :: "'a timer_set" where
  "ts_init = \<lparr>buckets = (\<lambda>_. []), expired = [], last_ts = 0, next_ts = max_timestamp,
     non_empty_buckets = 0\<rparr>"

definition ts_insert :: "('a \<Rightarrow> int) \<Rightarrow> 'a \<Rightarrow> 'a timer_set \<Rightarrow> bool \<times> 'a timer_set" where
  "ts_insert tmo t s =
     (let ts = tmo t; index = get_index s ts;
          s1 = s\<lparr>buckets := (buckets s)(index := buckets s index @ [t]),
                 non_empty_buckets := assign_bit index True (non_empty_buckets s)\<rparr> in
        if ts < next_ts s1 then (True, s1\<lparr>next_ts := ts\<rparr>) else (False, s1))"

definition ts_remove :: "('a \<Rightarrow> int) \<Rightarrow> 'a \<Rightarrow> 'a timer_set \<Rightarrow> 'a timer_set" where
  "ts_remove tmo t s =
     (let index = get_index s (tmo t); l = remove1 t (buckets s index);
          s1 = s\<lparr>buckets := (buckets s)(index := l)\<rparr> in
        if l = [] then s1\<lparr>non_empty_buckets := assign_bit index False (non_empty_buckets s1)\<rparr> else s1)"

text \<open>The first loop of \<open>expire\<close>: one non-empty bucket is spliced to the expired list.\<close>

definition splice_bucket :: "nat \<Rightarrow> 'a timer_set \<Rightarrow> 'a timer_set" where
  "splice_bucket i s =
     s\<lparr>expired := expired s @ buckets s i, buckets := (buckets s)(i := []),
       non_empty_buckets := assign_bit i False (non_empty_buckets s)\<rparr>"

text \<open>
  The second loop empties one bucket while \<open>insert\<close> may put timers back into any bucket;
  nothing in its shape bounds it, so it is a partial function.
\<close>

partial_function (option) expire_drain ::
  "('a \<Rightarrow> int) \<Rightarrow> int \<Rightarrow> nat \<Rightarrow> 'a timer_set \<Rightarrow> 'a timer_set option" where
  "expire_drain tmo now index s =
     (case buckets s index of
        [] \<Rightarrow> Some s
      | t # rest \<Rightarrow>
          let s1 = s\<lparr>buckets := (buckets s)(index := rest)\<rparr> in
            if tmo t \<le> now then expire_drain tmo now index (s1\<lparr>expired := expired s1 @ [t]\<rparr>)
            else expire_drain tmo now index (snd (ts_insert tmo t s1)))"

text \<open>The final scan for the next timeout.\<close>

definition rescan_next :: "('a \<Rightarrow> int) \<Rightarrow> 'a timer_set \<Rightarrow> 'a timer_set" where
  "rescan_next tmo s =
     (if next_ts s = max_timestamp \<and> non_empty_buckets s \<noteq> 0 then
        s\<lparr>next_ts := fold (\<lambda>t m. min m (tmo t)) (buckets s (get_last_non_empty_bucket s)) (next_ts s)\<rparr>
      else s)"

text \<open>\<open>None\<close> is the abort on a time that goes backwards.\<close>

definition ts_expire :: "('a \<Rightarrow> int) \<Rightarrow> int \<Rightarrow> 'a timer_set \<Rightarrow> 'a timer_set option" where
  "ts_expire tmo now s =
     (if now < last_ts s then None
      else
        let index = get_index s now;
            s1 = fold splice_bucket (for_each_set (non_empty_buckets s) (index + 1)) s;
            s2 = s1\<lparr>last_ts := now, next_ts := max_timestamp\<rparr> in
          case expire_drain tmo now index s2 of
            None \<Rightarrow> None
          | Some s3 \<Rightarrow>
              Some (rescan_next tmo (s3\<lparr>non_empty_buckets :=
                assign_bit index (buckets s3 index \<noteq> []) (non_empty_buckets s3)\<rparr>)))"

definition ts_pop_expired :: "'a timer_set \<Rightarrow> 'a option \<times> 'a timer_set" where
  "ts_pop_expired s =
     (case expired s of [] \<Rightarrow> (None, s) | t # rest \<Rightarrow> (Some t, s\<lparr>expired := rest\<rparr>))"

definition ts_get_next_timeout :: "'a timer_set \<Rightarrow> int" where
  "ts_get_next_timeout s = max (last_ts s) (next_ts s)"

definition ts_clear :: "'a timer_set \<Rightarrow> 'a timer_set" where
  "ts_clear s =
     (fold (\<lambda>i s. s\<lparr>buckets := (buckets s)(i := [])\<rparr>) (for_each_set (non_empty_buckets s) 0) s)
       \<lparr>expired := []\<rparr>"

definition ts_empty :: "'a timer_set \<Rightarrow> bool" where
  "ts_empty s \<longleftrightarrow> non_empty_buckets s = 0"

section \<open>Bucket indices\<close>

text \<open>The bucket of a future time \<open>t\<close>, in terms of the position above which it agrees with \<open>l\<close>.\<close>

lemma nat_xor: "0 \<le> x \<Longrightarrow> 0 \<le> y \<Longrightarrow> nat (x XOR y) = nat x XOR nat y" for x y :: int
  using of_nat_xor_eq [where 'a = int, of "nat x" "nat y"] by (simp flip: of_nat_eq_iff)

definition agree_from :: "int \<Rightarrow> int \<Rightarrow> nat" where
  "agree_from t l = bit_length (nat t XOR nat l)"

lemma agree_from_le_iff:
  assumes "0 \<le> t" and "0 \<le> l"
  shows "agree_from t l \<le> k \<longleftrightarrow> t div 2 ^ k = l div 2 ^ k"
proof -
  have "agree_from t l \<le> k \<longleftrightarrow> nat t div 2 ^ k = nat l div 2 ^ k"
    by (simp add: agree_from_def bit_length_xor_le_iff)
  also have "\<dots> \<longleftrightarrow> nat (t div 2 ^ k) = nat (l div 2 ^ k)"
    using assms by (simp add: nat_div_distrib nat_power_eq)
  also have "\<dots> \<longleftrightarrow> t div 2 ^ k = l div 2 ^ k"
    using assms by (simp add: pos_imp_zdiv_nonneg_iff eq_nat_nat_iff)
  finally show ?thesis .
qed

lemma get_index_future:
  assumes "last_ts s < t" and "0 \<le> last_ts s" and "t \<le> max_timestamp"
  shows "get_index s t = 63 - agree_from t (last_ts s)"
    and "1 \<le> agree_from t (last_ts s)" and "agree_from t (last_ts s) \<le> 63"
proof -
  show "1 \<le> agree_from t (last_ts s)"
    using assms agree_from_le_iff [of t "last_ts s" 0] by simp
  show "agree_from t (last_ts s) \<le> 63"
    using assms agree_from_le_iff [of t "last_ts s" 63] by (simp add: max_timestamp_def)
  show "get_index s t = 63 - agree_from t (last_ts s)"
    using assms
    by (simp add: get_index_def count_leading_zeros_signed_def count_leading_zeros_def
        agree_from_def nat_xor)
qed

lemma get_index_past [simp]: "t \<le> last_ts s \<Longrightarrow> get_index s t = 63"
  by (simp add: get_index_def n_buckets_def)

lemma get_index_bounds:
  assumes "0 \<le> last_ts s" and "t \<le> max_timestamp"
  shows "get_index s t \<le> 63" and "last_ts s < t \<Longrightarrow> get_index s t < 63"
  using get_index_future [OF _ assms] by (cases "t \<le> last_ts s"; force)+

lemma get_index_cong: "last_ts s = last_ts s' \<Longrightarrow> get_index s t = get_index s' t"
  by (simp add: get_index_def)

text \<open>Buckets are ordered: a later bucket holds earlier timers.\<close>

lemma get_index_antimono:
  assumes "0 \<le> last_ts s" and "a \<le> max_timestamp" and "b \<le> max_timestamp" and "a \<le> b"
  shows "get_index s b \<le> get_index s a"
proof (cases "a \<le> last_ts s")
  case True
  with assms show ?thesis using get_index_bounds(1) [of s b] by simp
next
  case False
  let ?l = "last_ts s" and ?k = "agree_from b (last_ts s)"
  have "a div 2 ^ ?k = ?l div 2 ^ ?k"
  proof (rule antisym)
    have "b div 2 ^ ?k = ?l div 2 ^ ?k"
      using assms False agree_from_le_iff [of b ?l ?k] by simp
    then show "a div 2 ^ ?k \<le> ?l div 2 ^ ?k"
      using assms(4) by (metis zdiv_mono1 zero_less_numeral zero_less_power)
    show "?l div 2 ^ ?k \<le> a div 2 ^ ?k"
      using False by (simp add: zdiv_mono1)
  qed
  then have "agree_from a ?l \<le> ?k"
    using assms False by (simp add: agree_from_le_iff)
  with assms False get_index_future [of s a] get_index_future [of s b] show ?thesis by simp
qed

text \<open>
  How bucket indices move when the last expiry time advances to \<open>now\<close>: the buckets above
  the index of \<open>now\<close> are due, those below keep their index, and what is left of the bucket
  of \<open>now\<close> itself moves to a later one.
\<close>

lemma index_above_now:
  assumes "0 \<le> last_ts s" and "t \<le> max_timestamp" and "now \<le> max_timestamp"
    and "get_index s now < get_index s t"
  shows "t < now"
  using get_index_antimono [OF assms(1) assms(3,2)] assms(4) by linarith

lemma agree_from_shift:
  assumes "0 \<le> t" and "0 \<le> now" and "0 \<le> l" and lt: "agree_from now l < agree_from t l"
  shows "agree_from t now = agree_from t l"
proof -
  let ?n = "agree_from now l"
  have "agree_from t now \<le> m \<longleftrightarrow> agree_from t l \<le> m" for m
  proof (cases "?n \<le> m")
    case True
    then show ?thesis using assms(1-3) by (simp add: agree_from_le_iff)
  next
    case False
    have "\<not> agree_from t now \<le> m"
    proof
      assume "agree_from t now \<le> m"
      then have "agree_from t now \<le> ?n" using False by simp
      then have "t div 2 ^ ?n = now div 2 ^ ?n" using assms(1,2) by (simp add: agree_from_le_iff)
      also have "\<dots> = l div 2 ^ ?n" using agree_from_le_iff [of now l ?n] assms(2,3) by simp
      finally show False using agree_from_le_iff [of t l ?n] assms by simp
    qed
    then show ?thesis using False lt by linarith
  qed
  then show ?thesis by (metis le_antisym order_refl)
qed

lemma index_below_now:
  assumes "0 \<le> last_ts s" and "last_ts s \<le> now" and "t \<le> max_timestamp"
    and "now \<le> max_timestamp" and "get_index s t < get_index s now"
  shows "now < t" and "get_index (s\<lparr>last_ts := now\<rparr>) t = get_index s t"
proof -
  let ?l = "last_ts s"
  show "now < t"
    using get_index_antimono [OF assms(1) assms(3,4)] assms(5) by linarith
  have "?l < t" using \<open>now < t\<close> assms(2) by linarith
  have "agree_from now ?l < agree_from t ?l"
  proof (cases "?l = now")
    case True
    then show ?thesis using get_index_future(2) [of s t] assms \<open>?l < t\<close> by (simp add: agree_from_def)
  next
    case False
    then show ?thesis
      using get_index_future [of s now] get_index_future [of s t] assms \<open>?l < t\<close> by simp
  qed
  then have "agree_from t now = agree_from t ?l"
    using assms(1,2) \<open>?l < t\<close> by (intro agree_from_shift) simp_all
  then show "get_index (s\<lparr>last_ts := now\<rparr>) t = get_index s t"
    using get_index_future(1) [of s t] get_index_future(1) [of "s\<lparr>last_ts := now\<rparr>" t]
      assms \<open>now < t\<close> \<open>?l < t\<close> by simp
qed

lemma upper_half: "x div 2 = y div 2 \<Longrightarrow> x \<noteq> y \<Longrightarrow> y \<le> x \<Longrightarrow> x = 2 * (y div 2) + 1" for x y :: int
  by presburger

lemma index_at_now:
  assumes "0 \<le> last_ts s" and "last_ts s \<le> now" and "t \<le> max_timestamp"
    and "now < t" and "get_index s t = get_index s now"
  shows "get_index s now < get_index (s\<lparr>last_ts := now\<rparr>) t"
proof -
  let ?l = "last_ts s"
  have "?l < now"
  proof (rule ccontr)
    assume "\<not> ?l < now"
    then have "?l = now" using assms(2) by simp
    then show False using assms get_index_bounds(2) [of s t] by simp
  qed
  define k where "k = agree_from t ?l"
  have ft: "get_index s t = 63 - k" "1 \<le> k" "k \<le> 63"
    using get_index_future [of s t] assms \<open>?l < now\<close> by (simp_all add: k_def)
  have fn: "agree_from now ?l = k"
    using get_index_future [of s now] assms \<open>?l < now\<close> ft by simp
  obtain j where j: "k = Suc j" using ft(2) by (cases k) auto
  have half: "x div 2 ^ j = 2 * (?l div 2 ^ k) + 1"
    if "?l < x" "agree_from x ?l = k" for x
  proof -
    have same: "x div 2 ^ j div 2 = ?l div 2 ^ j div 2" "x div 2 ^ j \<noteq> ?l div 2 ^ j"
      using that assms(1) agree_from_le_iff [of x ?l k] agree_from_le_iff [of x ?l j]
      by (simp_all add: j zdiv_zmult2_eq [symmetric] mult.commute)
    moreover have "?l div 2 ^ j \<le> x div 2 ^ j" using that(1) by (simp add: zdiv_mono1)
    moreover have "?l div 2 ^ k = ?l div 2 ^ j div 2"
      by (simp add: j zdiv_zmult2_eq [symmetric] mult.commute)
    ultimately show ?thesis using upper_half by simp
  qed
  have "t div 2 ^ j = now div 2 ^ j"
    using half [of t] half [of now] fn \<open>?l < now\<close> assms(4) by (simp add: k_def)
  then have "agree_from t now \<le> j"
    using assms(1,4) \<open>?l < now\<close> by (simp add: agree_from_le_iff)
  then show ?thesis
    using get_index_future(1) [of "s\<lparr>last_ts := now\<rparr>" t] get_index_future(2) [of "s\<lparr>last_ts := now\<rparr>" t]
      assms \<open>?l < now\<close> ft j by simp
qed

section \<open>The invariant\<close>

definition active :: "'a timer_set \<Rightarrow> 'a set" where
  "active s = (\<Union>i. set (buckets s i))"

definition ts_inv :: "('a \<Rightarrow> int) \<Rightarrow> 'a timer_set \<Rightarrow> bool" where
  "ts_inv tmo s \<longleftrightarrow>
     0 \<le> last_ts s \<and> last_ts s \<le> max_timestamp \<and> next_ts s \<le> max_timestamp \<and>
     (\<forall>i. \<forall>t \<in> set (buckets s i). tmo t \<le> max_timestamp \<and> get_index s (tmo t) = i \<and> next_ts s \<le> tmo t) \<and>
     (\<forall>i. bit (non_empty_buckets s) i \<longleftrightarrow> buckets s i \<noteq> []) \<and>
     (\<forall>i. distinct (buckets s i)) \<and> distinct (expired s) \<and> set (expired s) \<inter> active s = {}"

lemma bit_assign_bit [simp]:
  "i < 64 \<Longrightarrow> bit (assign_bit i b w) j \<longleftrightarrow> (if j = i then b else bit w j)"
  by (auto simp: assign_bit_def bit_set_bit_iff bit_unset_bit_iff)

lemma ts_invD:
  assumes "ts_inv tmo s"
  shows "0 \<le> last_ts s" and "last_ts s \<le> max_timestamp" and "next_ts s \<le> max_timestamp"
    and "t \<in> set (buckets s i) \<Longrightarrow> tmo t \<le> max_timestamp"
    and "t \<in> set (buckets s i) \<Longrightarrow> get_index s (tmo t) = i"
    and "t \<in> set (buckets s i) \<Longrightarrow> next_ts s \<le> tmo t"
    and "bit (non_empty_buckets s) i \<longleftrightarrow> buckets s i \<noteq> []"
    and "distinct (buckets s i)" and "distinct (expired s)"
    and "set (expired s) \<inter> active s = {}"
  using assms by (auto simp: ts_inv_def)

lemma active_bucket:
  "ts_inv tmo s \<Longrightarrow> t \<in> active s \<longleftrightarrow> t \<in> set (buckets s (get_index s (tmo t)))"
  by (auto simp: active_def dest: ts_invD(5))

lemma active_le_max: "ts_inv tmo s \<Longrightarrow> t \<in> active s \<Longrightarrow> tmo t \<le> max_timestamp"
  by (auto simp: active_def dest: ts_invD(4))

lemma bucket_beyond:
  assumes "ts_inv tmo s" and "64 \<le> i"
  shows "buckets s i = []"
  using ts_invD(7) [OF assms(1), of i] assms(2) bit_imp_le_length [of "non_empty_buckets s" i] by auto

lemma ts_init_simps [simp]:
  "buckets ts_init i = []" "expired ts_init = []" "last_ts ts_init = 0"
  "next_ts ts_init = max_timestamp" "non_empty_buckets ts_init = 0"
  by (simp_all add: ts_init_def)

lemma ts_inv_init: "ts_inv tmo ts_init"
  by (simp add: ts_inv_def ts_init_def active_def max_timestamp_def)

lemma active_init: "active ts_init = {}"
  by (simp add: active_def ts_init_def)

text \<open>\<open>insert\<close>.\<close>

lemma ts_insert_simps:
  "buckets (snd (ts_insert tmo t s)) =
     (buckets s)(get_index s (tmo t) := buckets s (get_index s (tmo t)) @ [t])"
  "expired (snd (ts_insert tmo t s)) = expired s"
  "last_ts (snd (ts_insert tmo t s)) = last_ts s"
  "next_ts (snd (ts_insert tmo t s)) = min (next_ts s) (tmo t)"
  "non_empty_buckets (snd (ts_insert tmo t s)) =
     assign_bit (get_index s (tmo t)) True (non_empty_buckets s)"
  "fst (ts_insert tmo t s) \<longleftrightarrow> tmo t < next_ts s"
  by (auto simp: ts_insert_def Let_def min_def)

lemma active_insert: "active (snd (ts_insert tmo t s)) = insert t (active s)"
  by (auto simp: active_def ts_insert_simps split: if_splits)

lemma ts_inv_insert:
  assumes inv: "ts_inv tmo s" and new: "t \<notin> active s" "t \<notin> set (expired s)"
    and le: "tmo t \<le> max_timestamp"
  shows "ts_inv tmo (snd (ts_insert tmo t s))"
proof -
  let ?s = "snd (ts_insert tmo t s)" and ?i = "get_index s (tmo t)"
  have "?i < 64" using get_index_bounds(1) [OF ts_invD(1) [OF inv] le] by simp
  have idx: "get_index ?s x = get_index s x" for x
    by (rule get_index_cong) (simp add: ts_insert_simps)
  have "\<forall>i. t \<notin> set (buckets s i)" using new(1) by (auto simp: active_def)
  then show ?thesis
    using inv new le \<open>?i < 64\<close> unfolding ts_inv_def idx active_insert
    by (auto simp: ts_insert_simps min_le_iff_disj)
qed

text \<open>\<open>remove\<close>.\<close>

lemma ts_remove_simps:
  "buckets (ts_remove tmo t s) =
     (buckets s)(get_index s (tmo t) := remove1 t (buckets s (get_index s (tmo t))))"
  "expired (ts_remove tmo t s) = expired s"
  "last_ts (ts_remove tmo t s) = last_ts s" "next_ts (ts_remove tmo t s) = next_ts s"
  "non_empty_buckets (ts_remove tmo t s) =
     (if remove1 t (buckets s (get_index s (tmo t))) = []
      then assign_bit (get_index s (tmo t)) False (non_empty_buckets s) else non_empty_buckets s)"
  by (auto simp: ts_remove_def Let_def)

lemma active_remove:
  assumes "ts_inv tmo s"
  shows "active (ts_remove tmo t s) = active s - {t}"
proof -
  have "set (remove1 t (buckets s i)) = set (buckets s i) - {t}" for i
    using ts_invD(8) [OF assms] by simp
  then show ?thesis
    using ts_invD(5) [OF assms] by (auto simp: active_def ts_remove_simps split: if_splits)
qed

lemma ts_inv_remove:
  assumes inv: "ts_inv tmo s" and mem: "t \<in> active s"
  shows "ts_inv tmo (ts_remove tmo t s)"
proof -
  let ?s = "ts_remove tmo t s" and ?i = "get_index s (tmo t)"
  have "?i < 64"
    using get_index_bounds(1) [OF ts_invD(1) [OF inv] active_le_max [OF inv mem]] by simp
  have idx: "get_index ?s x = get_index s x" for x
    by (rule get_index_cong) (simp add: ts_remove_simps)
  have "buckets s ?i \<noteq> []" using mem active_bucket [OF inv] by fastforce
  then show ?thesis
    using inv \<open>?i < 64\<close> unfolding ts_inv_def idx active_remove [OF inv]
    by (auto simp: ts_remove_simps dest: notin_set_remove1)
qed

section \<open>Expiry\<close>

text \<open>The splice loop, for any list of bucket numbers without repetition.\<close>

lemma splice_buckets:
  fixes s :: "'a timer_set"
  assumes "distinct is" and "\<forall>i \<in> set is. i < 64"
  defines "s' \<equiv> fold splice_bucket is s"
  shows "buckets s' = (\<lambda>i. if i \<in> set is then [] else buckets s i)"
    and "expired s' = expired s @ concat (map (buckets s) is)"
    and "last_ts s' = last_ts s" and "next_ts s' = next_ts s"
    and "bit (non_empty_buckets s') i \<longleftrightarrow> bit (non_empty_buckets s) i \<and> i \<notin> set is"
  using assms(1,2) unfolding s'_def
proof (induction "is" arbitrary: s)
  case (Cons a "is")
  { case 1 then show ?case using Cons.IH(1) [of "splice_bucket a s"] by (auto simp: splice_bucket_def fun_eq_iff)
  next
    case 2
    then have "concat (map (buckets (splice_bucket a s)) is) = concat (map (buckets s) is)"
      by (intro arg_cong [where f = concat]) (auto simp: splice_bucket_def)
    moreover have "expired (splice_bucket a s) = expired s @ buckets s a"
      by (simp add: splice_bucket_def)
    ultimately show ?case using Cons.IH(2) [of "splice_bucket a s"] 2 by simp
  next
    case 3 then show ?case using Cons.IH(3) [of "splice_bucket a s"] by (simp add: splice_bucket_def)
  next
    case 4 then show ?case using Cons.IH(4) [of "splice_bucket a s"] by (simp add: splice_bucket_def)
  next
    case 5 then show ?case using Cons.IH(5) [of "splice_bucket a s"] by (auto simp: splice_bucket_def) }
qed simp_all

text \<open>
  The drain loop returns, provided no timer it keeps goes back to the bucket it drains.
  It is the composition of two filters of that bucket.
\<close>

definition min_timeout :: "('a \<Rightarrow> int) \<Rightarrow> 'a list \<Rightarrow> int \<Rightarrow> int" where
  "min_timeout tmo l m = fold (\<lambda>t m. min m (tmo t)) l m"

lemma min_timeout_eq: "min_timeout tmo l m = Min (insert m (tmo ` set l))"
proof (induction l arbitrary: m)
  case (Cons t l)
  have "min_timeout tmo (t # l) m = min_timeout tmo l (min m (tmo t))" by (simp add: min_timeout_def)
  also have "\<dots> = Min (insert (min m (tmo t)) (tmo ` set l))" by (rule Cons.IH)
  also have "\<dots> = Min (insert m (tmo ` set (t # l)))"
    by (cases "l = []") (simp_all add: insert_commute ac_simps)
  finally show ?case .
qed (simp add: min_timeout_def)

definition drain_shape :: "('a \<Rightarrow> int) \<Rightarrow> int \<Rightarrow> nat \<Rightarrow> 'a timer_set \<Rightarrow> 'a list \<Rightarrow> 'a timer_set \<Rightarrow> bool" where
  "drain_shape tmo now index s l s' \<longleftrightarrow>
     last_ts s' = last_ts s \<and>
     expired s' = expired s @ filter (\<lambda>t. tmo t \<le> now) l \<and>
     (\<forall>i. buckets s' i = (if i = index then []
        else buckets s i @ filter (\<lambda>t. now < tmo t \<and> get_index s (tmo t) = i) l)) \<and>
     (\<forall>i. bit (non_empty_buckets s') i \<longleftrightarrow> bit (non_empty_buckets s) i \<or>
        (\<exists>t \<in> set l. now < tmo t \<and> get_index s (tmo t) = i)) \<and>
     next_ts s' = min_timeout tmo (filter (\<lambda>t. now < tmo t) l) (next_ts s)"

lemma drain_result:
  assumes "buckets s index = l" and "index < 64" and "0 \<le> last_ts s"
    and "\<forall>t \<in> set l. now < tmo t \<longrightarrow> tmo t \<le> max_timestamp \<and> get_index s (tmo t) \<noteq> index"
  shows "\<exists>s'. expire_drain tmo now index s = Some s' \<and> drain_shape tmo now index s l s'"
  using assms
proof (induction l arbitrary: s)
  case Nil
  then show ?case
    by (auto simp: expire_drain.simps [of tmo now index s] drain_shape_def min_timeout_def)
next
  case (Cons t l)
  let ?s1 = "s\<lparr>buckets := (buckets s)(index := l)\<rparr>"
  show ?case
  proof (cases "tmo t \<le> now")
    case True
    let ?s2 = "?s1\<lparr>expired := expired ?s1 @ [t]\<rparr>"
    have step: "expire_drain tmo now index s = expire_drain tmo now index ?s2"
      using Cons.prems(1) True by (subst expire_drain.simps) (simp add: Let_def)
    have idx: "get_index ?s2 x = get_index s x" for x by (rule get_index_cong) simp
    from Cons.IH [of ?s2] Cons.prems obtain s' where
      "expire_drain tmo now index ?s2 = Some s'" "drain_shape tmo now index ?s2 l s'"
      unfolding idx by auto
    with True show ?thesis unfolding step drain_shape_def idx by (auto simp: min_timeout_def)
  next
    case False
    let ?s2 = "snd (ts_insert tmo t ?s1)" and ?j = "get_index s (tmo t)"
    have step: "expire_drain tmo now index s = expire_drain tmo now index ?s2"
      using Cons.prems(1) False by (subst expire_drain.simps) (simp add: Let_def)
    have idx1: "get_index ?s1 x = get_index s x" for x by (rule get_index_cong) simp
    have idx: "get_index ?s2 x = get_index s x" for x
      by (rule get_index_cong) (simp add: ts_insert_simps)
    have j: "?j \<noteq> index" "?j < 64"
      using Cons.prems False get_index_bounds(1) [of s "tmo t"] by force+
    have "buckets ?s2 index = l" "0 \<le> last_ts ?s2"
      using j Cons.prems(3) by (simp_all add: ts_insert_simps idx1)
    from Cons.IH [OF this(1) Cons.prems(2) this(2)] Cons.prems(4) obtain s' where
      s': "expire_drain tmo now index ?s2 = Some s'" "drain_shape tmo now index ?s2 l s'"
      unfolding idx by auto
    have "drain_shape tmo now index s (t # l) s'"
      using s'(2) j False unfolding drain_shape_def idx
      by (auto simp: ts_insert_simps idx1 min_timeout_def)
    with s'(1) step show ?thesis by auto
  qed
qed

text \<open>What the splice loop leaves, in a set that satisfies the invariant.\<close>

lemma splice_result:
  assumes inv: "ts_inv tmo s" and "index < 64"
  defines "s1 \<equiv> fold splice_bucket (for_each_set (non_empty_buckets s) (index + 1)) s"
  shows "buckets s1 = (\<lambda>i. if index < i then [] else buckets s i)"
    and "\<exists>D. expired s1 = expired s @ D \<and> distinct D \<and> set D = (\<Union>i \<in> {index <..}. set (buckets s i))"
    and "last_ts s1 = last_ts s"
    and "bit (non_empty_buckets s1) i \<longleftrightarrow> buckets s i \<noteq> [] \<and> i \<le> index"
proof -
  let ?is = "filter (bit (non_empty_buckets s)) [index + 1 ..< 64]"
  have "distinct ?is" and "\<forall>i \<in> set ?is. i < 64" by simp_all
  note sp = splice_buckets [OF this, of s, folded for_each_set_eq, folded s1_def]
  have ne: "i \<in> set (for_each_set (non_empty_buckets s) (index + 1)) \<longleftrightarrow> index < i \<and> buckets s i \<noteq> []" for i
    using bucket_beyond [OF inv, of i] ts_invD(7) [OF inv, of i]
    by (cases "64 \<le> i") (auto simp: for_each_set_eq)
  show "buckets s1 = (\<lambda>i. if index < i then [] else buckets s i)"
    unfolding sp(1) ne by auto
  show "last_ts s1 = last_ts s" by (rule sp(3))
  show "bit (non_empty_buckets s1) i \<longleftrightarrow> buckets s i \<noteq> [] \<and> i \<le> index"
    unfolding sp(5) ne using ts_invD(7) [OF inv, of i] by auto
  let ?D = "concat (map (buckets s) (for_each_set (non_empty_buckets s) (index + 1)))"
  have "set (buckets s i) \<inter> set (buckets s j) = {}" if "i \<noteq> j" for i j
    using that ts_invD(5) [OF inv, of _ i] ts_invD(5) [OF inv, of _ j] by auto
  then have "distinct ?D"
    using ts_invD(8) [OF inv] by (intro distinct_concat_map) (auto simp: for_each_set_eq)
  moreover have "set ?D = (\<Union>i \<in> {index <..}. set (buckets s i))"
    using ne by (auto simp: set_concat) (metis empty_iff empty_set greaterThan_iff)
  ultimately show "\<exists>D. expired s1 = expired s @ D \<and> distinct D \<and> set D = (\<Union>i \<in> {index <..}. set (buckets s i))"
    using sp(2) by blast
qed

definition expire_shape :: "('a \<Rightarrow> int) \<Rightarrow> int \<Rightarrow> 'a timer_set \<Rightarrow> 'a timer_set \<Rightarrow> bool" where
  "expire_shape tmo now s s' \<longleftrightarrow>
     last_ts s' = now \<and>
     (\<exists>D. expired s' = expired s @ D \<and> distinct D \<and> set D = {t \<in> active s. tmo t \<le> now}) \<and>
     (\<forall>i. buckets s' i = (if i < get_index s now then buckets s i
        else filter (\<lambda>t. now < tmo t \<and> get_index s' (tmo t) = i) (buckets s (get_index s now)))) \<and>
     (\<forall>i. bit (non_empty_buckets s') i \<longleftrightarrow> buckets s' i \<noteq> []) \<and>
     next_ts s' = min_timeout tmo (filter (\<lambda>t. now < tmo t) (buckets s (get_index s now))) max_timestamp"

lemma due_timers:
  assumes inv: "ts_inv tmo s" and "last_ts s \<le> now" and "now \<le> max_timestamp"
  shows "{t \<in> active s. tmo t \<le> now} =
    (\<Union>i \<in> {get_index s now <..}. set (buckets s i)) \<union> set (filter (\<lambda>t. tmo t \<le> now) (buckets s (get_index s now)))"
    (is "_ = ?R")
proof
  show "{t \<in> active s. tmo t \<le> now} \<subseteq> ?R"
  proof safe
    fix t assume t: "t \<in> active s" "tmo t \<le> now" "t \<notin> set (filter (\<lambda>t. tmo t \<le> now) (buckets s (get_index s now)))"
    have b: "t \<in> set (buckets s (get_index s (tmo t)))" using t(1) active_bucket [OF inv] by blast
    have "\<not> get_index s (tmo t) < get_index s now"
      using index_below_now(1) [of s now "tmo t"] ts_invD(1,4) [OF inv] b assms(2,3) t(2) by force
    moreover have "get_index s (tmo t) \<noteq> get_index s now" using b t(2,3) by force
    ultimately show "t \<in> (\<Union>i \<in> {get_index s now <..}. set (buckets s i))" using b by force
  qed
next
  have "tmo t \<le> now" if "t \<in> set (buckets s i)" "get_index s now < i" for t i
    using index_above_now [of s "tmo t" now] that ts_invD(1,4,5) [OF inv] assms(3) by force
  then show "?R \<subseteq> {t \<in> active s. tmo t \<le> now}" by (auto simp: active_def)
qed

lemma expire_has_shape:
  assumes inv: "ts_inv tmo s" and now: "last_ts s \<le> now" "now \<le> max_timestamp"
  shows "\<exists>s'. ts_expire tmo now s = Some (rescan_next tmo s') \<and> expire_shape tmo now s s'"
proof -
  define index where "index = get_index s now"
  define s1 where "s1 = fold splice_bucket (for_each_set (non_empty_buckets s) (index + 1)) s"
  define s2 where "s2 = s1\<lparr>last_ts := now, next_ts := max_timestamp\<rparr>"
  have "index < 64" using get_index_bounds(1) [OF ts_invD(1) [OF inv] now(2)] by (simp add: index_def)
  note sp = splice_result [OF inv this, folded s1_def]
  have idx2: "get_index s2 x = get_index (s\<lparr>last_ts := now\<rparr>) x" for x
    by (rule get_index_cong) (simp add: s2_def)
  have late: "index < get_index s2 (tmo t)" if "t \<in> set (buckets s index)" "now < tmo t" for t
    using index_at_now [of s now "tmo t"] ts_invD(1,4,5) [OF inv] that now by (simp add: idx2 index_def)
  obtain D where D: "expired s1 = expired s @ D" "distinct D" "set D = (\<Union>i \<in> {index <..}. set (buckets s i))"
    using sp(2) by blast
  have "buckets s2 index = buckets s index" "0 \<le> last_ts s2"
    using ts_invD(1) [OF inv] now sp(1) by (simp_all add: s2_def)
  moreover have "\<forall>t \<in> set (buckets s index). now < tmo t \<longrightarrow>
      tmo t \<le> max_timestamp \<and> get_index s2 (tmo t) \<noteq> index"
    using ts_invD(4) [OF inv, of _ index] late by (metis less_irrefl)
  ultimately obtain s3 where
    s3: "expire_drain tmo now index s2 = Some s3" "drain_shape tmo now index s2 (buckets s index) s3"
    using drain_result [of s2 index _ now tmo] \<open>index < 64\<close> by blast
  note sh = s3(2) [unfolded drain_shape_def]
  define s4 where "s4 = s3\<lparr>non_empty_buckets := assign_bit index (buckets s3 index \<noteq> []) (non_empty_buckets s3)\<rparr>"
  have idx4: "get_index s4 x = get_index s2 x" for x
    by (rule get_index_cong) (simp add: s4_def sh)
  have early: "filter (\<lambda>t. now < tmo t \<and> get_index s2 (tmo t) = i) (buckets s index) = []" if "i \<le> index" for i
    using late that by (force simp: filter_empty_conv)
  have bk: "buckets s4 i = (if i < index then buckets s i
      else filter (\<lambda>t. now < tmo t \<and> get_index s4 (tmo t) = i) (buckets s index))" for i
    using sh sp(1) early [of i] unfolding idx4 by (auto simp: s4_def s2_def)
  have b3: "bit (non_empty_buckets s3) i \<longleftrightarrow> buckets s i \<noteq> [] \<and> i \<le> index \<or>
      (\<exists>t \<in> set (buckets s index). now < tmo t \<and> get_index s2 (tmo t) = i)" for i
  proof -
    have "non_empty_buckets s2 = non_empty_buckets s1" by (simp add: s2_def)
    then show ?thesis using sh sp(4) [of i] by simp
  qed
  have bits: "bit (non_empty_buckets s4) i \<longleftrightarrow> buckets s4 i \<noteq> []" for i
  proof (cases "i = index")
    case True
    then show ?thesis using sh \<open>index < 64\<close> by (simp add: s4_def)
  next
    case False
    then have "bit (non_empty_buckets s4) i \<longleftrightarrow> bit (non_empty_buckets s3) i"
      using \<open>index < 64\<close> by (simp add: s4_def)
    then show ?thesis
      unfolding b3 bk idx4 using False by (auto simp: filter_empty_conv dest: late)
  qed
  have "x \<notin> set (buckets s index)" if "x \<in> set D" for x
  proof -
    obtain i where "index < i" "x \<in> set (buckets s i)" using \<open>x \<in> set D\<close> unfolding D(3) by blast
    then show ?thesis using ts_invD(5) [OF inv, of x i] ts_invD(5) [OF inv, of x index] by auto
  qed
  then have "distinct (D @ filter (\<lambda>t. tmo t \<le> now) (buckets s index))"
    using D(2) ts_invD(8) [OF inv, of index] by auto
  moreover have "expired s4 = expired s @ D @ filter (\<lambda>t. tmo t \<le> now) (buckets s index)"
    and "last_ts s4 = now"
    and "next_ts s4 = min_timeout tmo (filter (\<lambda>t. now < tmo t) (buckets s index)) max_timestamp"
    using sh D(1) by (simp_all add: s4_def s2_def)
  moreover have "set (D @ filter (\<lambda>t. tmo t \<le> now) (buckets s index)) = {t \<in> active s. tmo t \<le> now}"
    unfolding due_timers [OF inv now, folded index_def] using D(3) by simp
  ultimately have "expire_shape tmo now s s4"
    unfolding expire_shape_def index_def [symmetric] using bk bits by blast
  moreover have "ts_expire tmo now s = Some (rescan_next tmo s4)"
    using now s3(1) by (simp add: ts_expire_def Let_def s4_def s2_def s1_def index_def)
  ultimately show ?thesis by blast
qed

text \<open>The active set after the two loops: what was not due, each timer in its new bucket.\<close>

lemma shape_buckets:
  assumes inv: "ts_inv tmo s" and now: "last_ts s \<le> now" "now \<le> max_timestamp"
    and sh: "expire_shape tmo now s s'"
  shows "active s' = {t \<in> active s. now < tmo t}"
    and "t \<in> set (buckets s' i) \<Longrightarrow> get_index s' (tmo t) = i \<and> tmo t \<le> max_timestamp"
    and "distinct (buckets s' i)"
proof -
  let ?x = "get_index s now"
  have last: "last_ts s' = now"
    and bk: "\<And>i. buckets s' i = (if i < ?x then buckets s i
      else filter (\<lambda>t. now < tmo t \<and> get_index s' (tmo t) = i) (buckets s ?x))"
    using sh by (auto simp: expire_shape_def)
  have idx: "get_index s' y = get_index (s\<lparr>last_ts := now\<rparr>) y" for y
    by (rule get_index_cong) (simp add: last)
  have low: "now < tmo t \<and> get_index s' (tmo t) = i" if "t \<in> set (buckets s i)" "i < ?x" for t i
    using index_below_now [of s now "tmo t"] that ts_invD(1,4,5) [OF inv] now by (metis idx)
  show "get_index s' (tmo t) = i \<and> tmo t \<le> max_timestamp" if "t \<in> set (buckets s' i)"
    using that low ts_invD(4) [OF inv] unfolding bk by (auto split: if_splits)
  show "distinct (buckets s' i)"
    using ts_invD(8) [OF inv] unfolding bk by simp
  show "active s' = {t \<in> active s. now < tmo t}"
  proof (intro set_eqI iffI)
    fix t assume "t \<in> active s'"
    then obtain i where "t \<in> set (buckets s' i)" by (auto simp: active_def)
    then show "t \<in> {t \<in> active s. now < tmo t}"
      using low unfolding bk by (auto simp: active_def split: if_splits)
  next
    fix t assume "t \<in> {t \<in> active s. now < tmo t}"
    then have t: "t \<in> set (buckets s (get_index s (tmo t)))" "now < tmo t"
      using active_bucket [OF inv] by auto
    consider "get_index s (tmo t) < ?x" | "get_index s (tmo t) = ?x" | "?x < get_index s (tmo t)"
      by linarith
    then show "t \<in> active s'"
    proof cases
      case 1
      then have "t \<in> set (buckets s' (get_index s (tmo t)))" using t by (simp add: bk)
      then show ?thesis by (auto simp: active_def)
    next
      case 2
      have "?x < get_index s' (tmo t)"
        using index_at_now [of s now "tmo t"] ts_invD(1,4) [OF inv] t 2 now by (simp add: idx)
      then have "t \<in> set (buckets s' (get_index s' (tmo t)))" using t 2 by (simp add: bk)
      then show ?thesis by (auto simp: active_def)
    next
      case 3
      then show ?thesis
        using index_above_now [of s "tmo t" now] ts_invD(1,4) [OF inv] t now by fastforce
    qed
  qed
qed

lemma rescan_next_simps [simp]:
  "buckets (rescan_next tmo s) = buckets s" "expired (rescan_next tmo s) = expired s"
  "last_ts (rescan_next tmo s) = last_ts s"
  "non_empty_buckets (rescan_next tmo s) = non_empty_buckets s"
  "active (rescan_next tmo s) = active s" "get_index (rescan_next tmo s) t = get_index s t"
  by (simp_all add: rescan_next_def active_def get_index_def)

definition is_next :: "('a \<Rightarrow> int) \<Rightarrow> 'a set \<Rightarrow> int \<Rightarrow> bool" where
  "is_next tmo A m \<longleftrightarrow> m \<le> max_timestamp \<and> (\<forall>t \<in> A. m \<le> tmo t) \<and> (m = max_timestamp \<or> m \<in> tmo ` A)"

lemma is_next_Min:
  assumes "is_next tmo A m" and "A \<noteq> {}" and "\<forall>t \<in> A. tmo t \<le> max_timestamp" and "finite A"
  shows "m = Min (tmo ` A)"
proof -
  have "m \<in> tmo ` A"
    using assms(1-3) unfolding is_next_def by (metis all_not_in_conv antisym image_eqI)
  then show ?thesis
    using assms(1,4) by (intro Min_eqI [symmetric]) (auto simp: is_next_def)
qed

lemma min_timeout_props:
  "min_timeout tmo l m \<le> m" "t \<in> set l \<Longrightarrow> min_timeout tmo l m \<le> tmo t"
  "min_timeout tmo l m = m \<or> min_timeout tmo l m \<in> tmo ` set l"
proof -
  have "finite (insert m (tmo ` set l))" "insert m (tmo ` set l) \<noteq> {}" by simp_all
  then show "min_timeout tmo l m = m \<or> min_timeout tmo l m \<in> tmo ` set l"
    unfolding min_timeout_eq using Min_in by blast
qed (auto simp: min_timeout_eq)

text \<open>The next timeout is exact after the rescan.\<close>

lemma rescan_bucket:
  assumes last: "0 \<le> last_ts s" and bits: "\<And>i. bit (non_empty_buckets s) i \<longleftrightarrow> buckets s i \<noteq> []"
    and idx: "\<And>t i. t \<in> set (buckets s i) \<Longrightarrow> get_index s (tmo t) = i \<and> tmo t \<le> max_timestamp"
    and ne: "non_empty_buckets s \<noteq> 0"
  shows "is_next tmo (active s)
    (min_timeout tmo (buckets s (get_last_non_empty_bucket s)) max_timestamp)"
proof -
  let ?j = "get_last_non_empty_bucket s"
  have j: "bit (non_empty_buckets s) ?j" and above: "\<And>i. ?j < i \<Longrightarrow> buckets s i = []"
    using get_last_set_highest [OF ne] bits by (auto simp: get_last_non_empty_bucket_def)
  then obtain x where x: "x \<in> set (buckets s ?j)" using bits by (metis list.set_intros(1) neq_Nil_conv)
  have "min_timeout tmo (buckets s ?j) max_timestamp \<le> tmo t" if t: "t \<in> set (buckets s i)" for t i
  proof (cases "i = ?j")
    case True
    then show ?thesis using t by (simp add: min_timeout_props(2))
  next
    case False
    then have "i < ?j" using above t by (metis empty_iff empty_set linorder_neqE_nat)
    then have "tmo x \<le> tmo t"
      using get_index_antimono [OF last, of "tmo t" "tmo x"] idx [OF t] idx [OF x] by linarith
    then show ?thesis using min_timeout_props(2) [OF x] order_trans by blast
  qed
  moreover have "set (buckets s ?j) \<subseteq> active s" by (auto simp: active_def)
  ultimately show ?thesis
    using min_timeout_props(1,3) [of tmo "buckets s ?j" max_timestamp]
    unfolding is_next_def active_def by blast
qed

lemma shape_next:
  assumes inv: "ts_inv tmo s" and now: "last_ts s \<le> now" "now \<le> max_timestamp"
    and sh: "expire_shape tmo now s s'"
  shows "is_next tmo (active s') (next_ts (rescan_next tmo s'))"
proof -
  note bk = shape_buckets [OF inv now sh]
  let ?K = "filter (\<lambda>t. now < tmo t) (buckets s (get_index s now))"
  have n: "next_ts s' = min_timeout tmo ?K max_timestamp"
    and bits: "\<And>i. bit (non_empty_buckets s') i \<longleftrightarrow> buckets s' i \<noteq> []"
    and last: "0 \<le> last_ts s'"
    using sh ts_invD(1) [OF inv] now by (auto simp: expire_shape_def)
  consider "next_ts s' = max_timestamp" "non_empty_buckets s' \<noteq> 0"
    | "next_ts s' = max_timestamp" "non_empty_buckets s' = 0" | "next_ts s' \<noteq> max_timestamp" by blast
  then show ?thesis
  proof cases
    case 1
    then show ?thesis
      using rescan_bucket [OF last bits bk(2) 1(2)] by (simp add: rescan_next_def min_timeout_def)
  next
    case 2
    then have "active s' = {}" using bits by (simp add: active_def)
    then show ?thesis using 2 by (simp add: rescan_next_def is_next_def)
  next
    case 3
    then obtain x where x: "x \<in> set ?K" "tmo x = next_ts s'"
      using n min_timeout_props(3) [of tmo ?K max_timestamp] by force
    have "x \<in> active s'" using x(1) unfolding bk(1) by (auto simp: active_def)
    moreover have "next_ts s' \<le> tmo t" if "t \<in> active s'" for t
    proof (cases "t \<in> set ?K")
      case True
      then show ?thesis unfolding n by (rule min_timeout_props(2))
    next
      case False
      have t: "t \<in> active s" "now < tmo t" using that by (auto simp: bk(1))
      then have tb: "t \<in> set (buckets s (get_index s (tmo t)))" using active_bucket [OF inv] by blast
      have tm: "tmo t \<le> max_timestamp" "tmo x \<le> max_timestamp"
        using ts_invD(4) [OF inv] tb x(1) by auto
      have "get_index s (tmo t) \<noteq> get_index s now" using False tb t(2) by auto
      moreover have "\<not> get_index s now < get_index s (tmo t)"
        using index_above_now [OF ts_invD(1) [OF inv] tm(1) now(2)] t(2) by auto
      moreover have "get_index s (tmo x) = get_index s now"
        using x(1) ts_invD(5) [OF inv] by auto
      ultimately have "tmo x \<le> tmo t"
        using get_index_antimono [OF ts_invD(1) [OF inv] tm] by linarith
      then show ?thesis using x(2) by simp
    qed
    moreover have "next_ts s' \<le> max_timestamp" unfolding n by (rule min_timeout_props(1))
    ultimately show ?thesis
      using 3 x(2) by (force simp: rescan_next_def is_next_def)
  qed
qed

lemma finite_active: "ts_inv tmo s \<Longrightarrow> finite (active s)"
proof -
  assume inv: "ts_inv tmo s"
  have "set (buckets s i) \<subseteq> (\<Union>i \<in> {..< 64}. set (buckets s i))" for i
    using bucket_beyond [OF inv, of i] by (cases "i < 64") auto
  then have "active s \<subseteq> (\<Union>i \<in> {..< 64}. set (buckets s i))" unfolding active_def by blast
  then show ?thesis by (rule finite_subset) simp
qed

text \<open>The contract of \<open>expire\<close>: it returns, and moves exactly the due timers.\<close>

lemma ts_expire_spec:
  assumes inv: "ts_inv tmo s" and now: "last_ts s \<le> now" "now \<le> max_timestamp"
  obtains s' where "ts_expire tmo now s = Some s'" and "ts_inv tmo s'" and "last_ts s' = now"
    and "active s' = {t \<in> active s. now < tmo t}"
    and "\<exists>D. expired s' = expired s @ D \<and> distinct D \<and> set D = {t \<in> active s. tmo t \<le> now}"
    and "is_next tmo (active s') (next_ts s')"
proof -
  obtain s1 where ex: "ts_expire tmo now s = Some (rescan_next tmo s1)" and sh: "expire_shape tmo now s s1"
    using expire_has_shape [OF inv now] by blast
  let ?s' = "rescan_next tmo s1"
  note bk = shape_buckets [OF inv now sh] and nx = shape_next [OF inv now sh]
  obtain D where D: "expired s1 = expired s @ D" "distinct D" "set D = {t \<in> active s. tmo t \<le> now}"
    using sh by (auto simp: expire_shape_def)
  have last: "last_ts s1 = now" and bits: "\<And>i. bit (non_empty_buckets s1) i \<longleftrightarrow> buckets s1 i \<noteq> []"
    using sh by (auto simp: expire_shape_def)
  have "set (expired s1) \<inter> active s1 = {}" "distinct (expired s1)"
    using D bk(1) ts_invD(9,10) [OF inv] by auto
  moreover have "next_ts ?s' \<le> tmo t" if "t \<in> set (buckets s1 i)" for t i
    using nx that by (auto simp: is_next_def active_def)
  ultimately have "ts_inv tmo ?s'"
    using bk(2,3) bits nx ts_invD(1) [OF inv] now unfolding ts_inv_def by (simp add: last is_next_def)
  with ex last bk(1) D nx that show ?thesis by simp
qed

section \<open>The remaining operations\<close>

lemma expired_upd_simps [simp]:
  "get_index (s\<lparr>expired := e\<rparr>) t = get_index s t" "active (s\<lparr>expired := e\<rparr>) = active s"
  by (simp_all add: get_index_def active_def)

lemma ts_pop_expired_simps:
  "active (snd (ts_pop_expired s)) = active s"
  "last_ts (snd (ts_pop_expired s)) = last_ts s" "next_ts (snd (ts_pop_expired s)) = next_ts s"
  "expired (snd (ts_pop_expired s)) = tl (expired s)"
  "fst (ts_pop_expired s) = (if expired s = [] then None else Some (hd (expired s)))"
  "non_empty_buckets (snd (ts_pop_expired s)) = non_empty_buckets s"
  by (simp_all add: ts_pop_expired_def active_def split: list.split)

lemma ts_inv_pop_expired: "ts_inv tmo s \<Longrightarrow> ts_inv tmo (snd (ts_pop_expired s))"
  by (auto simp: ts_inv_def ts_pop_expired_def split: list.split)

lemma ts_empty_iff:
  assumes "ts_inv tmo s"
  shows "ts_empty s \<longleftrightarrow> active s = {}"
proof
  assume "ts_empty s"
  then show "active s = {}"
    using ts_invD(7) [OF assms] by (simp add: ts_empty_def active_def)
next
  assume "active s = {}"
  then have "\<not> bit (non_empty_buckets s) i" for i
    using ts_invD(7) [OF assms] by (simp add: active_def)
  then show "ts_empty s" unfolding ts_empty_def by (intro bit_word_eqI) simp
qed

text \<open>The invariant depends on the timeouts of the timers in the set only.\<close>

lemma ts_inv_cong:
  assumes "\<And>t. t \<in> active s \<Longrightarrow> tmo t = tmo' t"
  shows "ts_inv tmo s \<longleftrightarrow> ts_inv tmo' s"
proof -
  have "tmo t = tmo' t" if "t \<in> set (buckets s i)" for t i
    using assms that by (auto simp: active_def)
  then show ?thesis by (auto simp: ts_inv_def)
qed

section \<open>The interface\<close>

text \<open>
  The loop of a client that pops expired timers and runs a callback on each; the callback
  works on the client's own state and may fail (an assertion).
\<close>

partial_function (option) dispatch_expired ::
  "('s \<Rightarrow> 'a option \<times> 's) \<Rightarrow> ('a \<Rightarrow> 'x \<Rightarrow> 'x option) \<Rightarrow> 's \<Rightarrow> 'x \<Rightarrow> ('s \<times> 'x) option" where
  "dispatch_expired pop f s x =
     (case pop s of
        (None, s') \<Rightarrow> Some (s', x)
      | (Some t, s') \<Rightarrow> (case f t x of None \<Rightarrow> None | Some y \<Rightarrow> dispatch_expired pop f s' y))"

text \<open>
  What a client of the timer queue relies on; \<open>timer_list\<close> in \<open>core/sched.cc\<close> is the
  client. \<open>lst\<close> is the time of the last expiry.
\<close>

locale timer_queue =
  fixes inv :: "('a \<Rightarrow> int) \<Rightarrow> 's \<Rightarrow> bool" and act :: "'s \<Rightarrow> 'a set" and expd :: "'s \<Rightarrow> 'a list"
    and lst :: "'s \<Rightarrow> int" and ins :: "('a \<Rightarrow> int) \<Rightarrow> 'a \<Rightarrow> 's \<Rightarrow> bool \<times> 's"
    and rem :: "('a \<Rightarrow> int) \<Rightarrow> 'a \<Rightarrow> 's \<Rightarrow> 's"
    and expire :: "('a \<Rightarrow> int) \<Rightarrow> int \<Rightarrow> 's \<Rightarrow> 's option" and pop :: "'s \<Rightarrow> 'a option \<times> 's"
    and nxt :: "'s \<Rightarrow> int"
  assumes ins: "inv tmo s \<Longrightarrow> t \<notin> act s \<Longrightarrow> t \<notin> set (expd s) \<Longrightarrow> tmo t \<le> max_timestamp \<Longrightarrow>
      inv tmo (snd (ins tmo t s)) \<and> act (snd (ins tmo t s)) = insert t (act s) \<and>
      expd (snd (ins tmo t s)) = expd s \<and> lst (snd (ins tmo t s)) = lst s \<and>
      (fst (ins tmo t s) \<longrightarrow> nxt (snd (ins tmo t s)) = max (lst s) (tmo t)) \<and>
      (\<not> fst (ins tmo t s) \<longrightarrow> nxt (snd (ins tmo t s)) = nxt s)"
    and rem: "inv tmo s \<Longrightarrow> t \<in> act s \<Longrightarrow>
      inv tmo (rem tmo t s) \<and> act (rem tmo t s) = act s - {t} \<and> expd (rem tmo t s) = expd s \<and>
      lst (rem tmo t s) = lst s \<and> nxt (rem tmo t s) = nxt s"
    and expire: "inv tmo s \<Longrightarrow> lst s \<le> now \<Longrightarrow> now \<le> max_timestamp \<Longrightarrow>
      \<exists>s' D. expire tmo now s = Some s' \<and> inv tmo s' \<and> lst s' = now \<and>
        act s' = {t \<in> act s. now < tmo t} \<and> expd s' = expd s @ D \<and> distinct D \<and>
        set D = {t \<in> act s. tmo t \<le> now} \<and> is_next tmo (act s') (nxt s')"
    and pop: "inv tmo s \<Longrightarrow> inv tmo (snd (pop s)) \<and> act (snd (pop s)) = act s \<and>
      lst (snd (pop s)) = lst s \<and> nxt (snd (pop s)) = nxt s \<and> expd (snd (pop s)) = tl (expd s) \<and>
      fst (pop s) = (if expd s = [] then None else Some (hd (expd s)))"
    and timely: "inv tmo s \<Longrightarrow> t \<in> act s \<Longrightarrow> nxt s \<le> max (lst s) (tmo t)"
begin

text \<open>Popping to the end runs the callback over the expired list and keeps the active timers.\<close>

lemma dispatch_all:
  assumes "inv tmo s"
  shows "\<exists>s'. inv tmo s' \<and> act s' = act s \<and> lst s' = lst s \<and> nxt s' = nxt s \<and> expd s' = [] \<and>
    dispatch_expired pop f s x = (case foldo f (expd s) x of None \<Rightarrow> None | Some y \<Rightarrow> Some (s', y))"
  using assms
proof (induction "expd s" arbitrary: s x)
  case Nil
  obtain r s1 where p: "pop s = (r, s1)" by fastforce
  with Nil pop [OF Nil(2)] have "r = None" "expd s1 = []" by auto
  then show ?case
    using pop [OF Nil(2)] p Nil(1) by (subst dispatch_expired.simps) (auto intro!: exI [of _ s1])
next
  case (Cons t ts)
  obtain r s1 where p: "pop s = (r, s1)" by fastforce
  with Cons(2) pop [OF Cons(3)] have r: "r = Some t" "expd s1 = ts" and i1: "inv tmo s1"
    and k: "act s1 = act s" "lst s1 = lst s" "nxt s1 = nxt s" by (auto simp flip: Cons(2))
  show ?case
  proof (cases "f t x")
    case None
    obtain s' where "inv tmo s' \<and> act s' = act s1 \<and> lst s' = lst s1 \<and> nxt s' = nxt s1 \<and> expd s' = []"
      using Cons(1) [OF r(2) [symmetric] i1] by blast
    then show ?thesis
      using None p r k by (subst dispatch_expired.simps) (auto simp flip: Cons(2))
  next
    case (Some y)
    show ?thesis
      using Cons(1) [OF r(2) [symmetric] i1, of y] Some p r k
      by (subst dispatch_expired.simps) (simp flip: Cons(2))
  qed
qed

text \<open>One round of expiry: the callback runs once for every due timer, and no other.\<close>

lemma expire_and_dispatch:
  assumes "inv tmo s" and "lst s \<le> now" and "now \<le> max_timestamp" and "expd s = []"
  shows "\<exists>s1 s' D. expire tmo now s = Some s1 \<and> distinct D \<and> set D = {t \<in> act s. tmo t \<le> now} \<and>
    dispatch_expired pop f s1 x = (case foldo f D x of None \<Rightarrow> None | Some y \<Rightarrow> Some (s', y)) \<and>
    inv tmo s' \<and> lst s' = now \<and> act s' = {t \<in> act s. now < tmo t} \<and> expd s' = [] \<and>
    is_next tmo (act s') (nxt s')"
proof -
  from expire [OF assms(1-3)] obtain s1 D where s1: "expire tmo now s = Some s1" "inv tmo s1"
    and D: "lst s1 = now \<and> act s1 = {t \<in> act s. now < tmo t} \<and> expd s1 = expd s @ D \<and> distinct D \<and>
      set D = {t \<in> act s. tmo t \<le> now} \<and> is_next tmo (act s1) (nxt s1)"
    by (elim exE conjE) simp
  from dispatch_all [OF s1(2), of f x] obtain s' where s': "inv tmo s' \<and> act s' = act s1 \<and>
      lst s' = lst s1 \<and> nxt s' = nxt s1 \<and> expd s' = [] \<and>
      dispatch_expired pop f s1 x = (case foldo f (expd s1) x of None \<Rightarrow> None | Some y \<Rightarrow> Some (s', y))"
    by (elim exE)
  show ?thesis
    using s1 D s' assms(4) 
    by (rule_tac x = s1 in exI, rule_tac x = s' in exI, rule_tac x = D in exI) simp
qed

end

lemma is_next_get_next_timeout:
  assumes "is_next tmo A (next_ts s)" and "\<forall>t \<in> A. last_ts s < tmo t" and "last_ts s \<le> max_timestamp"
  shows "ts_get_next_timeout s = next_ts s"
  using assms by (auto simp: is_next_def ts_get_next_timeout_def)

interpretation ts: timer_queue ts_inv active expired last_ts ts_insert ts_remove ts_expire
  ts_pop_expired ts_get_next_timeout
proof (unfold_locales, goal_cases)
  case (1 tmo s t)
  then show ?case
    using ts_inv_insert [OF 1] by (auto simp: active_insert ts_insert_simps ts_get_next_timeout_def)
next
  case (2 tmo s t)
  then show ?case
    by (auto simp: ts_inv_remove active_remove ts_remove_simps ts_get_next_timeout_def)
next
  case (3 tmo s now)
  show ?case
  proof (rule ts_expire_spec [OF 3])
    fix s' assume s': "ts_expire tmo now s = Some s'" "ts_inv tmo s'" "last_ts s' = now"
      "active s' = {t \<in> active s. now < tmo t}" "is_next tmo (active s') (next_ts s')"
      "\<exists>D. expired s' = expired s @ D \<and> distinct D \<and> set D = {t \<in> active s. tmo t \<le> now}"
    have "ts_get_next_timeout s' = next_ts s'"
      using is_next_get_next_timeout [OF s'(5)] s'(3,4) 3(3) by simp
    with s' show ?thesis by (rule_tac x = s' in exI) simp
  qed
next
  case (4 tmo s)
  then show ?case
    using ts_inv_pop_expired [OF 4] by (auto simp: ts_pop_expired_simps ts_get_next_timeout_def)
next
  case (5 tmo s t)
  then show ?case
    using ts_invD(6) [OF 5(1), of t "get_index s (tmo t)"] active_bucket [OF 5(1), of t]
    by (simp add: ts_get_next_timeout_def max.coboundedI2 max.mono)
qed

section \<open>Refinement of a set of timers\<close>

text \<open>
  The abstract timer queue: the active set, the expired set and the last expiry time. The
  operations carry the preconditions the header documents; which expired timer a pop
  returns is left open.
\<close>

datatype 'a ts_op = OpInsert 'a | OpRemove 'a | OpExpire int | OpPop

inductive ts_spec :: "('a \<Rightarrow> int) \<Rightarrow> 'a ts_op \<Rightarrow> 'a option \<Rightarrow>
  'a set \<times> 'a set \<times> int \<Rightarrow> 'a set \<times> 'a set \<times> int \<Rightarrow> bool" for tmo where
  spec_insert: "t \<notin> A \<Longrightarrow> t \<notin> E \<Longrightarrow> ts_spec tmo (OpInsert t) None (A, E, l) (insert t A, E, l)"
| spec_remove: "t \<in> A \<Longrightarrow> ts_spec tmo (OpRemove t) None (A, E, l) (A - {t}, E, l)"
| spec_expire: "l \<le> now \<Longrightarrow> ts_spec tmo (OpExpire now) None (A, E, l)
    ({t \<in> A. now < tmo t}, E \<union> {t \<in> A. tmo t \<le> now}, now)"
| spec_pop: "t \<in> E \<Longrightarrow> ts_spec tmo OpPop (Some t) (A, E, l) (A, E - {t}, l)"
| spec_pop_none: "ts_spec tmo OpPop None (A, {}, l) (A, {}, l)"

definition ts_abs :: "'a timer_set \<Rightarrow> 'a set \<times> 'a set \<times> int" where
  "ts_abs s = (active s, set (expired s), last_ts s)"

fun ts_exec :: "('a \<Rightarrow> int) \<Rightarrow> 'a ts_op \<Rightarrow> 'a timer_set \<Rightarrow> ('a option \<times> 'a timer_set) option" where
  "ts_exec tmo (OpInsert t) s = Some (None, snd (ts_insert tmo t s))"
| "ts_exec tmo (OpRemove t) s = Some (None, ts_remove tmo t s)"
| "ts_exec tmo (OpExpire now) s = map_option (Pair None) (ts_expire tmo now s)"
| "ts_exec tmo OpPop s = Some (ts_pop_expired s)"

fun ts_legal :: "('a \<Rightarrow> int) \<Rightarrow> 'a ts_op \<Rightarrow> 'a timer_set \<Rightarrow> bool" where
  "ts_legal tmo (OpInsert t) s \<longleftrightarrow> t \<notin> active s \<and> t \<notin> set (expired s) \<and> tmo t \<le> max_timestamp"
| "ts_legal tmo (OpRemove t) s \<longleftrightarrow> t \<in> active s"
| "ts_legal tmo (OpExpire now) s \<longleftrightarrow> last_ts s \<le> now \<and> now \<le> max_timestamp"
| "ts_legal tmo OpPop s \<longleftrightarrow> True"


definition ts_example :: "int timer_set" where
  "ts_example = snd (ts_insert id 9 (snd (ts_insert id 5 ts_init)))"

lemma ts_example_facts: "ts_inv id ts_example" "active ts_example = {5, 9}" "last_ts ts_example = 0"
proof -
  have "ts_inv id (snd (ts_insert id 5 ts_init) :: int timer_set)"
    by (intro ts_inv_insert ts_inv_init) (simp_all add: active_init max_timestamp_def)
  then show "ts_inv id ts_example" unfolding ts_example_def
    by (rule ts_inv_insert)
      (simp_all add: active_insert active_init ts_insert_simps max_timestamp_def)
qed (auto simp: ts_example_def active_insert active_init ts_insert_simps)





end
