(* ===== verification/Timers.thy ===== *)
theory Timers
  imports TimerSet
begin

text \<open>
  The timers of one CPU: \<open>timer_base\<close> and \<open>timer_list\<close> of \<open>core/sched.cc\<close> over the timer
  set. A timer \<open>'t\<close> belongs to a client \<open>'c\<close> (a thread, or the CPU for its preemption
  timer), given by the function \<open>client\<close> that stands for the reference \<open>_t\<close>. The code runs
  with interrupts disabled on the CPU that owns the list, so the operations are sequential.

  \<open>clock_event->set(t - now)\<close> programs the one-shot timer of the CPU to fire at \<open>t\<close>; the
  model records that time as \<open>alarm\<close>. \<open>fired_log\<close> records the calls of the client's
  \<open>timer_fired()\<close>, by timer. Readings of the clock are arguments.
\<close>

section \<open>State and operations\<close>

datatype tm_state = TFree | TArmed | TExpired

record ('t, 'c) timer_list =
  tm_state :: "'t \<Rightarrow> tm_state"
  tm_time :: "'t \<Rightarrow> int"
  client_timers :: "'c \<Rightarrow> 't list"
  need_reload :: "'c \<Rightarrow> bool"
  tl_last :: int
  tl_list :: "'t timer_set"
  alarm :: "int option"
  fired_log :: "'t list"

definition tl_init :: "('t, 'c) timer_list" where
  "tl_init = \<lparr>tm_state = (\<lambda>_. TFree), tm_time = (\<lambda>_. 0), client_timers = (\<lambda>_. []),
     need_reload = (\<lambda>_. False), tl_last = max_timestamp, tl_list = ts_init, alarm = None,
     fired_log = []\<rparr>"

definition tl_rearm :: "('t, 'c) timer_list \<Rightarrow> ('t, 'c) timer_list" where
  "tl_rearm s =
     (let t = ts_get_next_timeout (tl_list s) in
        if t < tl_last s then s\<lparr>tl_last := t, alarm := Some t\<rparr> else s)"

text \<open>The insertion into the CPU's list with the conditional \<open>rearm\<close>, shared by all setters.\<close>

definition tl_insert :: "'t \<Rightarrow> ('t, 'c) timer_list \<Rightarrow> ('t, 'c) timer_list" where
  "tl_insert t s =
     (case ts_insert (tm_time s) t (tl_list s) of (earlier, l) \<Rightarrow>
        if earlier then tl_rearm (s\<lparr>tl_list := l\<rparr>) else s\<lparr>tl_list := l\<rparr>)"

definition push_client :: "('t \<Rightarrow> 'c) \<Rightarrow> 't \<Rightarrow> ('t, 'c) timer_list \<Rightarrow> ('t, 'c) timer_list" where
  "push_client client t s =
     s\<lparr>client_timers := (client_timers s)(client t := client_timers s (client t) @ [t])\<rparr>"

definition erase_client :: "('t \<Rightarrow> 'c) \<Rightarrow> 't \<Rightarrow> ('t, 'c) timer_list \<Rightarrow> ('t, 'c) timer_list" where
  "erase_client client t s =
     s\<lparr>client_timers := (client_timers s)(client t := remove1 t (client_timers s (client t)))\<rparr>"

definition timer_base_set :: "('t \<Rightarrow> 'c) \<Rightarrow> 't \<Rightarrow> int \<Rightarrow> ('t, 'c) timer_list \<Rightarrow> ('t, 'c) timer_list" where
  "timer_base_set client t time s =
     tl_insert t (push_client client t
       (s\<lparr>tm_state := (tm_state s)(t := TArmed), tm_time := (tm_time s)(t := time)\<rparr>))"

definition timer_cancel :: "('t \<Rightarrow> 'c) \<Rightarrow> 't \<Rightarrow> ('t, 'c) timer_list \<Rightarrow> ('t, 'c) timer_list" where
  "timer_cancel client t s =
     (if tm_state s t = TFree then s
      else
        let s1 = (if tm_state s t = TArmed
                  then (erase_client client t s)\<lparr>tl_list := ts_remove (tm_time s) t (tl_list s)\<rparr>
                  else s) in
          s1\<lparr>tm_state := (tm_state s1)(t := TFree)\<rparr>)"

definition timer_reset :: "('t \<Rightarrow> 'c) \<Rightarrow> 't \<Rightarrow> int \<Rightarrow> ('t, 'c) timer_list \<Rightarrow> ('t, 'c) timer_list" where
  "timer_reset client t time s =
     (let s1 = (if tm_state s t = TArmed
                then s\<lparr>tl_list := ts_remove (tm_time s) t (tl_list s)\<rparr>
                else (push_client client t s)\<lparr>tm_state := (tm_state s)(t := TArmed)\<rparr>) in
        tl_insert t (s1\<lparr>tm_time := (tm_time s1)(t := time)\<rparr>))"

definition timer_expired :: "'t \<Rightarrow> ('t, 'c) timer_list \<Rightarrow> bool" where
  "timer_expired t s \<longleftrightarrow> tm_state s t = TExpired"

text \<open>\<open>timer_base::expire\<close>, after the assertion in \<open>timer_list::fired\<close> that the timer is armed.\<close>

definition timer_expire :: "('t \<Rightarrow> 'c) \<Rightarrow> 't \<Rightarrow> ('t, 'c) timer_list \<Rightarrow> ('t, 'c) timer_list option" where
  "timer_expire client t s =
     (if tm_state s t = TArmed then
        Some ((erase_client client t (s\<lparr>tm_state := (tm_state s)(t := TExpired)\<rparr>))
          \<lparr>fired_log := fired_log s @ [t]\<rparr>)
      else None)"

text \<open>\<open>None\<close> is a failed assertion or the abort of \<open>expire\<close>.\<close>

definition fired_round :: "('t \<Rightarrow> 'c) \<Rightarrow> int \<Rightarrow> ('t, 'c) timer_list \<Rightarrow> ('t, 'c) timer_list option" where
  "fired_round client now s =
     (let s0 = s\<lparr>tl_last := max_timestamp\<rparr> in
        case ts_expire (tm_time s0) now (tl_list s0) of
          None \<Rightarrow> None
        | Some l \<Rightarrow>
            (case dispatch_expired ts_pop_expired (timer_expire client) l s0 of
               None \<Rightarrow> None
             | Some (l', s1) \<Rightarrow> Some (s1\<lparr>tl_list := l'\<rparr>)))"

datatype fired_stop = Assertion | ClockExhausted

text \<open>
  \<open>timer_list::fired\<close>. The list holds the successive readings of the clock; when it runs out
  the loop is still going, which \<open>ClockExhausted\<close> reports.
\<close>

fun tl_fired :: "('t \<Rightarrow> 'c) \<Rightarrow> int list \<Rightarrow> ('t, 'c) timer_list \<Rightarrow> fired_stop + ('t, 'c) timer_list" where
  "tl_fired client [] s = Inl ClockExhausted"
| "tl_fired client (now # nows) s =
     (case fired_round client now s of
        None \<Rightarrow> Inl Assertion
      | Some s1 \<Rightarrow>
          if ts_empty (tl_list s1) then Inr s1
          else
            (case nows of
               [] \<Rightarrow> Inl ClockExhausted
             | now' # _ \<Rightarrow>
                 let t = ts_get_next_timeout (tl_list s1) in
                   if t \<le> now' then tl_fired client nows s1
                   else Inr (s1\<lparr>tl_last := t, alarm := Some t\<rparr>)))"

definition suspend_one :: "'t \<Rightarrow> ('t, 'c) timer_list \<Rightarrow> ('t, 'c) timer_list option" where
  "suspend_one t s =
     (if tm_state s t = TArmed then Some (s\<lparr>tl_list := ts_remove (tm_time s) t (tl_list s)\<rparr>) else None)"

definition tl_suspend :: "'t list \<Rightarrow> ('t, 'c) timer_list \<Rightarrow> ('t, 'c) timer_list option" where
  "tl_suspend ts s = foldo suspend_one ts s"

definition resume_one :: "'t \<Rightarrow> bool \<times> ('t, 'c) timer_list \<Rightarrow> (bool \<times> ('t, 'c) timer_list) option" where
  "resume_one t = (\<lambda>(do_rearm, s).
     if tm_state s t = TArmed then
       (case ts_insert (tm_time s) t (tl_list s) of (b, l) \<Rightarrow> Some (do_rearm \<or> b, s\<lparr>tl_list := l\<rparr>))
     else None)"

definition tl_resume :: "'t list \<Rightarrow> ('t, 'c) timer_list \<Rightarrow> ('t, 'c) timer_list option" where
  "tl_resume ts s =
     (case foldo resume_one ts (False, s) of
        None \<Rightarrow> None
      | Some (do_rearm, s1) \<Rightarrow> Some (if do_rearm then tl_rearm s1 else s1))"

definition suspend_timers :: "'c \<Rightarrow> ('t, 'c) timer_list \<Rightarrow> ('t, 'c) timer_list option" where
  "suspend_timers c s =
     (if need_reload s c then Some s
      else tl_suspend (client_timers s c) (s\<lparr>need_reload := (need_reload s)(c := True)\<rparr>))"

definition resume_timers :: "'c \<Rightarrow> ('t, 'c) timer_list \<Rightarrow> ('t, 'c) timer_list option" where
  "resume_timers c s =
     (if \<not> need_reload s c then Some s
      else tl_resume (client_timers s c) (s\<lparr>need_reload := (need_reload s)(c := False)\<rparr>))"

section \<open>The invariant\<close>

text \<open>
  \<open>clock_ok\<close> is what the list and the hardware alarm owe each other: the alarm is programmed
  no later than the next timeout. \<open>clients_ok\<close> ties the timers' states to the per-client
  lists, and \<open>tl_inv\<close> adds that exactly the armed timers of clients that are not suspended
  are in the CPU's list.
\<close>

definition clock_ok :: "('t, 'c) timer_list \<Rightarrow> bool" where
  "clock_ok s \<longleftrightarrow> ts_inv (tm_time s) (tl_list s) \<and> expired (tl_list s) = [] \<and>
     tl_last s \<le> ts_get_next_timeout (tl_list s) \<and>
     (tl_last s < max_timestamp \<longrightarrow> alarm s = Some (tl_last s))"

definition clients_ok :: "('t \<Rightarrow> 'c) \<Rightarrow> ('t, 'c) timer_list \<Rightarrow> bool" where
  "clients_ok client s \<longleftrightarrow>
     (\<forall>c. distinct (client_timers s c)) \<and>
     (\<forall>c t. t \<in> set (client_timers s c) \<longleftrightarrow> client t = c \<and> tm_state s t = TArmed) \<and>
     (\<forall>t. tm_state s t = TArmed \<longrightarrow> tm_time s t \<le> max_timestamp)"

definition tl_inv :: "('t \<Rightarrow> 'c) \<Rightarrow> ('t, 'c) timer_list \<Rightarrow> bool" where
  "tl_inv client s \<longleftrightarrow> clock_ok s \<and> clients_ok client s \<and>
     active (tl_list s) = {t. tm_state s t = TArmed \<and> \<not> need_reload s (client t)}"

definition same_clients :: "('t, 'c) timer_list \<Rightarrow> ('t, 'c) timer_list \<Rightarrow> bool" where
  "same_clients s s' \<longleftrightarrow> tm_state s' = tm_state s \<and> tm_time s' = tm_time s \<and>
     client_timers s' = client_timers s \<and> need_reload s' = need_reload s \<and> fired_log s' = fired_log s"

lemma clients_ok_cong: "same_clients s s' \<Longrightarrow> clients_ok client s' \<longleftrightarrow> clients_ok client s"
  by (simp add: same_clients_def clients_ok_def)

lemma same_clients_trans: "same_clients s s' \<Longrightarrow> same_clients s' s'' \<Longrightarrow> same_clients s s''"
  by (simp add: same_clients_def)

lemma get_next_timeout_le: "ts_inv tmo s \<Longrightarrow> ts_get_next_timeout s \<le> max_timestamp"
  using ts_invD(2,3) by (force simp: ts_get_next_timeout_def)

lemma tl_rearm_same [simp]: "same_clients s (tl_rearm s)" "tl_list (tl_rearm s) = tl_list s"
  by (simp_all add: tl_rearm_def same_clients_def Let_def)

text \<open>\<open>rearm\<close> restores the bound on the alarm, whatever the list became.\<close>

lemma tl_rearm_clock:
  assumes "ts_inv (tm_time s) (tl_list s)" and "expired (tl_list s) = []"
    and "tl_last s < max_timestamp \<longrightarrow> alarm s = Some (tl_last s)"
  shows "clock_ok (tl_rearm s)"
  using assms by (auto simp: tl_rearm_def clock_ok_def Let_def)

lemma tl_insert_ok:
  assumes ok: "clock_ok s" and new: "t \<notin> active (tl_list s)" and le: "tm_time s t \<le> max_timestamp"
  shows "clock_ok (tl_insert t s)" and "active (tl_list (tl_insert t s)) = insert t (active (tl_list s))"
    and "same_clients s (tl_insert t s)"
proof -
  obtain b l where bl: "ts_insert (tm_time s) t (tl_list s) = (b, l)" by fastforce
  have inv: "ts_inv (tm_time s) (tl_list s)" and ex: "t \<notin> set (expired (tl_list s))"
    using ok by (simp_all add: clock_ok_def)
  note i = ts.ins [OF inv new ex le, unfolded bl, simplified]
  have same: "same_clients s (s\<lparr>tl_list := l\<rparr>)" by (simp add: same_clients_def)
  show "same_clients s (tl_insert t s)"
    using same_clients_trans [OF same] same by (simp add: tl_insert_def bl)
  show "active (tl_list (tl_insert t s)) = insert t (active (tl_list s))"
    using i by (simp add: tl_insert_def bl)
  show "clock_ok (tl_insert t s)"
  proof (cases b)
    case True
    then show ?thesis
      using i ok tl_rearm_clock [of "s\<lparr>tl_list := l\<rparr>"] by (simp add: tl_insert_def bl clock_ok_def)
  next
    case False
    then show ?thesis using i ok by (simp add: tl_insert_def bl clock_ok_def)
  qed
qed

lemma tl_remove_ok:
  assumes ok: "clock_ok s" and mem: "t \<in> active (tl_list s)"
  defines "s' \<equiv> s\<lparr>tl_list := ts_remove (tm_time s) t (tl_list s)\<rparr>"
  shows "clock_ok s'" and "active (tl_list s') = active (tl_list s) - {t}" and "same_clients s s'"
proof -
  have inv: "ts_inv (tm_time s) (tl_list s)" using ok by (simp add: clock_ok_def)
  note r = ts.rem [OF inv mem]
  show "clock_ok s'" and "active (tl_list s') = active (tl_list s) - {t}" and "same_clients s s'"
    using r ok by (simp_all add: s'_def clock_ok_def same_clients_def)
qed

text \<open>A timer outside the list may be given any time.\<close>

lemma clock_ok_time:
  assumes "clock_ok s" and "t \<notin> active (tl_list s)"
  shows "clock_ok (s\<lparr>tm_time := (tm_time s)(t := time)\<rparr>)"
proof -
  have "ts_inv ((tm_time s)(t := time)) (tl_list s) \<longleftrightarrow> ts_inv (tm_time s) (tl_list s)"
    using assms(2) by (intro ts_inv_cong) auto
  then show ?thesis using assms(1) by (simp add: clock_ok_def)
qed

lemma clock_ok_cong:
  assumes "tm_time s' = tm_time s" and "tl_list s' = tl_list s" and "tl_last s' = tl_last s"
    and "alarm s' = alarm s"
  shows "clock_ok s' \<longleftrightarrow> clock_ok s"
  by (simp add: clock_ok_def assms)

lemma tl_invD:
  assumes "tl_inv client s"
  shows "clock_ok s" and "clients_ok client s"
    and "t \<in> active (tl_list s) \<longleftrightarrow> tm_state s t = TArmed \<and> \<not> need_reload s (client t)"
  using assms by (auto simp: tl_inv_def)

lemma tl_inv_init: "tl_inv client tl_init"
  by (simp add: tl_inv_def tl_init_def clock_ok_def clients_ok_def ts_inv_init active_init
      ts_get_next_timeout_def)

lemma tl_inv_set:
  assumes inv: "tl_inv client s" and "tm_state s t \<noteq> TArmed" and "\<not> need_reload s (client t)"
    and "time \<le> max_timestamp"
  shows "tl_inv client (timer_base_set client t time s)"
proof -
  let ?s1 = "push_client client t (s\<lparr>tm_state := (tm_state s)(t := TArmed), tm_time := (tm_time s)(t := time)\<rparr>)"
  have l1: "tl_list ?s1 = tl_list s" by (simp add: push_client_def)
  have new: "t \<notin> active (tl_list s)" using tl_invD(3) [OF inv] assms(2) by simp
  have "clock_ok ?s1"
    using clock_ok_time [OF tl_invD(1) [OF inv] new, of time]
    by (rule clock_ok_cong [THEN iffD2, rotated -1]) (simp_all add: push_client_def)
  note i = tl_insert_ok [OF this, unfolded l1, OF new]
  have le: "tm_time ?s1 t \<le> max_timestamp" using assms(4) by (simp add: push_client_def)
  have "clients_ok client ?s1"
    using tl_invD(2) [OF inv] assms(2,4) by (auto simp: clients_ok_def push_client_def)
  then show ?thesis
    unfolding tl_inv_def timer_base_set_def
    using i(1,2) [OF le] i(3) [OF le] clients_ok_cong [OF i(3) [OF le]] tl_invD(3) [OF inv] assms(3)
    by (auto simp: same_clients_def push_client_def)
qed

lemma tl_inv_cancel:
  assumes inv: "tl_inv client s" and home: "\<not> need_reload s (client t)"
  shows "tl_inv client (timer_cancel client t s)"
proof (cases "tm_state s t = TArmed")
  case True
  have mem: "t \<in> active (tl_list s)" using tl_invD(3) [OF inv] True home by simp
  note r = tl_remove_ok [OF tl_invD(1) [OF inv] mem]
  let ?s' = "timer_cancel client t s"
  have eq: "?s' = (erase_client client t s)\<lparr>tl_list := ts_remove (tm_time s) t (tl_list s),
      tm_state := (tm_state s)(t := TFree)\<rparr>"
    using True by (simp add: timer_cancel_def erase_client_def)
  have "clock_ok ?s'"
    unfolding eq using r(1) by (rule clock_ok_cong [THEN iffD2, rotated -1]) (simp_all add: erase_client_def)
  moreover have "clients_ok client ?s'"
    using tl_invD(2) [OF inv] unfolding eq by (auto simp: clients_ok_def erase_client_def)
  ultimately show ?thesis
    using r(2) tl_invD(3) [OF inv] unfolding tl_inv_def by (auto simp: eq erase_client_def)
next
  case False
  then have eq: "timer_cancel client t s = s \<or>
      timer_cancel client t s = s\<lparr>tm_state := (tm_state s)(t := TFree)\<rparr>"
    by (simp add: timer_cancel_def)
  have "tl_inv client (s\<lparr>tm_state := (tm_state s)(t := TFree)\<rparr>)"
    using inv False by (auto simp: tl_inv_def clients_ok_def clock_ok_def)
  with eq inv show ?thesis by auto
qed

lemma tl_inv_reset:
  assumes inv: "tl_inv client s" and home: "\<not> need_reload s (client t)" and le: "time \<le> max_timestamp"
  shows "tl_inv client (timer_reset client t time s)"
proof (cases "tm_state s t = TArmed")
  case False
  then have "timer_reset client t time s = timer_base_set client t time s"
    by (cases s) (simp add: timer_reset_def timer_base_set_def push_client_def)
  then show ?thesis using tl_inv_set [OF inv False home le] by simp
next
  case True
  have mem: "t \<in> active (tl_list s)" using tl_invD(3) [OF inv] True home by simp
  let ?s1 = "s\<lparr>tl_list := ts_remove (tm_time s) t (tl_list s)\<rparr>"
  note r = tl_remove_ok [OF tl_invD(1) [OF inv] mem]
  have new: "t \<notin> active (tl_list ?s1)" using r(2) by simp
  let ?s2 = "?s1\<lparr>tm_time := (tm_time ?s1)(t := time)\<rparr>"
  have "tm_time ?s2 t \<le> max_timestamp" using le by simp
  note i = tl_insert_ok [OF clock_ok_time [OF r(1) new, of time] _ this]
  have new2: "t \<notin> active (tl_list ?s2)" using new by simp
  have "clients_ok client ?s2"
    using tl_invD(2) [OF inv] le by (auto simp: clients_ok_def)
  moreover have "timer_reset client t time s = tl_insert t ?s2"
    using True by (simp add: timer_reset_def)
  ultimately show ?thesis
    unfolding tl_inv_def
    using i(1,2) [OF new2] i(3) [OF new2] clients_ok_cong [OF i(3) [OF new2]] r(2) tl_invD(3) [OF inv] home True
    by (auto simp: same_clients_def)
qed

section \<open>Suspending and resuming a client's timers\<close>

lemma suspend_loop:
  assumes "clock_ok s" and "distinct ts" and "set ts \<subseteq> active (tl_list s)"
    and "\<forall>t \<in> set ts. tm_state s t = TArmed"
  shows "\<exists>s'. foldo suspend_one ts s = Some s' \<and> clock_ok s' \<and> same_clients s s' \<and>
    active (tl_list s') = active (tl_list s) - set ts"
  using assms
proof (induction ts arbitrary: s)
  case Nil
  then show ?case by (simp add: same_clients_def)
next
  case (Cons t ts)
  let ?s1 = "s\<lparr>tl_list := ts_remove (tm_time s) t (tl_list s)\<rparr>"
  have "t \<in> active (tl_list s)" using Cons.prems(3) by simp
  note r = tl_remove_ok [OF Cons.prems(1) this]
  have step: "foldo suspend_one (t # ts) s = foldo suspend_one ts ?s1"
    using Cons.prems(4) by (simp add: suspend_one_def)
  have "set ts \<subseteq> active (tl_list ?s1)" "\<forall>t \<in> set ts. tm_state ?s1 t = TArmed" "distinct ts"
    using Cons.prems(2-4) unfolding r(2) by auto
  then obtain s' where s': "foldo suspend_one ts ?s1 = Some s'" "clock_ok s'"
    "same_clients ?s1 s'" "active (tl_list s') = active (tl_list ?s1) - set ts"
    using Cons.IH [OF r(1)] by metis
  show ?case
    unfolding step using s'(1,2) same_clients_trans [OF r(3) s'(3)] s'(4) r(2) by auto
qed

text \<open>While timers are put back one by one the bound on the alarm may wait for the final \<open>rearm\<close>.\<close>

definition clock_ok_unless :: "bool \<Rightarrow> ('t, 'c) timer_list \<Rightarrow> bool" where
  "clock_ok_unless d s \<longleftrightarrow> ts_inv (tm_time s) (tl_list s) \<and> expired (tl_list s) = [] \<and>
     (d \<or> tl_last s \<le> ts_get_next_timeout (tl_list s)) \<and>
     (tl_last s < max_timestamp \<longrightarrow> alarm s = Some (tl_last s))"

lemma clock_ok_unless_False: "clock_ok_unless False s \<longleftrightarrow> clock_ok s"
  by (simp add: clock_ok_unless_def clock_ok_def)

lemma clock_ok_unless_rearm: "clock_ok_unless d s \<Longrightarrow> clock_ok (tl_rearm s)"
  by (rule tl_rearm_clock) (simp_all add: clock_ok_unless_def)

lemma resume_loop:
  assumes "clock_ok_unless d s" and "distinct ts" and "set ts \<inter> active (tl_list s) = {}"
    and "\<forall>t \<in> set ts. tm_state s t = TArmed \<and> tm_time s t \<le> max_timestamp"
  shows "\<exists>d' s'. foldo resume_one ts (d, s) = Some (d', s') \<and> same_clients s s' \<and>
    clock_ok_unless d' s' \<and> active (tl_list s') = active (tl_list s) \<union> set ts"
  using assms
proof (induction ts arbitrary: d s)
  case Nil
  then show ?case by (simp add: same_clients_def)
next
  case (Cons t ts)
  obtain b l where bl: "ts_insert (tm_time s) t (tl_list s) = (b, l)" by fastforce
  have inv: "ts_inv (tm_time s) (tl_list s)" using Cons.prems(1) by (simp add: clock_ok_unless_def)
  have "t \<notin> active (tl_list s)" "t \<notin> set (expired (tl_list s))" "tm_time s t \<le> max_timestamp"
    using Cons.prems by (auto simp: clock_ok_unless_def)
  note i = ts.ins [OF inv this, unfolded bl, simplified]
  let ?s1 = "s\<lparr>tl_list := l\<rparr>"
  have step: "foldo resume_one (t # ts) (d, s) = foldo resume_one ts (d \<or> b, ?s1)"
    using Cons.prems(4) by (simp add: resume_one_def bl)
  have same: "same_clients s ?s1" by (simp add: same_clients_def)
  have "clock_ok_unless (d \<or> b) ?s1" "set ts \<inter> active (tl_list ?s1) = {}"
    "\<forall>t \<in> set ts. tm_state ?s1 t = TArmed \<and> tm_time ?s1 t \<le> max_timestamp"
    using i Cons.prems by (auto simp: clock_ok_unless_def)
  then obtain d' s' where "foldo resume_one ts (d \<or> b, ?s1) = Some (d', s')" "same_clients ?s1 s'"
    "clock_ok_unless d' s'" "active (tl_list s') = active (tl_list ?s1) \<union> set ts"
    using Cons.IH [of "d \<or> b" ?s1] Cons.prems(2) by (metis distinct.simps(2))
  then show ?case
    unfolding step using same_clients_trans [OF same] i by auto
qed

lemma tl_inv_suspend:
  assumes inv: "tl_inv client s"
  shows "\<exists>s'. suspend_timers c s = Some s' \<and> tl_inv client s' \<and> need_reload s' c \<and>
    active (tl_list s') = {t \<in> active (tl_list s). client t \<noteq> c}"
proof (cases "need_reload s c")
  case True
  then show ?thesis using inv tl_invD(3) [OF inv] by (auto simp: suspend_timers_def)
next
  case False
  let ?s0 = "s\<lparr>need_reload := (need_reload s)(c := True)\<rparr>"
  have ct: "t \<in> set (client_timers s c) \<longleftrightarrow> client t = c \<and> tm_state s t = TArmed" for t
    using tl_invD(2) [OF inv] by (simp add: clients_ok_def)
  have "clock_ok ?s0" using tl_invD(1) [OF inv] by (simp add: clock_ok_def)
  moreover have "distinct (client_timers s c)" using tl_invD(2) [OF inv] by (simp add: clients_ok_def)
  moreover have "set (client_timers s c) \<subseteq> active (tl_list ?s0)"
    "\<forall>t \<in> set (client_timers s c). tm_state ?s0 t = TArmed"
    using tl_invD(3) [OF inv] False ct by auto
  ultimately obtain s' where s': "foldo suspend_one (client_timers s c) ?s0 = Some s'" "clock_ok s'"
    "same_clients ?s0 s'" "active (tl_list s') = active (tl_list ?s0) - set (client_timers s c)"
    using suspend_loop by blast
  have act: "active (tl_list s') = {t \<in> active (tl_list s). client t \<noteq> c}"
    using s'(4) ct tl_invD(3) [OF inv] by auto
  have "clients_ok client s'"
    using clients_ok_cong [OF s'(3), of client] tl_invD(2) [OF inv] by (simp add: clients_ok_def)
  then have "tl_inv client s'"
    using s'(2,3) act tl_invD(3) [OF inv] by (auto simp: tl_inv_def same_clients_def)
  with s'(1,3) act False show ?thesis
    by (auto simp: suspend_timers_def tl_suspend_def same_clients_def)
qed

lemma tl_inv_resume:
  assumes inv: "tl_inv client s"
  shows "\<exists>s'. resume_timers c s = Some s' \<and> tl_inv client s' \<and> \<not> need_reload s' c \<and>
    active (tl_list s') = active (tl_list s) \<union> {t. client t = c \<and> tm_state s t = TArmed}"
proof (cases "need_reload s c")
  case False
  then show ?thesis using inv tl_invD(3) [OF inv] by (auto simp: resume_timers_def)
next
  case True
  let ?s0 = "s\<lparr>need_reload := (need_reload s)(c := False)\<rparr>"
  have ct: "set (client_timers s c) = {t. client t = c \<and> tm_state s t = TArmed}"
    using tl_invD(2) [OF inv] by (auto simp: clients_ok_def)
  have "clock_ok_unless False ?s0"
    using tl_invD(1) [OF inv] by (simp add: clock_ok_unless_def clock_ok_def)
  moreover have "distinct (client_timers s c)" using tl_invD(2) [OF inv] by (simp add: clients_ok_def)
  moreover have "set (client_timers s c) \<inter> active (tl_list ?s0) = {}"
    using tl_invD(3) [OF inv] True ct by auto
  moreover have "\<forall>t \<in> set (client_timers s c). tm_state ?s0 t = TArmed \<and> tm_time ?s0 t \<le> max_timestamp"
    using tl_invD(2) [OF inv] ct by (auto simp: clients_ok_def)
  ultimately obtain d s1 where s1: "foldo resume_one (client_timers s c) (False, ?s0) = Some (d, s1)"
    "same_clients ?s0 s1" "clock_ok_unless d s1"
    "active (tl_list s1) = active (tl_list ?s0) \<union> set (client_timers s c)"
    using resume_loop by blast
  define s' where "s' = (if d then tl_rearm s1 else s1)"
  have "clock_ok s'" using s1(3) clock_ok_unless_rearm [OF s1(3)] clock_ok_unless_False [of s1]
    by (auto simp: s'_def)
  have same: "same_clients ?s0 s'" "tl_list s' = tl_list s1"
    using s1(2) same_clients_trans [OF s1(2)] by (simp_all add: s'_def)
  have "clients_ok client s'"
    using clients_ok_cong [OF same(1), of client] tl_invD(2) [OF inv] by (simp add: clients_ok_def)
  with \<open>clock_ok s'\<close> have "tl_inv client s'"
    using same s1(4) ct tl_invD(3) [OF inv] by (auto simp: tl_inv_def same_clients_def)
  with s1(1,4) same ct True show ?thesis
    by (auto simp: resume_timers_def tl_resume_def same_clients_def s'_def)
qed

section \<open>The interrupt handler\<close>

text \<open>The invariant without the bound on the alarm, which does not hold inside the handler.\<close>

definition tl_pre :: "('t \<Rightarrow> 'c) \<Rightarrow> ('t, 'c) timer_list \<Rightarrow> bool" where
  "tl_pre client s \<longleftrightarrow> ts_inv (tm_time s) (tl_list s) \<and> expired (tl_list s) = [] \<and> clients_ok client s \<and>
     active (tl_list s) = {t. tm_state s t = TArmed \<and> \<not> need_reload s (client t)}"

lemma tl_inv_pre: "tl_inv client s \<Longrightarrow> tl_pre client s"
  by (simp add: tl_inv_def tl_pre_def clock_ok_def)

text \<open>The callbacks of one round, for the timers \<open>D\<close> that expired.\<close>

definition expire_timers :: "'t list \<Rightarrow> ('t, 'c) timer_list \<Rightarrow> ('t, 'c) timer_list" where
  "expire_timers D s =
     s\<lparr>tm_state := (\<lambda>t. if t \<in> set D then TExpired else tm_state s t),
       client_timers := (\<lambda>c. filter (\<lambda>t. t \<notin> set D) (client_timers s c)),
       fired_log := fired_log s @ D\<rparr>"

lemma clients_ok_expire:
  "clients_ok client s \<Longrightarrow> clients_ok client (expire_timers D s)"
  by (auto simp: clients_ok_def expire_timers_def)

lemma timer_expire_eq:
  assumes "clients_ok client s" and "tm_state s t = TArmed"
  shows "timer_expire client t s = Some (expire_timers [t] s)"
proof -
  have "remove1 t (client_timers s (client t)) = filter (\<lambda>x. x \<noteq> t) (client_timers s (client t))"
    using assms(1) by (simp add: clients_ok_def remove1_eq_filter)
  moreover have "client_timers s c = filter (\<lambda>x. x \<noteq> t) (client_timers s c)" if "c \<noteq> client t" for c
    using assms(1) that unfolding clients_ok_def by (metis (mono_tags, lifting) filter_True)
  ultimately have "(client_timers s)(client t := remove1 t (client_timers s (client t))) =
      (\<lambda>c. filter (\<lambda>x. x \<noteq> t) (client_timers s c))"
    by (auto simp: fun_eq_iff)
  moreover have "(tm_state s)(t := TExpired) = (\<lambda>x. if x = t then TExpired else tm_state s x)"
    by (simp add: fun_eq_iff)
  ultimately show ?thesis
    using assms(2) by (simp add: timer_expire_def erase_client_def expire_timers_def)
qed

lemma expire_timers_Cons: "expire_timers D (expire_timers [t] s) = expire_timers (t # D) s"
  by (cases s) (auto simp: expire_timers_def fun_eq_iff conj_commute)

lemma expire_callbacks:
  assumes "clients_ok client s" and "distinct D" and "\<forall>t \<in> set D. tm_state s t = TArmed"
  shows "foldo (timer_expire client) D s = Some (expire_timers D s)"
  using assms
proof (induction D arbitrary: s)
  case Nil
  then show ?case by (cases s) (simp add: expire_timers_def)
next
  case (Cons t D)
  let ?s1 = "expire_timers [t] s"
  have "timer_expire client t s = Some ?s1" using Cons.prems by (simp add: timer_expire_eq)
  moreover have "foldo (timer_expire client) D ?s1 = Some (expire_timers D ?s1)"
    using Cons.prems by (intro Cons.IH clients_ok_expire) (auto simp: expire_timers_def)
  ultimately show ?case by (simp add: expire_timers_Cons)
qed

text \<open>One round of the handler.\<close>

lemma fired_round_spec:
  assumes pre: "tl_pre client s" and now: "last_ts (tl_list s) \<le> now" "now \<le> max_timestamp"
  shows "\<exists>s' D. fired_round client now s = Some s' \<and> tl_pre client s' \<and> last_ts (tl_list s') = now \<and>
    distinct D \<and> set D = {t \<in> active (tl_list s). tm_time s t \<le> now} \<and>
    fired_log s' = fired_log s @ D \<and> tm_time s' = tm_time s \<and> tl_last s' = max_timestamp \<and>
    active (tl_list s') = {t \<in> active (tl_list s). now < tm_time s t} \<and>
    is_next (tm_time s) (active (tl_list s')) (ts_get_next_timeout (tl_list s'))"
proof -
  let ?s0 = "s\<lparr>tl_last := max_timestamp\<rparr>"
  have inv: "ts_inv (tm_time ?s0) (tl_list ?s0)" "expired (tl_list ?s0) = []"
    and cl: "clients_ok client ?s0"
    and act: "active (tl_list s) = {t. tm_state s t = TArmed \<and> \<not> need_reload s (client t)}"
    using pre by (simp_all add: tl_pre_def clients_ok_def)
  have now0: "last_ts (tl_list ?s0) \<le> now" using now by simp
  obtain l l' D where
    ex: "ts_expire (tm_time ?s0) now (tl_list ?s0) = Some l" and D: "distinct D"
      "set D = {t \<in> active (tl_list ?s0). tm_time ?s0 t \<le> now}" and
    di: "dispatch_expired ts_pop_expired (timer_expire client) l ?s0 =
      (case foldo (timer_expire client) D ?s0 of None \<Rightarrow> None | Some y \<Rightarrow> Some (l', y))" and
    l': "ts_inv (tm_time ?s0) l'" "last_ts l' = now"
      "active l' = {t \<in> active (tl_list ?s0). now < tm_time ?s0 t}" "expired l' = []"
      "is_next (tm_time ?s0) (active l') (ts_get_next_timeout l')"
    using ts.expire_and_dispatch [OF inv(1) now0 now(2) inv(2), of "timer_expire client" ?s0]
    by (elim exE conjE) (rule that)
  have "\<forall>t \<in> set D. tm_state ?s0 t = TArmed" using D(2) act by simp
  then have cb: "foldo (timer_expire client) D ?s0 = Some (expire_timers D ?s0)"
    by (rule expire_callbacks [OF cl D(1)])
  let ?s' = "(expire_timers D ?s0)\<lparr>tl_list := l'\<rparr>"
  have "fired_round client now s = Some ?s'"
    using ex di cb by (simp add: fired_round_def Let_def)
  moreover have "tl_pre client ?s'"
  proof -
    have "clients_ok client ?s'"
      using clients_ok_expire [OF cl, of D] by (simp add: clients_ok_def)
    moreover have "active l' = {t. tm_state ?s' t = TArmed \<and> \<not> need_reload ?s' (client t)}"
      using l'(3) D(2) act by (auto simp: expire_timers_def not_le)
    ultimately show ?thesis using l'(1,4) by (simp add: tl_pre_def expire_timers_def)
  qed
  ultimately show ?thesis
    using D l' by (rule_tac x = ?s' in exI, rule_tac x = D in exI) (simp add: expire_timers_def)
qed

lemma tl_preD:
  assumes "tl_pre client s"
  shows "ts_inv (tm_time s) (tl_list s)" and "finite (active (tl_list s))"
    and "ts_empty (tl_list s) \<longleftrightarrow> active (tl_list s) = {}"
    and "t \<in> active (tl_list s) \<Longrightarrow> tm_time s t \<le> max_timestamp"
proof -
  show inv: "ts_inv (tm_time s) (tl_list s)" using assms by (simp add: tl_pre_def)
  show "finite (active (tl_list s))" using finite_active [OF inv] .
  show "ts_empty (tl_list s) \<longleftrightarrow> active (tl_list s) = {}" using ts_empty_iff [OF inv] .
  show "t \<in> active (tl_list s) \<Longrightarrow> tm_time s t \<le> max_timestamp" using active_le_max [OF inv] .
qed

text \<open>The three ways a round ends: no timer left, the next one not yet due, or repeat.\<close>

lemma round_done:
  assumes "tl_pre client s" and "tl_last s = max_timestamp" and "active (tl_list s) = {}"
    and "is_next tmo (active (tl_list s)) (ts_get_next_timeout (tl_list s))"
  shows "tl_inv client s"
  using assms by (simp add: tl_inv_def tl_pre_def clock_ok_def is_next_def)

lemma round_rearmed:
  assumes "tl_pre client s"
  shows "tl_inv client (s\<lparr>tl_last := ts_get_next_timeout (tl_list s),
    alarm := Some (ts_get_next_timeout (tl_list s))\<rparr>)"
  using assms by (simp add: tl_inv_def tl_pre_def clock_ok_def clients_ok_def)

lemma round_progress:
  assumes pre: "tl_pre client s" and "active (tl_list s) \<noteq> {}" and "now \<le> max_timestamp"
    and nx: "is_next (tm_time s) (active (tl_list s)) (ts_get_next_timeout (tl_list s))"
    and "ts_get_next_timeout (tl_list s) \<le> now"
  shows "card {t \<in> active (tl_list s). now < tm_time s t} < card (active (tl_list s))"
proof -
  have "\<exists>t \<in> active (tl_list s). tm_time s t \<le> now"
  proof (cases "ts_get_next_timeout (tl_list s) = max_timestamp")
    case True
    then have "now = max_timestamp" using assms(3,5) by simp
    then show ?thesis using assms(2) tl_preD(4) [OF pre] by auto
  next
    case False
    then show ?thesis using nx assms(5) by (auto simp: is_next_def)
  qed
  then have "{t \<in> active (tl_list s). now < tm_time s t} \<subset> active (tl_list s)" by force
  then show ?thesis using tl_preD(2) [OF pre] by (rule psubset_card_mono [rotated])
qed

text \<open>
  The handler as a whole. Every repetition after the first round expires at least one timer,
  so as many further readings of the clock as there are timers not yet due suffice.
\<close>

lemma tl_fired_spec:
  assumes "tl_pre client s" and "last_ts (tl_list s) \<le> now" and "sorted (now # nows)"
    and "\<forall>n \<in> set (now # nows). n \<le> max_timestamp"
    and "card {t \<in> active (tl_list s). now < tm_time s t} \<le> length nows"
  shows "\<exists>s' m L. tl_fired client (now # nows) s = Inr s' \<and> tl_inv client s' \<and>
    m \<in> set (now # nows) \<and> last_ts (tl_list s') = m \<and> tm_time s' = tm_time s \<and> distinct L \<and>
    set L = {t \<in> active (tl_list s). tm_time s t \<le> m} \<and> fired_log s' = fired_log s @ L \<and>
    active (tl_list s') = {t \<in> active (tl_list s). m < tm_time s t}"
  using assms
proof (induction nows arbitrary: now s)
  case Nil
  have "now \<le> max_timestamp" using Nil(4) by simp
  from fired_round_spec [OF Nil(1,2) this] obtain s1 D where
    s1: "fired_round client now s = Some s1" "tl_pre client s1" "last_ts (tl_list s1) = now" and
    D: "distinct D" "set D = {t \<in> active (tl_list s). tm_time s t \<le> now}"
      "fired_log s1 = fired_log s @ D" "tm_time s1 = tm_time s" "tl_last s1 = max_timestamp"
      "active (tl_list s1) = {t \<in> active (tl_list s). now < tm_time s t}"
      "is_next (tm_time s) (active (tl_list s1)) (ts_get_next_timeout (tl_list s1))"
    by (elim exE conjE) (rule that)
  have none: "active (tl_list s1) = {}" using Nil(5) tl_preD(2) [OF Nil(1)] unfolding D(6) by simp
  then have "tl_inv client s1" "ts_empty (tl_list s1)"
    using round_done [OF s1(2) D(5) none D(7)] tl_preD(3) [OF s1(2)] by simp_all
  then show ?case
    using s1 D by (rule_tac x = s1 in exI, rule_tac x = now in exI, rule_tac x = D in exI) simp
next
  case (Cons now' rest)
  have "now \<le> max_timestamp" using Cons.prems(4) by simp
  from fired_round_spec [OF Cons.prems(1,2) this] obtain s1 D where
    s1: "fired_round client now s = Some s1" "tl_pre client s1" "last_ts (tl_list s1) = now" and
    D: "distinct D" "set D = {t \<in> active (tl_list s). tm_time s t \<le> now}"
      "fired_log s1 = fired_log s @ D" "tm_time s1 = tm_time s" "tl_last s1 = max_timestamp"
      "active (tl_list s1) = {t \<in> active (tl_list s). now < tm_time s t}"
      "is_next (tm_time s) (active (tl_list s1)) (ts_get_next_timeout (tl_list s1))"
    by (elim exE conjE) (rule that)
  note emp = tl_preD(3) [OF s1(2)]
  let ?t = "ts_get_next_timeout (tl_list s1)"
  consider "active (tl_list s1) = {}" | "active (tl_list s1) \<noteq> {}" "now' < ?t"
    | "active (tl_list s1) \<noteq> {}" "?t \<le> now'" by linarith
  then show ?case
  proof cases
    case 1
    then show ?thesis
      using s1 D emp round_done [OF s1(2) D(5) 1 D(7)]
      by (rule_tac x = s1 in exI, rule_tac x = now in exI, rule_tac x = D in exI) simp
  next
    case 2
    let ?s2 = "s1\<lparr>tl_last := ?t, alarm := Some ?t\<rparr>"
    have "tl_fired client (now # now' # rest) s = Inr ?s2"
      using s1(1) 2 emp by (simp add: Let_def)
    then show ?thesis
      using s1 D round_rearmed [OF s1(2)]
      by (rule_tac x = ?s2 in exI, rule_tac x = now in exI, rule_tac x = D in exI)
        (simp del: tl_fired.simps)
  next
    case 3
    have "card {t \<in> active (tl_list s1). now' < tm_time s1 t} \<le> length rest"
      using round_progress [OF s1(2) 3(1), of now'] D(4,6,7) 3(2) Cons.prems(4,5) by simp
    with Cons.IH [OF s1(2), of now'] s1(3) Cons.prems(3,4) obtain s' m L where
      s': "tl_fired client (now' # rest) s1 = Inr s'" "tl_inv client s'" "m \<in> set (now' # rest)"
        "last_ts (tl_list s') = m" "tm_time s' = tm_time s1" and
      L: "distinct L" "set L = {t \<in> active (tl_list s1). tm_time s1 t \<le> m}" "fired_log s' = fired_log s1 @ L"
        "active (tl_list s') = {t \<in> active (tl_list s1). m < tm_time s1 t}"
      by (auto simp del: tl_fired.simps)
    have "now \<le> m" using s'(3) Cons.prems(3) by auto
    then have "set (D @ L) = {t \<in> active (tl_list s). tm_time s t \<le> m}" "distinct (D @ L)"
      using D L by auto
    moreover have "tl_fired client (now # now' # rest) s = Inr s'"
      using s1(1) emp 3 s'(1) by (simp add: Let_def)
    ultimately show ?thesis
      using s' L D \<open>now \<le> m\<close>
      by (rule_tac x = s' in exI, rule_tac x = m in exI, rule_tac x = "D @ L" in exI) auto
  qed
qed

section \<open>Properties\<close>

text \<open>
  The operations of a CPU's timers as steps, with the conditions their callers meet: a timer
  is set only when it is not armed, its client runs on this CPU (is not suspended), and the
  interrupt handler runs with readings of the clock that do not go backwards.
\<close>

inductive tl_step :: "('t \<Rightarrow> 'c) \<Rightarrow> ('t, 'c) timer_list \<Rightarrow> ('t, 'c) timer_list \<Rightarrow> bool" for client where
  step_set: "tm_state s t \<noteq> TArmed \<Longrightarrow> \<not> need_reload s (client t) \<Longrightarrow> time \<le> max_timestamp \<Longrightarrow>
    tl_step client s (timer_base_set client t time s)"
| step_cancel: "\<not> need_reload s (client t) \<Longrightarrow> tl_step client s (timer_cancel client t s)"
| step_reset: "\<not> need_reload s (client t) \<Longrightarrow> time \<le> max_timestamp \<Longrightarrow>
    tl_step client s (timer_reset client t time s)"
| step_suspend: "suspend_timers c s = Some s' \<Longrightarrow> tl_step client s s'"
| step_resume: "resume_timers c s = Some s' \<Longrightarrow> tl_step client s s'"
| step_fired: "last_ts (tl_list s) \<le> now \<Longrightarrow> sorted (now # nows) \<Longrightarrow>
    \<forall>n \<in> set (now # nows). n \<le> max_timestamp \<Longrightarrow>
    card {t \<in> active (tl_list s). now < tm_time s t} \<le> length nows \<Longrightarrow>
    tl_fired client (now # nows) s = Inr s' \<Longrightarrow> tl_step client s s'"

inductive tl_reachable :: "('t \<Rightarrow> 'c) \<Rightarrow> ('t, 'c) timer_list \<Rightarrow> bool" for client where
  reach_init: "tl_reachable client tl_init"
| reach_step: "tl_reachable client s \<Longrightarrow> tl_step client s s' \<Longrightarrow> tl_reachable client s'"

lemma tl_inv_step: "tl_step client s s' \<Longrightarrow> tl_inv client s \<Longrightarrow> tl_inv client s'"
proof (induction rule: tl_step.induct)
  case (step_suspend c s s')
  then show ?case using tl_inv_suspend [of client s c] by auto
next
  case (step_resume c s s')
  then show ?case using tl_inv_resume [of client s c] by auto
next
  case (step_fired s now nows s')
  show ?case
    using tl_fired_spec [OF tl_inv_pre [OF step_fired.prems] step_fired(1-4)] step_fired(5)
    by (elim exE conjE) (simp del: tl_fired.simps)
qed (simp_all add: tl_inv_set tl_inv_cancel tl_inv_reset)

lemma tl_inv_reachable: "tl_reachable client s \<Longrightarrow> tl_inv client s"
  by (induction rule: tl_reachable.induct) (auto simp: tl_inv_init intro: tl_inv_step)


definition tl_example :: "(nat, nat) timer_list" where
  "tl_example = timer_base_set id 7 42 tl_init"

lemma tl_example_facts:
  "tl_reachable id tl_example" "tm_state tl_example = (\<lambda>_. TFree)(7 := TArmed)"
  "tm_time tl_example = (\<lambda>_. 0)(7 := 42)" "need_reload tl_example c = False"
  "last_ts (tl_list tl_example) = 0" "active (tl_list tl_example) = {7}"
proof -
  show r: "tl_reachable id tl_example" unfolding tl_example_def
    by (intro reach_step [OF reach_init] step_set) (simp_all add: tl_init_def max_timestamp_def)
  let ?s1 = "push_client id 7 (tl_init\<lparr>tm_state := (\<lambda>_. TFree)(7 := TArmed),
      tm_time := (\<lambda>_. 0)(7 := 42)\<rparr>) :: (nat, nat) timer_list"
  have s1: "clock_ok ?s1" "active (tl_list ?s1) = {}" "tm_time ?s1 7 = 42" "last_ts (tl_list ?s1) = 0"
    using ts_inv_init [of "(\<lambda>_. 0)((7 :: nat) := 42)"]
    by (simp_all add: clock_ok_def push_client_def tl_init_def ts_get_next_timeout_def active_init)
  have "tm_time ?s1 7 \<le> max_timestamp" by (simp add: s1 max_timestamp_def)
  note i = tl_insert_ok [OF s1(1) _ this, unfolded s1(2), simplified]
  have eq: "tl_example = tl_insert 7 ?s1" by (simp add: tl_example_def timer_base_set_def tl_init_def)
  show "tm_state tl_example = (\<lambda>_. TFree)(7 := TArmed)" "tm_time tl_example = (\<lambda>_. 0)(7 := 42)"
    "need_reload tl_example c = False" "active (tl_list tl_example) = {7}"
    using i(2,3) unfolding eq by (simp_all add: same_clients_def push_client_def tl_init_def)
  show "last_ts (tl_list tl_example) = 0"
    unfolding eq tl_insert_def using s1(4) ts_insert_simps(3) [of "tm_time ?s1" 7 "tl_list ?s1"]
    by (auto split: prod.split)
qed


text \<open>Claim C11: the timer interrupt handler returns without hitting an assertion once the clock
  has been read as often as there are timers not yet due, runs the callback of every due timer
  exactly once and of no other timer, and leaves the alarm set for the rest.\<close>

theorem fired_runs_exactly_the_due_timers:
  assumes "tl_reachable client s" and "last_ts (tl_list s) \<le> now" and "sorted (now # nows)"
    and "\<forall>n \<in> set (now # nows). n \<le> max_timestamp"
    and "card {t \<in> active (tl_list s). now < tm_time s t} \<le> length nows"
  shows "\<exists>s' m L. tl_fired client (now # nows) s = Inr s' \<and> tl_inv client s' \<and>
    m \<in> set (now # nows) \<and> distinct L \<and> fired_log s' = fired_log s @ L \<and>
    set L = {t. tm_state s t = TArmed \<and> \<not> need_reload s (client t) \<and> tm_time s t \<le> m} \<and>
    active (tl_list s') = {t \<in> active (tl_list s). m < tm_time s t}"
proof -
  have inv: "tl_inv client s" using assms(1) by (rule tl_inv_reachable)
  from tl_fired_spec [OF tl_inv_pre [OF inv] assms(2-5)] obtain s' m L where
    "tl_fired client (now # nows) s = Inr s'" "tl_inv client s'" "m \<in> set (now # nows)"
    "distinct L" "set L = {t \<in> active (tl_list s). tm_time s t \<le> m}" "fired_log s' = fired_log s @ L"
    "active (tl_list s') = {t \<in> active (tl_list s). m < tm_time s t}"
    by (elim exE conjE) (rule that)
  then show ?thesis
    using tl_invD(3) [OF inv]
    by (rule_tac x = s' in exI, rule_tac x = m in exI, rule_tac x = L in exI)
      (simp del: tl_fired.simps)
qed

theorem fired_runs_exactly_the_due_timers_witness:
  "\<exists>s' m L. tl_fired id [50, 60] tl_example = Inr s' \<and> tl_inv id s' \<and>
    m \<in> set [50, 60] \<and> distinct L \<and> fired_log s' = fired_log tl_example @ L \<and>
    set L = {t. tm_state tl_example t = TArmed \<and> \<not> need_reload tl_example (id t) \<and> tm_time tl_example t \<le> m} \<and>
    active (tl_list s') = {t \<in> active (tl_list tl_example). m < tm_time tl_example t}"
proof (rule fired_runs_exactly_the_due_timers [OF tl_example_facts(1)])
  have "{t \<in> active (tl_list tl_example). 50 < tm_time tl_example t} = {}"
    by (auto simp: tl_example_facts)
  then show "card {t \<in> active (tl_list tl_example). 50 < tm_time tl_example t} \<le> length [60 :: int]"
    by (metis card.empty le0)
qed (simp_all add: tl_example_facts max_timestamp_def)

end
