(* ===== verification/MemLayout.thy ===== *)
theory MemLayout
  imports Bits
begin

text \<open>
  The constants and the address arithmetic of \<open>include/osv/mmu-defs.hh\<close> and
  \<open>include/osv/mmu.hh\<close>: page sizes, the areas in which physical memory is mapped linearly,
  and page table indices. Addresses are natural numbers below \<open>2 ^ 64\<close>.
\<close>

definition page_size :: nat where
  "page_size = 4096"

definition page_size_shift :: nat where
  "page_size_shift = 12"

definition pte_per_page :: nat where
  "pte_per_page = 512"

definition pte_per_page_shift :: nat where
  "pte_per_page_shift = 9"

definition huge_page_size :: nat where
  "huge_page_size = page_size * pte_per_page"

datatype mem_area = AreaMain | AreaPage | AreaMempool | AreaDebug

fun mem_area_num :: "mem_area \<Rightarrow> nat" where
  "mem_area_num AreaMain = 0"
| "mem_area_num AreaPage = 1"
| "mem_area_num AreaMempool = 2"
| "mem_area_num AreaDebug = 3"

definition identity_mapped_areas :: "mem_area list" where
  "identity_mapped_areas = [AreaMain, AreaPage, AreaMempool]"

definition mem_area_size :: nat where
  "mem_area_size = 2 ^ 44"

definition get_mem_area_base :: "mem_area \<Rightarrow> nat" where
  "get_mem_area_base area = 0x400000000000 OR push_bit 44 (mem_area_num area)"

fun mem_area_of_num :: "nat \<Rightarrow> mem_area" where
  "mem_area_of_num n =
     (if n = 0 then AreaMain else if n = 1 then AreaPage else if n = 2 then AreaMempool else AreaDebug)"

definition get_mem_area :: "nat \<Rightarrow> mem_area" where
  "get_mem_area addr = mem_area_of_num (drop_bit 44 addr AND 3)"

text \<open>Unsigned subtraction of addresses wraps at 64 bits.\<close>

definition sub64 :: "nat \<Rightarrow> nat \<Rightarrow> nat" where
  "sub64 a b = (a + (2 ^ 64 - b)) mod 2 ^ 64"

definition translate_mem_area :: "mem_area \<Rightarrow> mem_area \<Rightarrow> nat \<Rightarrow> nat" where
  "translate_mem_area frm to addr =
     (sub64 addr (get_mem_area_base frm) + get_mem_area_base to) mod 2 ^ 64"

definition phys_mem :: nat where
  "phys_mem = get_mem_area_base AreaMain"

definition debug_base :: nat where
  "debug_base = get_mem_area_base AreaDebug"

definition virt_to_phys_dynamic_phys :: "nat \<Rightarrow> nat" where
  "virt_to_phys_dynamic_phys virt = sub64 virt phys_mem"

definition page_size_level :: "nat \<Rightarrow> nat" where
  "page_size_level level = 2 ^ (page_size_shift + pte_per_page_shift * level)"

definition pt_index :: "nat \<Rightarrow> nat \<Rightarrow> nat" where
  "pt_index virt level =
     drop_bit (page_size_shift + level * pte_per_page_shift) virt AND (pte_per_page - 1)"

lemma page_size_pos [simp]: "0 < page_size"
  by (simp add: page_size_def)

lemma page_size_neq_0 [simp]: "page_size \<noteq> 0"
  by (simp add: page_size_def)

lemma sub64_eq:
  assumes "b \<le> a" and "a < 2 ^ 64"
  shows "sub64 a b = a - b"
proof -
  have "a + (2 ^ 64 - b) = (a - b) + 2 ^ 64" using assms by linarith
  moreover have "a - b < 2 ^ 64" using assms(2) by linarith
  ultimately show ?thesis unfolding sub64_def by (metis mod_add_self2 mod_less)
qed

lemma get_mem_area_base_eq: "get_mem_area_base area = 2 ^ 46 + 2 ^ 44 * mem_area_num area"
  by (cases area) (simp_all add: get_mem_area_base_def)

lemma mem_area_of_num_inverse: "mem_area_of_num (mem_area_num area) = area"
  by (cases area) simp_all

lemma mem_area_num_less: "mem_area_num area < 4"
  by (cases area) simp_all

lemma phys_mem_eq: "phys_mem = 2 ^ 46"
  by (simp add: phys_mem_def get_mem_area_base_eq)

lemma page_size_dvd_phys_mem [simp]: "page_size dvd phys_mem"
  by (simp add: phys_mem_eq page_size_def dvd_def exI [of _ "2 ^ 34"])

lemma get_mem_area_offset:
  assumes "off < mem_area_size"
  shows "get_mem_area (get_mem_area_base area + off) = area"
proof -
  have "(get_mem_area_base area + off) div 2 ^ 44 = 4 + mem_area_num area"
    using assms by (intro div_nat_eqI) (simp_all add: get_mem_area_base_eq mem_area_size_def)
  moreover have "(4 + mem_area_num area) AND 3 = mem_area_num area"
    using mem_area_num_less [of area] mask_eq_exp_minus_1 [of 2, where 'a = nat]
    by (cases area) simp_all
  ultimately show ?thesis
    by (simp add: get_mem_area_def drop_bit_eq_div mem_area_of_num_inverse del: mem_area_of_num.simps)
qed

text \<open>Claim C34: an address of one linearly mapped area translates to the same offset of another
  area, is recognised as belonging there, and translates back.\<close>

theorem translate_mem_area_roundtrip:
  assumes "off < mem_area_size"
  shows "translate_mem_area a b (get_mem_area_base a + off) = get_mem_area_base b + off \<and>
    get_mem_area (translate_mem_area a b (get_mem_area_base a + off)) = b \<and>
    translate_mem_area b a (translate_mem_area a b (get_mem_area_base a + off)) = get_mem_area_base a + off"
proof -
  have lt: "get_mem_area_base x + off < 2 ^ 64" for x
    using assms mem_area_num_less [of x] by (simp add: get_mem_area_base_eq mem_area_size_def)
  have tr: "translate_mem_area x y (get_mem_area_base x + off) = get_mem_area_base y + off" for x y
    using lt [of x] lt [of y] sub64_eq [of "get_mem_area_base x" "get_mem_area_base x + off"]
    by (simp add: translate_mem_area_def add.commute)
  show ?thesis by (simp add: tr get_mem_area_offset [OF assms])
qed

theorem translate_mem_area_roundtrip_witness:
  "translate_mem_area AreaMain AreaMempool (get_mem_area_base AreaMain + 4096) =
     get_mem_area_base AreaMempool + 4096"
  using translate_mem_area_roundtrip [of 4096 AreaMain AreaMempool] by (simp add: mem_area_size_def)

end
