(* ===== verification/PageRanges.thy ===== *)
theory PageRanges
  imports MemLayout
begin

text \<open>
  The allocator of page ranges of \<open>core/mempool.cc\<close> (class \<open>page_range_allocator\<close>).

  A free range starts with a \<open>page_range\<close> header and ends with a pointer back to it, so part
  of the state is in the managed memory itself: \<open>psize a\<close> is the size field of the header at
  address \<open>a\<close>, and \<open>ptail e\<close> the pointer stored in the word just below address \<open>e\<close>. The
  intrusive containers hold header addresses: \<open>free_huge\<close> is the multiset ordered by size (an
  insertion goes after equal elements), \<open>free_lists i\<close> the list of ranges of order \<open>i\<close>.
\<close>

section \<open>State and primitive operations\<close>

definition max_order :: nat where
  "max_order = 16"

record pra =
  psize :: "nat \<Rightarrow> nat"
  ptail :: "nat \<Rightarrow> nat"
  free_huge :: "nat list"
  free_lists :: "nat \<Rightarrow> nat list"
  not_empty :: u64
  bitmap :: "nat \<Rightarrow> bool"
  bitmap_size :: nat
  deferred_free :: "nat option"

definition pra_init :: pra where
  "pra_init = \<lparr>psize = (\<lambda>_. 0), ptail = (\<lambda>_. 0), free_huge = [], free_lists = (\<lambda>_. []),
     not_empty = 0, bitmap = (\<lambda>_. False), bitmap_size = 0, deferred_free = None\<rparr>"

text \<open>Constructing a \<open>page_range\<close> header in place.\<close>

definition new_range :: "nat \<Rightarrow> nat \<Rightarrow> pra \<Rightarrow> pra" where
  "new_range a n s = s\<lparr>psize := (psize s)(a := n)\<rparr>"

definition set_not_empty :: "nat \<Rightarrow> bool \<Rightarrow> pra \<Rightarrow> pra" where
  "set_not_empty i b s =
     s\<lparr>not_empty := (if b then set_bit i (not_empty s) else unset_bit i (not_empty s))\<rparr>"

text \<open>
  The source computes the index in 32 bits; an address of the area is less than \<open>2 ^ 44\<close> above
  its base, so the index is below \<open>2 ^ 32\<close>.
\<close>

definition get_bitmap_idx :: "nat \<Rightarrow> nat" where
  "get_bitmap_idx pr = (pr - phys_mem) div page_size"

definition set_bits :: "nat \<Rightarrow> bool \<Rightarrow> bool \<Rightarrow> pra \<Rightarrow> pra" where
  "set_bits pr value fill s =
     (let end = psize s pr div page_size - 1; idx = get_bitmap_idx pr in
        if fill then s\<lparr>bitmap := (\<lambda>i. if idx \<le> i \<and> i \<le> idx + end then value else bitmap s i)\<rparr>
        else s\<lparr>bitmap := (bitmap s)(idx := value, idx + end := value)\<rparr>)"

fun huge_insert :: "(nat \<Rightarrow> nat) \<Rightarrow> nat \<Rightarrow> nat list \<Rightarrow> nat list" where
  "huge_insert sz x [] = [x]"
| "huge_insert sz x (y # ys) = (if sz x < sz y then x # y # ys else y # huge_insert sz x ys)"

definition pr_order :: "pra \<Rightarrow> nat \<Rightarrow> nat" where
  "pr_order s pr = ilog2 (psize s pr div page_size)"

definition pra_insert :: "bool \<Rightarrow> nat \<Rightarrow> pra \<Rightarrow> pra" where
  "pra_insert use_bitmap pr s =
     (let s1 = s\<lparr>ptail := (ptail s)(pr + psize s pr := pr)\<rparr>;
          order = pr_order s pr;
          s2 = (if max_order \<le> order
                then set_not_empty max_order True
                       (s1\<lparr>free_huge := huge_insert (psize s) pr (free_huge s1)\<rparr>)
                else set_not_empty order True
                       (s1\<lparr>free_lists := (free_lists s1)(order := pr # free_lists s1 order)\<rparr>)) in
        if use_bitmap then set_bits pr True False s2 else s2)"

definition remove_huge :: "nat \<Rightarrow> pra \<Rightarrow> pra" where
  "remove_huge pr s =
     (let s1 = s\<lparr>free_huge := remove1 pr (free_huge s)\<rparr> in
        if free_huge s1 = [] then set_not_empty max_order False s1 else s1)"

definition remove_list :: "nat \<Rightarrow> nat \<Rightarrow> pra \<Rightarrow> pra" where
  "remove_list order pr s =
     (let s1 = s\<lparr>free_lists := (free_lists s)(order := remove1 pr (free_lists s order))\<rparr> in
        if free_lists s1 order = [] then set_not_empty order False s1 else s1)"

definition pra_remove :: "nat \<Rightarrow> pra \<Rightarrow> pra" where
  "pra_remove pr s =
     (let order = pr_order s pr in
        if max_order \<le> order then remove_huge pr s else remove_list order pr s)"

definition pra_empty :: "pra \<Rightarrow> bool" where
  "pra_empty s \<longleftrightarrow> not_empty s = 0"

definition pra_count :: "pra \<Rightarrow> nat" where
  "pra_count s = length (free_huge s) + sum_list (map (\<lambda>i. length (free_lists s i)) [0 ..< max_order])"

text \<open>Number of ranges and of bytes of one order.\<close>

definition pra_stats :: "pra \<Rightarrow> nat \<Rightarrow> nat \<times> nat" where
  "pra_stats s order =
     (let l = (if order = max_order then free_huge s else free_lists s order) in
        (length l, sum_list (map (psize s) l)))"

text \<open>The ranges \<open>for_each\<close> visits, in its order: the huge ones, then by descending order.\<close>

definition for_each_ranges :: "nat \<Rightarrow> pra \<Rightarrow> nat list" where
  "for_each_ranges min_order s =
     free_huge s @ concat (map (free_lists s) (rev [min_order ..< max_order]))"

section \<open>Allocation and release\<close>

text \<open>The part of \<open>alloc\<close> that chooses a range and takes it out of the containers.\<close>

definition pra_take :: "nat \<Rightarrow> bool \<Rightarrow> pra \<Rightarrow> (nat \<times> pra) option" where
  "pra_take sz contiguous s =
     (let exact_order = min (ilog2_roundup (sz div page_size)) max_order;
          bitset = (if exact_order \<noteq> 0 then not_empty s AND NOT (mask exact_order) else not_empty s);
          order = count_trailing_zeros (unat bitset) in
        if bitset = 0 then
          (if \<not> contiguous \<or> exact_order = 0 \<or> free_lists s (exact_order - 1) = [] then None
           else
             (case find (\<lambda>pr. sz \<le> psize s pr) (free_lists s (exact_order - 1)) of
                None \<Rightarrow> None
              | Some pr \<Rightarrow> Some (pr, remove_list (exact_order - 1) pr s)))
        else if order = max_order then
          (let pr = last (free_huge s) in
             if psize s pr < sz then None else Some (pr, remove_huge pr s))
        else
          (let pr = hd (free_lists s order) in Some (pr, remove_list order pr s)))"

definition pra_alloc :: "bool \<Rightarrow> nat \<Rightarrow> bool \<Rightarrow> pra \<Rightarrow> nat option \<times> pra" where
  "pra_alloc use_bitmap sz contiguous s =
     (case pra_take sz contiguous s of
        None \<Rightarrow> (None, s)
      | Some (pr, s1) \<Rightarrow>
          let s2 = (if sz < psize s1 pr
                    then new_range pr sz
                           (pra_insert use_bitmap (pr + sz) (new_range (pr + sz) (psize s1 pr - sz) s1))
                    else s1);
              s3 = (if use_bitmap then set_bits pr False False s2 else s2) in
            (Some pr, s3))"

text \<open>\<open>expected_ret - align_down(expected_ret, alignment)\<close>, with the pointer arithmetic at 64 bits.\<close>

definition alignment_shift :: "nat \<Rightarrow> nat \<Rightarrow> nat \<Rightarrow> nat \<Rightarrow> pra \<Rightarrow> nat" where
  "alignment_shift sz offset alignment v s =
     (let expected_ret = (sub64 (v + psize s v) sz + offset) mod 2 ^ 64 in
        expected_ret - nalign_down expected_ret alignment)"

text \<open>The body of the visitor once a range is large enough.\<close>

definition carve_aligned :: "nat \<Rightarrow> nat \<Rightarrow> bool \<Rightarrow> nat \<Rightarrow> pra \<Rightarrow> nat \<times> pra" where
  "carve_aligned sz shift fill v s =
     (let s1 = pra_remove v s;
          s2 = (if shift \<noteq> 0 then
                  (let tail = v + psize s1 v - shift in
                     new_range v (psize s1 v - shift) (pra_insert True tail (new_range tail shift s1)))
                else s1);
          (ret, s3) = (if psize s2 v = sz then (v, s2)
                 else
                   (let s4 = pra_insert True v (new_range v (psize s2 v - sz) s2);
                        r = v + psize s4 v in
                      (r, new_range r sz s4))) in
        (ret, set_bits ret False fill s3))"

definition pra_alloc_aligned :: "nat \<Rightarrow> nat \<Rightarrow> nat \<Rightarrow> bool \<Rightarrow> pra \<Rightarrow> nat option \<times> pra" where
  "pra_alloc_aligned sz offset alignment fill s =
     (case find (\<lambda>v. sz + alignment_shift sz offset alignment v s \<le> psize s v)
             (for_each_ranges (max (ilog2 (sz div page_size)) 1 - 1) s) of
        None \<Rightarrow> (None, s)
      | Some v \<Rightarrow>
          (case carve_aligned sz (alignment_shift sz offset alignment v s) fill v s of
             (ret, s') \<Rightarrow> (Some ret, s')))"

definition pra_free :: "nat \<Rightarrow> pra \<Rightarrow> pra" where
  "pra_free pr s =
     (let idx = get_bitmap_idx pr;
          (pr1, s1) = (if idx \<noteq> 0 \<and> bitmap s (idx - 1) then
               (let pr2 = ptail s pr; s' = pra_remove pr2 s in
                  (pr2, new_range pr2 (psize s' pr2 + psize s' pr) s'))
             else (pr, s));
          next_idx = get_bitmap_idx pr1 + psize s1 pr1 div page_size;
          s2 = (if next_idx < bitmap_size s1 \<and> bitmap s1 next_idx then
               (let pr2 = pr1 + psize s1 pr1; s' = pra_remove pr2 s1 in
                  new_range pr1 (psize s' pr1 + psize s' pr2) s')
             else s1) in
        pra_insert True pr1 s2)"

text \<open>
  Growing the bitmap. The buffer of the bitmap itself comes from this allocator (without
  touching the bitmap), through \<open>bitmap_allocator\<close>. Whether the vector reallocates when it is
  resized, and for how many words, is decided by the bitset library: \<open>grow\<close> is \<open>None\<close> when it
  does not, and otherwise the words requested and the old buffer with its words, if any.
\<close>

definition bitmap_buffer_size :: "nat \<Rightarrow> nat" where
  "bitmap_buffer_size n = nalign_up (8 * n) page_size"

definition bitmap_allocate :: "nat \<Rightarrow> pra \<Rightarrow> nat option \<times> pra" where
  "bitmap_allocate n s = pra_alloc False (bitmap_buffer_size n) True s"

text \<open>\<open>None\<close> is the failed assertion that no buffer is waiting to be freed.\<close>

definition bitmap_deallocate :: "nat \<Rightarrow> nat \<Rightarrow> pra \<Rightarrow> pra option" where
  "bitmap_deallocate p n s =
     (if deferred_free s = None
      then Some ((new_range p (bitmap_buffer_size n) s)\<lparr>deferred_free := Some p\<rparr>)
      else None)"

definition bitmap_resize :: "(nat \<times> (nat \<times> nat) option) option \<Rightarrow> nat \<Rightarrow> pra \<Rightarrow> pra option" where
  "bitmap_resize grow idx s =
     (let s1 = s\<lparr>bitmap := (\<lambda>_. False)\<rparr> in
        case grow of
          None \<Rightarrow> Some (s1\<lparr>bitmap_size := idx\<rparr>)
        | Some (n, old) \<Rightarrow>
            (case bitmap_allocate n s1 of
               (None, _) \<Rightarrow> None
             | (Some buf, s2) \<Rightarrow>
                 let s3 = s2\<lparr>bitmap_size := idx\<rparr> in
                   (case old of None \<Rightarrow> Some s3 | Some (p, m) \<Rightarrow> bitmap_deallocate p m s3)))"

definition initial_add :: "(nat \<times> (nat \<times> nat) option) option \<Rightarrow> nat \<Rightarrow> pra \<Rightarrow> pra option" where
  "initial_add grow pr s =
     (let idx = get_bitmap_idx pr + psize s pr div page_size in
        if bitmap_size s < idx then
          (let first = get_bitmap_idx pr;
               (pr1, s1) = (if first \<noteq> 0 \<and> first - 1 < bitmap_size s \<and> bitmap s (first - 1) then
                   (let pr2 = ptail s pr; s' = pra_remove pr2 s in
                      (pr2, new_range pr2 (psize s' pr2 + psize s' pr) s'))
                 else (pr, s)) in
             case bitmap_resize grow idx (pra_insert False pr1 s1) of
               None \<Rightarrow> None
             | Some s2 \<Rightarrow>
                 let s3 = fold (\<lambda>a. set_bits a True False) (for_each_ranges 0 s2) s2 in
                   (case deferred_free s3 of
                      None \<Rightarrow> Some s3
                    | Some d \<Rightarrow> Some ((pra_free d s3)\<lparr>deferred_free := None\<rparr>)))
        else Some (pra_free pr s))"

section \<open>The containers\<close>

definition ranges :: "pra \<Rightarrow> nat set" where
  "ranges s = set (free_huge s) \<union> (\<Union>i < max_order. set (free_lists s i))"

definition lists_ok :: "pra \<Rightarrow> bool" where
  "lists_ok s \<longleftrightarrow>
     (\<forall>a \<in> set (free_huge s). max_order \<le> pr_order s a) \<and>
     (\<forall>i < max_order. \<forall>a \<in> set (free_lists s i). pr_order s a = i) \<and>
     distinct (free_huge s) \<and> (\<forall>i < max_order. distinct (free_lists s i)) \<and>
     sorted (map (psize s) (free_huge s)) \<and>
     (\<forall>i < max_order. bit (not_empty s) i \<longleftrightarrow> free_lists s i \<noteq> []) \<and>
     (bit (not_empty s) max_order \<longleftrightarrow> free_huge s \<noteq> []) \<and>
     (\<forall>i > max_order. \<not> bit (not_empty s) i)"

lemma lists_okD:
  assumes "lists_ok s"
  shows "a \<in> set (free_huge s) \<Longrightarrow> max_order \<le> pr_order s a"
    and "i < max_order \<Longrightarrow> a \<in> set (free_lists s i) \<Longrightarrow> pr_order s a = i"
    and "distinct (free_huge s)" and "i < max_order \<Longrightarrow> distinct (free_lists s i)"
    and "sorted (map (psize s) (free_huge s))"
    and "i < max_order \<Longrightarrow> bit (not_empty s) i \<longleftrightarrow> free_lists s i \<noteq> []"
    and "bit (not_empty s) max_order \<longleftrightarrow> free_huge s \<noteq> []"
    and "max_order < i \<Longrightarrow> \<not> bit (not_empty s) i"
  using assms by (auto simp: lists_ok_def)

lemma in_ranges_iff:
  "a \<in> ranges s \<longleftrightarrow> a \<in> set (free_huge s) \<or> (\<exists>i < max_order. a \<in> set (free_lists s i))"
  by (auto simp: ranges_def)

lemma ranges_slot:
  assumes "lists_ok s" and "a \<in> ranges s"
  shows "max_order \<le> pr_order s a \<Longrightarrow> a \<in> set (free_huge s)"
    and "pr_order s a < max_order \<Longrightarrow> a \<in> set (free_lists s (pr_order s a))"
  using assms lists_okD(1,2) [OF assms(1)] by (auto simp: in_ranges_iff) (metis leD)+

lemma set_huge_insert [simp]: "set (huge_insert f x l) = insert x (set l)"
  by (induction l) auto

lemma distinct_huge_insert: "distinct (huge_insert f x l) \<longleftrightarrow> x \<notin> set l \<and> distinct l"
  by (induction l) auto

lemma sorted_huge_insert: "sorted (map f l) \<Longrightarrow> sorted (map f (huge_insert f x l))"
  by (induction l) auto

lemma huge_insert_not_Nil [simp]: "huge_insert f x l \<noteq> []"
  by (cases l) auto

lemma set_not_empty_simps [simp]:
  "psize (set_not_empty i b s) = psize s" "ptail (set_not_empty i b s) = ptail s"
  "free_huge (set_not_empty i b s) = free_huge s" "free_lists (set_not_empty i b s) = free_lists s"
  "bitmap (set_not_empty i b s) = bitmap s" "bitmap_size (set_not_empty i b s) = bitmap_size s"
  "deferred_free (set_not_empty i b s) = deferred_free s"
  "pr_order (set_not_empty i b s) = pr_order s"
  by (simp_all add: set_not_empty_def pr_order_def fun_eq_iff)

lemma bit_not_empty_set:
  "i < 64 \<Longrightarrow> bit (not_empty (set_not_empty i b s)) j \<longleftrightarrow> (if j = i then b else bit (not_empty s) j)"
  by (auto simp: set_not_empty_def bit_set_bit_iff bit_unset_bit_iff)

lemma set_bits_simps [simp]:
  "psize (set_bits a v f s) = psize s" "ptail (set_bits a v f s) = ptail s"
  "free_huge (set_bits a v f s) = free_huge s" "free_lists (set_bits a v f s) = free_lists s"
  "not_empty (set_bits a v f s) = not_empty s" "bitmap_size (set_bits a v f s) = bitmap_size s"
  "deferred_free (set_bits a v f s) = deferred_free s"
  "ranges (set_bits a v f s) = ranges s" "lists_ok (set_bits a v f s) = lists_ok s"
  by (simp_all add: set_bits_def Let_def ranges_def lists_ok_def pr_order_def)

lemma new_range_simps [simp]:
  "psize (new_range a n s) = (psize s)(a := n)" "ptail (new_range a n s) = ptail s"
  "free_huge (new_range a n s) = free_huge s" "free_lists (new_range a n s) = free_lists s"
  "not_empty (new_range a n s) = not_empty s" "bitmap (new_range a n s) = bitmap s"
  "bitmap_size (new_range a n s) = bitmap_size s"
  "deferred_free (new_range a n s) = deferred_free s" "ranges (new_range a n s) = ranges s"
  by (simp_all add: new_range_def ranges_def)

lemma lists_ok_cong:
  assumes ok: "lists_ok s" and same: "free_huge s' = free_huge s" "free_lists s' = free_lists s"
    "not_empty s' = not_empty s" and sz: "\<And>b. b \<in> ranges s \<Longrightarrow> psize s' b = psize s b"
  shows "lists_ok s'"
proof -
  have "pr_order s' b = pr_order s b" if "b \<in> ranges s" for b
    using sz [OF that] by (simp add: pr_order_def)
  then have "pr_order s' b = pr_order s b" if "b \<in> set (free_huge s)" for b
    using that by (simp add: in_ranges_iff)
  moreover have "pr_order s' b = pr_order s b" if "i < max_order" "b \<in> set (free_lists s i)" for b i
    using that \<open>\<And>b. b \<in> ranges s \<Longrightarrow> pr_order s' b = pr_order s b\<close> by (auto simp: in_ranges_iff)
  moreover have "sorted (map (psize s') (free_huge s))"
  proof -
    have "map (psize s') (free_huge s) = map (psize s) (free_huge s)"
      using sz by (intro map_cong) (simp_all add: in_ranges_iff)
    then show ?thesis using lists_okD(5) [OF ok] by metis
  qed
  ultimately show ?thesis
    using lists_okD [OF ok] unfolding lists_ok_def same by simp
qed

lemma lists_ok_new_range: "lists_ok s \<Longrightarrow> a \<notin> ranges s \<Longrightarrow> lists_ok (new_range a n s)"
  by (rule lists_ok_cong) auto

lemma pra_insert_simps [simp]:
  "psize (pra_insert b pr s) = psize s"
  "ptail (pra_insert b pr s) = (ptail s)(pr + psize s pr := pr)"
  "bitmap_size (pra_insert b pr s) = bitmap_size s"
  "deferred_free (pra_insert b pr s) = deferred_free s"
  by (simp_all add: pra_insert_def Let_def)

lemma bitmap_pra_insert: "bitmap (pra_insert b pr s) = (if b then bitmap (set_bits pr True False s) else bitmap s)"
  by (simp add: pra_insert_def Let_def set_bits_def)

lemma ex_slot_upd:
  "i < m \<Longrightarrow> (\<exists>j < m. x \<in> set ((f(i := l)) j)) \<longleftrightarrow> x \<in> set l \<or> (\<exists>j < m. j \<noteq> i \<and> x \<in> set (f j))" for m :: nat
  by (auto split: if_splits)

lemma ranges_insert: "ranges (pra_insert b pr s) = insert pr (ranges s)"
proof -
  have "ranges (pra_insert False pr s) = insert pr (ranges s)"
  proof (cases "max_order \<le> pr_order s pr")
    case True
    then show ?thesis by (simp add: pra_insert_def Let_def ranges_def)
  next
    case False
    then have "x \<in> ranges (pra_insert False pr s) \<longleftrightarrow> x \<in> insert pr (ranges s)" for x
      by (simp add: pra_insert_def Let_def in_ranges_iff ex_slot_upd not_le del: fun_upd_apply) metis
    then show ?thesis by blast
  qed
  moreover have "ranges (pra_insert True pr s) = ranges (pra_insert False pr s)"
    by (simp add: pra_insert_def Let_def)
  ultimately show ?thesis by (cases b) simp_all
qed

lemma lists_ok_insert:
  assumes ok: "lists_ok s" and new: "pr \<notin> ranges s"
  shows "lists_ok (pra_insert b pr s)"
proof -
  have "lists_ok (pra_insert False pr s)"
  proof (cases "max_order \<le> pr_order s pr")
    case True
    have "max_order < 64" by (simp add: max_order_def)
    then show ?thesis
      using True ok new
      by (auto simp: pra_insert_def Let_def lists_ok_def bit_not_empty_set distinct_huge_insert
          sorted_huge_insert in_ranges_iff pr_order_def)
  next
    case False
    then have "pr_order s pr < 64" by (simp add: max_order_def)
    then show ?thesis
      using False ok new
      by (auto simp: pra_insert_def Let_def lists_ok_def bit_not_empty_set in_ranges_iff pr_order_def)
  qed
  moreover have "lists_ok (pra_insert True pr s) = lists_ok (pra_insert False pr s)"
    by (simp add: pra_insert_def Let_def)
  ultimately show ?thesis by (cases b) simp_all
qed

lemma remove_list_simps [simp]:
  "psize (remove_list i pr s) = psize s" "ptail (remove_list i pr s) = ptail s"
  "bitmap (remove_list i pr s) = bitmap s" "bitmap_size (remove_list i pr s) = bitmap_size s"
  "deferred_free (remove_list i pr s) = deferred_free s"
  by (simp_all add: remove_list_def Let_def)

lemma remove_huge_simps [simp]:
  "psize (remove_huge pr s) = psize s" "ptail (remove_huge pr s) = ptail s"
  "bitmap (remove_huge pr s) = bitmap s" "bitmap_size (remove_huge pr s) = bitmap_size s"
  "deferred_free (remove_huge pr s) = deferred_free s"
  by (simp_all add: remove_huge_def Let_def)

lemma remove_list_ok:
  assumes ok: "lists_ok s" and "i < max_order" and mem: "pr \<in> set (free_lists s i)"
  shows "lists_ok (remove_list i pr s)" and "ranges (remove_list i pr s) = ranges s - {pr}"
proof -
  have "i < 64" using assms(2) by (simp add: max_order_def)
  have fl: "free_lists (remove_list i pr s) = (free_lists s)(i := remove1 pr (free_lists s i))"
    and fh: "free_huge (remove_list i pr s) = free_huge s"
    by (simp_all add: remove_list_def Let_def)
  have ne: "bit (not_empty (remove_list i pr s)) j \<longleftrightarrow>
      (if j = i then remove1 pr (free_lists s i) \<noteq> [] else bit (not_empty s) j)" for j
    using mem lists_okD(6) [OF ok assms(2)]
    by (auto simp: remove_list_def Let_def bit_not_empty_set [OF \<open>i < 64\<close>])
  have ord: "pr_order (remove_list i pr s) = pr_order s" by (simp add: pr_order_def fun_eq_iff)
  show "lists_ok (remove_list i pr s)"
    unfolding lists_ok_def fl fh ne ord using lists_okD [OF ok] assms(2)
    by (auto dest: notin_set_remove1)
  have "pr \<notin> set (free_huge s)" using lists_okD(1) [OF ok] lists_okD(2) [OF ok assms(2) mem] assms(2) by force
  moreover have "pr \<notin> set (free_lists s j)" if "j < max_order" "j \<noteq> i" for j
    using lists_okD(2) [OF ok that(1)] lists_okD(2) [OF ok assms(2) mem] that(2) by blast
  ultimately show "ranges (remove_list i pr s) = ranges s - {pr}"
    using lists_okD(4) [OF ok assms(2)] assms(2)
    by (intro set_eqI) (auto simp: in_ranges_iff fl fh ex_slot_upd simp del: fun_upd_apply)
qed

lemma remove_huge_ok:
  assumes ok: "lists_ok s" and mem: "pr \<in> set (free_huge s)"
  shows "lists_ok (remove_huge pr s)" and "ranges (remove_huge pr s) = ranges s - {pr}"
proof -
  have "max_order < 64" by (simp add: max_order_def)
  have fl: "free_lists (remove_huge pr s) = free_lists s"
    and fh: "free_huge (remove_huge pr s) = remove1 pr (free_huge s)"
    by (simp_all add: remove_huge_def Let_def)
  have ne: "bit (not_empty (remove_huge pr s)) j \<longleftrightarrow>
      (if j = max_order then remove1 pr (free_huge s) \<noteq> [] else bit (not_empty s) j)" for j
    using mem lists_okD(7) [OF ok]
    by (auto simp: remove_huge_def Let_def bit_not_empty_set [OF \<open>max_order < 64\<close>])
  have ord: "pr_order (remove_huge pr s) = pr_order s" by (simp add: pr_order_def fun_eq_iff)
  have sorted: "sorted (map (psize s) (remove1 pr (free_huge s)))"
    using lists_okD(5) [OF ok] by (rule sorted_map_remove1)
  show "lists_ok (remove_huge pr s)"
    unfolding lists_ok_def fl fh ne ord using lists_okD [OF ok] sorted
    by (auto dest: notin_set_remove1)
  have "pr \<notin> set (free_lists s j)" if "j < max_order" for j
    using lists_okD(2) [OF ok that] lists_okD(1) [OF ok mem] that by force
  then show "ranges (remove_huge pr s) = ranges s - {pr}"
    using lists_okD(3) [OF ok]
    by (intro set_eqI) (auto simp: in_ranges_iff fl fh)
qed

lemma pra_remove_simps [simp]:
  "psize (pra_remove pr s) = psize s" "ptail (pra_remove pr s) = ptail s"
  "bitmap (pra_remove pr s) = bitmap s" "bitmap_size (pra_remove pr s) = bitmap_size s"
  "deferred_free (pra_remove pr s) = deferred_free s"
  by (simp_all add: pra_remove_def Let_def)

lemma pra_remove_ok:
  assumes ok: "lists_ok s" and mem: "pr \<in> ranges s"
  shows "lists_ok (pra_remove pr s)" and "ranges (pra_remove pr s) = ranges s - {pr}"
proof -
  have "lists_ok (pra_remove pr s) \<and> ranges (pra_remove pr s) = ranges s - {pr}"
  proof (cases "max_order \<le> pr_order s pr")
    case True
    then show ?thesis
      using remove_huge_ok [OF ok ranges_slot(1) [OF ok mem True]] by (simp add: pra_remove_def Let_def)
  next
    case False
    then show ?thesis
      using remove_list_ok [OF ok _ ranges_slot(2) [OF ok mem]] by (simp add: pra_remove_def Let_def)
  qed
  then show "lists_ok (pra_remove pr s)" and "ranges (pra_remove pr s) = ranges s - {pr}" by simp_all
qed

section \<open>The invariant\<close>

text \<open>
  \<open>B\<close> is the set of blocks handed out, as pairs of address and size. Only the bits of the
  first and the last page of a block or range mean anything; a bit inside may be stale.
\<close>

definition page_addr :: "nat \<Rightarrow> bool" where
  "page_addr x \<longleftrightarrow> page_size dvd x \<and> phys_mem \<le> x"

definition block_ok :: "nat \<Rightarrow> nat \<Rightarrow> bool" where
  "block_ok a n \<longleftrightarrow> page_addr a \<and> page_size dvd n \<and> 0 < n \<and> a + n \<le> phys_mem + mem_area_size"

definition page_bit :: "pra \<Rightarrow> nat \<Rightarrow> bool" where
  "page_bit s x \<longleftrightarrow> bitmap s (get_bitmap_idx x)"

definition separate :: "nat \<Rightarrow> nat \<Rightarrow> nat \<Rightarrow> nat \<Rightarrow> bool" where
  "separate a n b m \<longleftrightarrow> a + n \<le> b \<or> b + m \<le> a"

definition in_bitmap :: "pra \<Rightarrow> nat \<Rightarrow> nat \<Rightarrow> bool" where
  "in_bitmap s a n \<longleftrightarrow> get_bitmap_idx (a + n) \<le> bitmap_size s"

definition inside_block :: "(nat \<times> nat) set \<Rightarrow> nat \<Rightarrow> bool" where
  "inside_block B x \<longleftrightarrow> (\<exists>(b, m) \<in> B. b < x \<and> x + page_size < b + m)"

definition inside_free :: "pra \<Rightarrow> nat \<Rightarrow> bool" where
  "inside_free s x \<longleftrightarrow> (\<exists>a \<in> ranges s. a \<le> x \<and> x < a + psize s a)"

definition geometry_ok :: "pra \<Rightarrow> (nat \<times> nat) set \<Rightarrow> bool" where
  "geometry_ok s B \<longleftrightarrow>
     (\<forall>a \<in> ranges s. block_ok a (psize s a) \<and> in_bitmap s a (psize s a)) \<and>
     (\<forall>(b, m) \<in> B. block_ok b m \<and> in_bitmap s b m) \<and>
     (\<forall>a \<in> ranges s. \<forall>b \<in> ranges s. a \<noteq> b \<longrightarrow> separate a (psize s a) b (psize s b)) \<and>
     (\<forall>a \<in> ranges s. \<forall>(b, m) \<in> B. separate a (psize s a) b m) \<and>
     (\<forall>(a, n) \<in> B. \<forall>(b, m) \<in> B. (a, n) \<noteq> (b, m) \<longrightarrow> separate a n b m)"

definition tags_ok :: "pra \<Rightarrow> (nat \<times> nat) set \<Rightarrow> bool" where
  "tags_ok s B \<longleftrightarrow>
     (\<forall>a \<in> ranges s. ptail s (a + psize s a) = a \<and> page_bit s a \<and> page_bit s (a + psize s a - page_size)) \<and>
     (\<forall>x. page_addr x \<and> page_bit s x \<longrightarrow> inside_free s x \<or> inside_block B x)"

definition coalesced :: "pra \<Rightarrow> bool" where
  "coalesced s \<longleftrightarrow> (\<forall>a \<in> ranges s. a + psize s a \<notin> ranges s)"

definition pra_inv :: "pra \<Rightarrow> (nat \<times> nat) set \<Rightarrow> bool" where
  "pra_inv s B \<longleftrightarrow> lists_ok s \<and> geometry_ok s B \<and> tags_ok s B \<and> coalesced s"

lemma pra_invD:
  assumes "pra_inv s B"
  shows "lists_ok s" and "geometry_ok s B" and "tags_ok s B" and "coalesced s"
  using assms by (simp_all add: pra_inv_def)

lemma geometryD:
  assumes "geometry_ok s B"
  shows "a \<in> ranges s \<Longrightarrow> block_ok a (psize s a)" and "a \<in> ranges s \<Longrightarrow> in_bitmap s a (psize s a)"
    and "(b, m) \<in> B \<Longrightarrow> block_ok b m" and "(b, m) \<in> B \<Longrightarrow> in_bitmap s b m"
    and "a \<in> ranges s \<Longrightarrow> a' \<in> ranges s \<Longrightarrow> a \<noteq> a' \<Longrightarrow> separate a (psize s a) a' (psize s a')"
    and "a \<in> ranges s \<Longrightarrow> (b, m) \<in> B \<Longrightarrow> separate a (psize s a) b m"
    and "(c, n) \<in> B \<Longrightarrow> (b, m) \<in> B \<Longrightarrow> (c, n) \<noteq> (b, m) \<Longrightarrow> separate c n b m"
  using assms by (auto simp: geometry_ok_def)

lemma tagsD:
  assumes "tags_ok s B"
  shows "a \<in> ranges s \<Longrightarrow> ptail s (a + psize s a) = a" and "a \<in> ranges s \<Longrightarrow> page_bit s a"
    and "a \<in> ranges s \<Longrightarrow> page_bit s (a + psize s a - page_size)"
    and "page_addr x \<Longrightarrow> page_bit s x \<Longrightarrow> inside_free s x \<or> inside_block B x"
  using assms by (auto simp: tags_ok_def)

text \<open>Page arithmetic.\<close>

lemma block_okD:
  assumes "block_ok a n"
  shows "page_addr a" and "page_size dvd a" and "page_size dvd n" and "phys_mem \<le> a" and "page_size \<le> n"
    and "0 < n" and "a + n \<le> phys_mem + mem_area_size" and "page_addr (a + n)" and "page_addr (a + n - page_size)"
proof -
  show "page_addr a" "page_size dvd a" "page_size dvd n" "phys_mem \<le> a" "0 < n"
    and "a + n \<le> phys_mem + mem_area_size"
    using assms by (simp_all add: block_ok_def page_addr_def)
  show "page_size \<le> n" using \<open>page_size dvd n\<close> \<open>0 < n\<close> by (rule dvd_imp_le)
  then show "page_addr (a + n)" "page_addr (a + n - page_size)"
    using \<open>page_size dvd a\<close> \<open>page_size dvd n\<close> \<open>phys_mem \<le> a\<close> by (simp_all add: page_addr_def)
qed

lemma page_addr_sub: "page_addr x \<Longrightarrow> phys_mem < x \<Longrightarrow> page_addr (x - page_size) \<and> page_size \<le> x - phys_mem"
proof -
  assume x: "page_addr x" "phys_mem < x"
  have "page_size dvd x - phys_mem" using x by (simp add: page_addr_def)
  then have "page_size \<le> x - phys_mem" using x(2) by (intro dvd_imp_le) simp_all
  then show ?thesis using x by (simp add: page_addr_def)
qed

lemma idx_inj: "page_addr x \<Longrightarrow> page_addr y \<Longrightarrow> get_bitmap_idx x = get_bitmap_idx y \<longleftrightarrow> x = y"
proof
  assume "page_addr x" "page_addr y" "get_bitmap_idx x = get_bitmap_idx y"
  then have "x - phys_mem = y - phys_mem"
    by (metis dvd_diff_nat dvd_div_mult_self get_bitmap_idx_def page_addr_def page_size_dvd_phys_mem)
  then show "x = y"
    using \<open>page_addr x\<close> \<open>page_addr y\<close> unfolding page_addr_def by (metis le_add_diff_inverse)
qed simp

lemma idx_add: "page_addr x \<Longrightarrow> page_size dvd n \<Longrightarrow> get_bitmap_idx (x + n) = get_bitmap_idx x + n div page_size"
  unfolding get_bitmap_idx_def page_addr_def
  by (metis Nat.add_diff_assoc2 div_plus_div_distrib_dvd_right)

lemma idx_mono: "x \<le> y \<Longrightarrow> get_bitmap_idx x \<le> get_bitmap_idx y"
  by (simp add: get_bitmap_idx_def div_le_mono)

lemma page_addr_less: "page_addr x \<Longrightarrow> page_addr y \<Longrightarrow> x < y \<Longrightarrow> x + page_size \<le> y"
proof -
  assume "page_addr x" "page_addr y" "x < y"
  then have "page_size dvd y - x" "0 < y - x" by (simp_all add: page_addr_def)
  then have "page_size \<le> y - x" by (intro dvd_imp_le)
  then show ?thesis using \<open>x < y\<close> by linarith
qed

lemma last_idx:
  assumes "block_ok a n"
  shows "get_bitmap_idx a + (n div page_size - 1) = get_bitmap_idx (a + n - page_size)"
proof -
  have "page_size dvd n - page_size" using block_okD(3) [OF assms] by simp
  then have "get_bitmap_idx (a + (n - page_size)) = get_bitmap_idx a + (n - page_size) div page_size"
    by (rule idx_add [OF block_okD(1) [OF assms]])
  moreover have "(n - page_size) div page_size = n div page_size - 1"
    using block_okD(5) [OF assms] le_div_geq [of page_size n] by simp
  ultimately show ?thesis using block_okD(5) [OF assms] by simp
qed

lemma page_bit_set_bits:
  assumes ok: "block_ok pr (psize s pr)" and x: "page_addr x"
  shows "page_bit (set_bits pr v False s) x \<longleftrightarrow>
      (if x = pr \<or> x = pr + psize s pr - page_size then v else page_bit s x)"
    and "page_bit (set_bits pr v True s) x \<longleftrightarrow>
      (if pr \<le> x \<and> x < pr + psize s pr then v else page_bit s x)"
proof -
  note b = block_okD [OF ok]
  show "page_bit (set_bits pr v False s) x \<longleftrightarrow>
      (if x = pr \<or> x = pr + psize s pr - page_size then v else page_bit s x)"
    using idx_inj [OF x b(1)] idx_inj [OF x b(9)]
    unfolding page_bit_def set_bits_def Let_def last_idx [OF ok] by simp
  have "get_bitmap_idx pr \<le> get_bitmap_idx x \<longleftrightarrow> pr \<le> x"
    using idx_mono [of pr x] idx_mono [of x pr] idx_inj [OF x b(1)] by (metis le_antisym nat_le_linear)
  moreover have "get_bitmap_idx x \<le> get_bitmap_idx (pr + psize s pr - page_size) \<longleftrightarrow> x \<le> pr + psize s pr - page_size"
    using idx_mono idx_inj [OF x b(9)] by (metis le_antisym nat_le_linear)
  moreover have "x \<le> pr + psize s pr - page_size \<longleftrightarrow> x < pr + psize s pr"
    using page_addr_less [OF x b(8)] b(5) page_size_pos by linarith
  ultimately show "page_bit (set_bits pr v True s) x \<longleftrightarrow>
      (if pr \<le> x \<and> x < pr + psize s pr then v else page_bit s x)"
    unfolding page_bit_def set_bits_def Let_def last_idx [OF ok] by simp
qed

lemma page_bit_insert:
  assumes "block_ok pr (psize s pr)" and "page_addr x"
  shows "page_bit (pra_insert True pr s) x \<longleftrightarrow>
    (if x = pr \<or> x = pr + psize s pr - page_size then True else page_bit s x)"
  using page_bit_set_bits(1) [OF assms, of True] by (simp add: page_bit_def bitmap_pra_insert)

lemma page_bit_same [simp]:
  "page_bit (new_range a n s) x = page_bit s x" "page_bit (pra_remove a s) x = page_bit s x"
  "page_bit (remove_list i a s) x = page_bit s x" "page_bit (remove_huge a s) x = page_bit s x"
  "page_bit (pra_insert False a s) x = page_bit s x"
  by (simp_all add: page_bit_def bitmap_pra_insert)

section \<open>Carving a block out of a free range\<close>

text \<open>
  What both allocation routines do to the state, without the order in which they do it: the
  free range at \<open>v\<close> loses the block \<open>(r, n)\<close> and leaves a free head and a free tail, either of
  which may be empty.
\<close>

definition carved :: "pra \<Rightarrow> nat \<Rightarrow> nat \<Rightarrow> nat \<Rightarrow> pra \<Rightarrow> bool" where
  "carved s v r n s' \<longleftrightarrow>
     lists_ok s' \<and> bitmap_size s' = bitmap_size s \<and>
     ranges s' = ranges s - {v} \<union> (if v < r then {v} else {}) \<union>
       (if r + n < v + psize s v then {r + n} else {}) \<and>
     (\<forall>a \<in> ranges s - {v}. psize s' a = psize s a) \<and> psize s' r = n \<and>
     (\<forall>e. (e \<noteq> r \<or> v = r) \<and> e \<noteq> v + psize s v \<longrightarrow> ptail s' e = ptail s e) \<and>
     (v < r \<longrightarrow> psize s' v = r - v \<and> ptail s' r = v \<and> page_bit s' v \<and> page_bit s' (r - page_size)) \<and>
     (r + n < v + psize s v \<longrightarrow> psize s' (r + n) = v + psize s v - (r + n) \<and>
        ptail s' (v + psize s v) = r + n \<and> page_bit s' (r + n) \<and> page_bit s' (v + psize s v - page_size)) \<and>
     \<not> page_bit s' r \<and> \<not> page_bit s' (r + n - page_size) \<and>
     (\<forall>x. page_addr x \<and> (x < v \<or> v + psize s v \<le> x) \<longrightarrow> page_bit s' x = page_bit s x)"

definition block_in_range :: "pra \<Rightarrow> nat \<Rightarrow> nat \<Rightarrow> nat \<Rightarrow> bool" where
  "block_in_range s v r n \<longleftrightarrow> v \<in> ranges s \<and> page_addr r \<and> page_size dvd n \<and> 0 < n \<and>
     v \<le> r \<and> r + n \<le> v + psize s v"

lemma block_in_range_pieces:
  assumes geo: "geometry_ok s B" and blk: "block_in_range s v r n"
  shows "block_ok r n" and "v < r \<Longrightarrow> block_ok v (r - v)"
    and "r + n < v + psize s v \<Longrightarrow> block_ok (r + n) (v + psize s v - (r + n))"
    and "in_bitmap s r n" and "in_bitmap s v (r - v)"
    and "r + n < v + psize s v \<Longrightarrow> in_bitmap s (r + n) (v + psize s v - (r + n))"
proof -
  have v: "v \<in> ranges s" "page_addr r" "page_size dvd n" "0 < n" "v \<le> r" "r + n \<le> v + psize s v"
    using blk by (simp_all add: block_in_range_def)
  note b = block_okD [OF geometryD(1) [OF geo v(1)]] and m = geometryD(2) [OF geo v(1)]
  show "block_ok r n" using v b by (simp add: block_ok_def)
  show "block_ok v (r - v)" if "v < r" using that v b by (simp add: block_ok_def page_addr_def)
  show "block_ok (r + n) (v + psize s v - (r + n))" if "r + n < v + psize s v"
    using that v b by (simp add: block_ok_def page_addr_def)
  show "in_bitmap s r n" "in_bitmap s v (r - v)"
    using m v idx_mono [of "r + n" "v + psize s v"] idx_mono [of r "v + psize s v"]
    by (simp_all add: in_bitmap_def)
  show "in_bitmap s (r + n) (v + psize s v - (r + n))" if "r + n < v + psize s v"
    using that m by (simp add: in_bitmap_def)
qed

text \<open>Sizes of the new ranges; every one of them lies inside an old one.\<close>

lemma carved_range_cases:
  assumes "carved s v r n s'" and "a \<in> ranges s'"
  obtains (old) "a \<in> ranges s" "a \<noteq> v" "psize s' a = psize s a"
    | (head) "a = v" "v < r" "psize s' a = r - v"
    | (tail) "a = r + n" "r + n < v + psize s v" "psize s' a = v + psize s v - (r + n)"
  using assms by (auto simp: carved_def split: if_splits)

lemma carved_geometry:
  assumes geo: "geometry_ok s B" and blk: "block_in_range s v r n" and c: "carved s v r n s'"
  shows "geometry_ok s' (insert (r, n) B)"
proof -
  have v: "v \<in> ranges s" "v \<le> r" "r + n \<le> v + psize s v" "0 < n"
    using blk by (simp_all add: block_in_range_def)
  have bm: "in_bitmap s' = in_bitmap s" using c by (simp add: carved_def in_bitmap_def fun_eq_iff)
  note pieces = block_in_range_pieces [OF geo blk]
  have new: "separate a (psize s' a) r n" if "a \<in> ranges s'" for a
    using c that
  proof (cases rule: carved_range_cases)
    case old
    then show ?thesis using geometryD(5) [OF geo old(1) v(1) old(2)] v by (auto simp: separate_def)
  qed (use v in \<open>auto simp: separate_def\<close>)
  have sepB: "separate r n b m" if "(b, m) \<in> B" for b m
    using geometryD(6) [OF geo v(1) that] v by (auto simp: separate_def)
  have oldB: "separate a (psize s' a) b m" if "a \<in> ranges s'" "(b, m) \<in> B" for a b m
    using c that(1)
  proof (cases rule: carved_range_cases)
    case old
    then show ?thesis using geometryD(6) [OF geo old(1) that(2)] by simp
  qed (use geometryD(6) [OF geo v(1) that(2)] v in \<open>auto simp: separate_def\<close>)
  have okR: "block_ok a (psize s' a) \<and> in_bitmap s a (psize s' a)" if "a \<in> ranges s'" for a
    using c that
  proof (cases rule: carved_range_cases)
    case old
    then show ?thesis using geometryD(1,2) [OF geo old(1)] by simp
  qed (use pieces in auto)
  have RR: "separate a (psize s' a) b (psize s' b)" if "a \<in> ranges s'" "b \<in> ranges s'" "a \<noteq> b" for a b
  proof -
    have o: "separate a (psize s a) b (psize s b)" if "a \<in> ranges s" "b \<in> ranges s" "a \<noteq> b" for a b
      using geometryD(5) [OF geo that] .
    show ?thesis
      using c that(1)
    proof (cases rule: carved_range_cases)
      case a: old
      show ?thesis
        using c that(2)
        by (cases rule: carved_range_cases)
          (use a o [OF a(1) _ \<open>a \<noteq> b\<close>] o [OF a(1) v(1) a(2)] v in \<open>auto simp: separate_def\<close>)
    next
      case a: head
      show ?thesis
        using c that(2)
        by (cases rule: carved_range_cases)
          (use a o [OF v(1), of b] \<open>a \<noteq> b\<close> v in \<open>auto simp: separate_def\<close>)
    next
      case a: tail
      show ?thesis
        using c that(2)
        by (cases rule: carved_range_cases)
          (use a o [OF v(1), of b] \<open>a \<noteq> b\<close> v in \<open>auto simp: separate_def\<close>)
    qed
  qed
  have sym: "separate b m r n" if "separate r n b m" for b m using that by (auto simp: separate_def)
  show ?thesis
    unfolding geometry_ok_def bm
    using okR new sepB sym oldB RR pieces(1,4) geometryD(3,4,7) [OF geo] by auto
qed

lemma carvedD:
  assumes "carved s v r n s'"
  shows "a \<in> ranges s \<Longrightarrow> a \<noteq> v \<Longrightarrow> a \<in> ranges s' \<and> psize s' a = psize s a"
    and "v < r \<Longrightarrow> v \<in> ranges s' \<and> psize s' v = r - v \<and> ptail s' r = v \<and> page_bit s' v \<and>
      page_bit s' (r - page_size)"
    and "r + n < v + psize s v \<Longrightarrow> r + n \<in> ranges s' \<and> psize s' (r + n) = v + psize s v - (r + n) \<and>
      ptail s' (v + psize s v) = r + n \<and> page_bit s' (r + n) \<and> page_bit s' (v + psize s v - page_size)"
    and "\<not> page_bit s' r" and "\<not> page_bit s' (r + n - page_size)"
    and "e \<noteq> r \<or> v = r \<Longrightarrow> e \<noteq> v + psize s v \<Longrightarrow> ptail s' e = ptail s e"
    and "page_addr x \<Longrightarrow> x < v \<or> v + psize s v \<le> x \<Longrightarrow> page_bit s' x = page_bit s x"
  using assms by (simp_all add: carved_def)

lemma inside_freeI: "a \<in> ranges s \<Longrightarrow> a \<le> x \<Longrightarrow> x < a + psize s a \<Longrightarrow> inside_free s x"
  by (auto simp: inside_free_def)

lemma inside_blockI: "(b, m) \<in> B \<Longrightarrow> b < x \<Longrightarrow> x + page_size < b + m \<Longrightarrow> inside_block B x"
  by (auto simp: inside_block_def)

lemma inside_block_mono: "inside_block B x \<Longrightarrow> B \<subseteq> B' \<Longrightarrow> inside_block B' x"
  by (auto simp: inside_block_def)

text \<open>Every page whose bit is set after the cut is free or inside a block.\<close>

lemma carved_inside:
  assumes geo: "geometry_ok s B" and tags: "tags_ok s B" and blk: "block_in_range s v r n"
    and c: "carved s v r n s'" and x: "page_addr x" "page_bit s' x"
  shows "inside_free s' x \<or> inside_block (insert (r, n) B) x"
proof -
  have v: "v \<in> ranges s" "v \<le> r" "r + n \<le> v + psize s v"
    using blk by (simp_all add: block_in_range_def)
  consider "x < v \<or> v + psize s v \<le> x" | "v \<le> x" "x < r" | "r + n \<le> x" "x < v + psize s v"
    | "r \<le> x" "x < r + n" by linarith
  then show ?thesis
  proof cases
    case 1
    then have "inside_free s x \<or> inside_block B x"
      using carvedD(7) [OF c x(1) 1] x(2) tagsD(4) [OF tags x(1)] by simp
    then show ?thesis
    proof
      assume "inside_free s x"
      then obtain a where a: "a \<in> ranges s" "a \<le> x" "x < a + psize s a" unfolding inside_free_def by blast
      then have "a \<noteq> v" using 1 by auto
      with a carvedD(1) [OF c a(1)] show ?thesis using inside_freeI [of a s' x] by simp
    qed (simp add: inside_block_mono [OF _ subset_insertI])
  next
    case 2
    then show ?thesis using carvedD(2) [OF c] inside_freeI [of v s' x] by simp
  next
    case 3
    then show ?thesis using carvedD(3) [OF c] inside_freeI [of "r + n" s' x] by simp
  next
    case 4
    note b = block_okD [OF block_in_range_pieces(1) [OF geo blk]]
    have "x \<noteq> r" "x \<noteq> r + n - page_size" using carvedD(4,5) [OF c] x(2) by auto
    moreover have "x + page_size \<le> r + n" using page_addr_less [OF x(1) b(8) 4(2)] .
    ultimately have "r < x" "x + page_size < r + n" using 4(1) b(5) by linarith+
    then show ?thesis using inside_blockI [of r n "insert (r, n) B" x] by simp
  qed
qed

lemma carved_tags:
  assumes geo: "geometry_ok s B" and tags: "tags_ok s B" and blk: "block_in_range s v r n"
    and c: "carved s v r n s'"
  shows "tags_ok s' (insert (r, n) B)"
proof -
  have v: "v \<in> ranges s" "v \<le> r" "r + n \<le> v + psize s v" "0 < n"
    using blk by (simp_all add: block_in_range_def)
  have "ptail s' (a + psize s' a) = a \<and> page_bit s' a \<and> page_bit s' (a + psize s' a - page_size)"
    if "a \<in> ranges s'" for a
    using c that
  proof (cases rule: carved_range_cases)
    case old
    note sep = geometryD(5) [OF geo old(1) v(1) old(2)] and b = block_okD [OF geometryD(1) [OF geo old(1)]]
    have "a + psize s a \<noteq> v + psize s v" "a + psize s a \<noteq> r \<or> v = r"
      using sep v block_okD(6) [OF geometryD(1) [OF geo v(1)]] b(6) unfolding separate_def by linarith+
    then have "ptail s' (a + psize s a) = ptail s (a + psize s a)" using carvedD(6) [OF c] by blast
    moreover have "a < v \<or> v + psize s v \<le> a"
      using sep b(6) unfolding separate_def by linarith
    then have "page_bit s' a = page_bit s a" by (rule carvedD(7) [OF c b(1)])
    moreover have "a + psize s a - page_size < v \<or> v + psize s v \<le> a + psize s a - page_size"
      using sep b(5) page_size_pos unfolding separate_def by linarith
    then have "page_bit s' (a + psize s a - page_size) = page_bit s (a + psize s a - page_size)"
      by (rule carvedD(7) [OF c b(9)])
    ultimately show ?thesis using tagsD(1-3) [OF tags old(1)] old(3) by simp
  next
    case head
    then show ?thesis using carvedD(2) [OF c] by simp
  next
    case tail
    then show ?thesis using carvedD(3) [OF c] by simp
  qed
  then show ?thesis
    using carved_inside [OF geo tags blk c] by (simp add: tags_ok_def)
qed

lemma carved_coalesced:
  assumes geo: "geometry_ok s B" and co: "coalesced s" and blk: "block_in_range s v r n"
    and c: "carved s v r n s'"
  shows "coalesced s'"
proof -
  have v: "v \<in> ranges s" "v \<le> r" "r + n \<le> v + psize s v" "0 < n"
    using blk by (simp_all add: block_in_range_def)
  have cs: "a + psize s a \<notin> ranges s" if "a \<in> ranges s" for a using co that by (simp add: coalesced_def)
  have pos: "0 < psize s a" if "a \<in> ranges s" for a using block_okD(6) [OF geometryD(1) [OF geo that]] .
  have sepv: "separate a (psize s a) v (psize s v)" if "a \<in> ranges s" "a \<noteq> v" for a
    using geometryD(5) [OF geo that(1) v(1) that(2)] .
  have "a + psize s' a \<noteq> b" if a: "a \<in> ranges s'" and b: "b \<in> ranges s'" for a b
    using c a
  proof (cases rule: carved_range_cases)
    case old
    show ?thesis
      using c b
      by (cases rule: carved_range_cases)
        (use old cs [OF old(1)] sepv [OF old(1,2)] pos v in \<open>auto simp: separate_def\<close>)
  next
    case head
    show ?thesis
      using c b
      by (cases rule: carved_range_cases)
        (use head sepv [of b] pos [of b] v in \<open>auto simp: separate_def\<close>)
  next
    case tail
    show ?thesis
      using c b
      by (cases rule: carved_range_cases)
        (use tail cs [OF v(1)] sepv [of b] pos v in \<open>auto simp: separate_def\<close>)
  qed
  then show ?thesis by (auto simp: coalesced_def)
qed

lemma carved_inv:
  assumes "pra_inv s B" and "block_in_range s v r n" and "carved s v r n s'"
  shows "pra_inv s' (insert (r, n) B)"
  unfolding pra_inv_def
  using carved_geometry [OF pra_invD(2) [OF assms(1)] assms(2,3)]
    carved_tags [OF pra_invD(2,3) [OF assms(1)] assms(2,3)]
    carved_coalesced [OF pra_invD(2,4) [OF assms(1)] assms(2,3)] assms(3)
  by (simp add: carved_def)

section \<open>Choosing a range\<close>

lemma page_order_bounds:
  assumes "block_ok a n" and "psize s a = n"
  shows "2 ^ pr_order s a * page_size \<le> n" and "n < 2 ^ Suc (pr_order s a) * page_size"
proof -
  note b = block_okD [OF assms(1)]
  obtain k where k: "n = page_size * k" using b(3) by (rule dvdE)
  have "0 < k" using b(6) k by (cases k) auto
  have "k \<le> n" using k by (simp add: page_size_def)
  then have "k < 2 ^ 64" using b(7) by (simp add: phys_mem_eq mem_area_size_def)
  note il = ilog2_bounds [OF \<open>0 < k\<close> this]
  have ord: "pr_order s a = ilog2 k" using k by (simp add: pr_order_def assms(2))
  show "2 ^ pr_order s a * page_size \<le> n" using il(1) unfolding ord k by (simp add: mult.commute)
  show "n < 2 ^ Suc (pr_order s a) * page_size" using il(2) unfolding ord k by (simp add: mult.commute)
qed

definition exact_order :: "nat \<Rightarrow> nat" where
  "exact_order sz = min (ilog2_roundup (sz div page_size)) max_order"

definition request_ok :: "nat \<Rightarrow> bool" where
  "request_ok sz \<longleftrightarrow> page_size dvd sz \<and> 0 < sz \<and> sz < 2 ^ 64"

lemma exact_order_le_iff:
  assumes "request_ok sz" and "j < max_order"
  shows "exact_order sz \<le> j \<longleftrightarrow> sz \<le> 2 ^ j * page_size"
proof -
  obtain k where k: "sz = page_size * k" using assms(1) by (auto simp: request_ok_def)
  have "k \<le> sz" using k by (simp add: page_size_def)
  then have "k < 2 ^ 64" using assms(1) unfolding request_ok_def by linarith
  then show ?thesis
    using assms(2) k by (auto simp: exact_order_def min_le_iff_disj ilog2_roundup_le_iff mult.commute)
qed

lemma range_fits:
  assumes "geometry_ok s B" and "a \<in> ranges s" and "request_ok sz"
    and "exact_order sz \<le> pr_order s a" and "pr_order s a < max_order"
  shows "sz \<le> psize s a"
  using page_order_bounds(1) [OF geometryD(1) [OF assms(1,2)] refl]
    exact_order_le_iff [OF assms(3,5)] assms(4) by linarith

lemma range_too_small:
  assumes "geometry_ok s B" and "a \<in> ranges s" and "request_ok sz"
    and "pr_order s a < max_order" and "Suc (pr_order s a) < exact_order sz"
  shows "psize s a < sz"
proof (cases "Suc (pr_order s a) < max_order")
  case True
  then show ?thesis
    using page_order_bounds(2) [OF geometryD(1) [OF assms(1,2)] refl]
      exact_order_le_iff [OF assms(3) True] assms(5) by linarith
next
  case False
  then show ?thesis using assms(4,5) by (simp add: exact_order_def)
qed

lemma bit_orders:
  "bit (if e \<noteq> 0 then w AND NOT (mask e) else w) j \<longleftrightarrow> bit w j \<and> e \<le> j" for w :: u64
  by (auto simp: bit_and_iff bit_not_iff bit_mask_iff dest: bit_imp_le_length)

definition orders_from :: "pra \<Rightarrow> nat \<Rightarrow> u64" where
  "orders_from s e = (if e \<noteq> 0 then not_empty s AND NOT (mask e) else not_empty s)"

lemma bit_orders_from: "bit (orders_from s e) j \<longleftrightarrow> bit (not_empty s) j \<and> e \<le> j"
  unfolding orders_from_def by (rule bit_orders)

lemma orders_from_zero:
  assumes "lists_ok s" and "orders_from s e = 0" and "a \<in> ranges s"
  shows "min (pr_order s a) max_order < e"
proof -
  have no: "\<not> (bit (not_empty s) j \<and> e \<le> j)" for j
    using bit_orders_from [of s e j] assms(2) by simp
  show ?thesis
  proof (cases "max_order \<le> pr_order s a")
    case True
    then have "free_huge s \<noteq> []" using ranges_slot(1) [OF assms(1,3)] by auto
    then show ?thesis using no [of max_order] lists_okD(7) [OF assms(1)] True by auto
  next
    case False
    then have "free_lists s (pr_order s a) \<noteq> []" using ranges_slot(2) [OF assms(1,3)] by force
    then show ?thesis using no [of "pr_order s a"] lists_okD(6) [OF assms(1)] False by auto
  qed
qed

lemma orders_from_first:
  assumes "lists_ok s" and "orders_from s e \<noteq> 0" and "k = count_trailing_zeros (unat (orders_from s e))"
  shows "e \<le> k" and "k \<le> max_order" and "bit (not_empty s) k"
    and "k = max_order \<Longrightarrow> a \<in> ranges s \<Longrightarrow> max_order \<le> pr_order s a \<or> pr_order s a < e"
proof -
  note low = get_first_set_lowest [OF assms(2), unfolded get_first_set_def, folded assms(3)]
  note bits = bit_orders_from [of s e]
  show "e \<le> k" "bit (not_empty s) k" using low(1) by (simp_all add: bits)
  then show "k \<le> max_order" using lists_okD(8) [OF assms(1)] by (meson not_le)
  show "max_order \<le> pr_order s a \<or> pr_order s a < e" if "k = max_order" "a \<in> ranges s"
  proof (rule ccontr)
    assume neg: "\<not> (max_order \<le> pr_order s a \<or> pr_order s a < e)"
    then have "free_lists s (pr_order s a) \<noteq> []" using ranges_slot(2) [OF assms(1) that(2)] by force
    then have "bit (orders_from s e) (pr_order s a)" using neg lists_okD(6) [OF assms(1)] by (simp add: bits)
    moreover have "pr_order s a < k" using neg that(1) by simp
    ultimately show False using low(2) by blast
  qed
qed

lemma pra_take_unfold:
  "pra_take sz contiguous s =
     (let e = exact_order sz; order = count_trailing_zeros (unat (orders_from s e)) in
        if orders_from s e = 0 then
          (if \<not> contiguous \<or> e = 0 \<or> free_lists s (e - 1) = [] then None
           else
             (case find (\<lambda>pr. sz \<le> psize s pr) (free_lists s (e - 1)) of
                None \<Rightarrow> None
              | Some pr \<Rightarrow> Some (pr, remove_list (e - 1) pr s)))
        else if order = max_order then
          (let pr = last (free_huge s) in
             if psize s pr < sz then None else Some (pr, remove_huge pr s))
        else
          (let pr = hd (free_lists s order) in Some (pr, remove_list order pr s)))"
  by (simp add: pra_take_def exact_order_def orders_from_def Let_def)

definition same_but_lists :: "pra \<Rightarrow> pra \<Rightarrow> bool" where
  "same_but_lists s s' \<longleftrightarrow> psize s' = psize s \<and> ptail s' = ptail s \<and> bitmap s' = bitmap s \<and>
     bitmap_size s' = bitmap_size s \<and> deferred_free s' = deferred_free s"

lemma same_but_lists_removes [simp]:
  "same_but_lists s (remove_list i a s)" "same_but_lists s (remove_huge a s)"
  "same_but_lists s (pra_remove a s)"
  by (simp_all add: same_but_lists_def)

text \<open>A range that is taken is large enough, and is out of the containers afterwards.\<close>

lemma pra_take_Some:
  assumes ok: "lists_ok s" and geo: "geometry_ok s B" and req: "request_ok sz"
    and take: "pra_take sz contiguous s = Some (pr, s')"
  shows "pr \<in> ranges s" and "sz \<le> psize s pr" and "lists_ok s'" and "ranges s' = ranges s - {pr}"
    and "same_but_lists s s'"
proof -
  let ?e = "exact_order sz" and ?k = "count_trailing_zeros (unat (orders_from s (exact_order sz)))"
  have goal: "pr \<in> ranges s \<and> sz \<le> psize s pr \<and> lists_ok s' \<and> ranges s' = ranges s - {pr} \<and> same_but_lists s s'"
  proof (cases "orders_from s ?e = 0")
    case True
    then have e: "?e \<noteq> 0" and f: "find (\<lambda>pr. sz \<le> psize s pr) (free_lists s (?e - 1)) = Some pr"
      and s': "s' = remove_list (?e - 1) pr s"
      using take by (auto simp: pra_take_unfold Let_def split: if_splits option.splits)
    have "?e - 1 < max_order" using e by (simp add: exact_order_def max_order_def)
    moreover have "pr \<in> set (free_lists s (?e - 1))" "sz \<le> psize s pr" using find_SomeD [OF f] by auto
    ultimately show ?thesis
      using remove_list_ok [OF ok] s' by (auto simp: in_ranges_iff)
  next
    case False
    note first = orders_from_first [OF ok False refl]
    show ?thesis
    proof (cases "?k = max_order")
      case True
      then have pr: "pr = last (free_huge s)" "sz \<le> psize s pr" "s' = remove_huge pr s"
        using take False by (auto simp: pra_take_unfold Let_def split: if_splits)
      have "free_huge s \<noteq> []" using first(3) True lists_okD(7) [OF ok] by simp
      then have "pr \<in> set (free_huge s)" using pr(1) by simp
      then show ?thesis using remove_huge_ok [OF ok] pr by (auto simp: in_ranges_iff)
    next
      case False': False
      then have lt: "?k < max_order" using first(2) by simp
      have pr: "pr = hd (free_lists s ?k)" "s' = remove_list ?k pr s"
        using take False False' by (auto simp: pra_take_unfold Let_def)
      have "free_lists s ?k \<noteq> []" using first(3) lists_okD(6) [OF ok lt] by simp
      then have mem: "pr \<in> set (free_lists s ?k)" using pr(1) by simp
      then have r: "pr \<in> ranges s" using lt by (auto simp: in_ranges_iff)
      have "pr_order s pr = ?k" using lists_okD(2) [OF ok lt mem] .
      then have "sz \<le> psize s pr" using range_fits [OF geo r req] first(1) lt by simp
      then show ?thesis using remove_list_ok [OF ok lt mem] pr(2) r by simp
    qed
  qed
  then show "pr \<in> ranges s" and "sz \<le> psize s pr" and "lists_ok s'" and "ranges s' = ranges s - {pr}"
    and "same_but_lists s s'" by simp_all
qed

text \<open>A contiguous request fails only when no free range is large enough.\<close>

lemma pra_take_None:
  assumes ok: "lists_ok s" and geo: "geometry_ok s B" and req: "request_ok sz"
    and take: "pra_take sz True s = None" and a: "a \<in> ranges s"
  shows "psize s a < sz"
proof -
  let ?e = "exact_order sz"
  let ?k = "count_trailing_zeros (unat (orders_from s ?e))"
  show ?thesis
  proof (cases "orders_from s ?e = 0")
    case True
    have lt: "pr_order s a < ?e" "pr_order s a < max_order"
      using orders_from_zero [OF ok True a] by (auto simp: exact_order_def)
    show ?thesis
    proof (cases "pr_order s a = ?e - 1")
      case True': True
      have mem: "a \<in> set (free_lists s (?e - 1))" using ranges_slot(2) [OF ok a lt(2)] True' by simp
      then have "find (\<lambda>pr. sz \<le> psize s pr) (free_lists s (?e - 1)) = None"
        using take True lt(1) by (force simp: pra_take_unfold Let_def split: if_splits option.splits)
      then show ?thesis using mem by (auto simp: find_None_iff_Ball)
    next
      case False
      then show ?thesis using range_too_small [OF geo a req lt(2)] lt(1) by linarith
    qed
  next
    case False
    note first = orders_from_first [OF ok False refl]
    have k: "?k = max_order" and small: "psize s (last (free_huge s)) < sz"
      using take False by (auto simp: pra_take_unfold Let_def split: if_splits)
    have "free_huge s \<noteq> []" using first(3) k lists_okD(7) [OF ok] by simp
    show ?thesis
    proof (cases "max_order \<le> pr_order s a")
      case True
      then have "a \<in> set (free_huge s)" by (rule ranges_slot(1) [OF ok a])
      then have "psize s a \<le> psize s (last (free_huge s))"
        using lists_okD(5) [OF ok] \<open>free_huge s \<noteq> []\<close> by (rule sorted_map_last)
      then show ?thesis using small by simp
    next
      case False
      have "page_size dvd psize s a" using block_okD(3) [OF geometryD(1) [OF geo a]] .
      have "2 ^ max_order * page_size \<le> psize s (last (free_huge s))"
      proof -
        have l: "last (free_huge s) \<in> ranges s" "max_order \<le> pr_order s (last (free_huge s))"
          using \<open>free_huge s \<noteq> []\<close> lists_okD(1) [OF ok] by (auto simp: in_ranges_iff)
        have "(2::nat) ^ max_order \<le> 2 ^ pr_order s (last (free_huge s))" using l(2) by simp
        then have "2 ^ max_order * page_size \<le> 2 ^ pr_order s (last (free_huge s)) * page_size" by (rule mult_le_mono1)
        with page_order_bounds(1) [OF geometryD(1) [OF geo l(1)] refl] show ?thesis by (rule le_trans [rotated])
      qed
      moreover have "(2::nat) ^ Suc (pr_order s a) * page_size \<le> 2 ^ max_order * page_size"
        using False by (intro mult_le_mono1 power_increasing) auto
      ultimately show ?thesis
        using page_order_bounds(2) [OF geometryD(1) [OF geo a] refl] small by linarith
    qed
  qed
qed

section \<open>Allocation keeps the invariant\<close>

text \<open>An address strictly inside a free range is not the start of another.\<close>

lemma inside_not_range:
  assumes geo: "geometry_ok s B" and "v \<in> ranges s" and "v < x" and "x < v + psize s v"
  shows "x \<notin> ranges s"
proof
  assume x: "x \<in> ranges s"
  have "separate v (psize s v) x (psize s x)"
    using geometryD(5) [OF geo assms(2) x] assms(3) by simp
  then show False using assms(3,4) by (simp add: separate_def)
qed

text \<open>
  The first cut, common to both routines: the range at \<open>v\<close>, already out of the containers,
  is shortened to \<open>m\<close> bytes and the rest becomes a free range of its own.
\<close>

definition split_tail :: "nat \<Rightarrow> nat \<Rightarrow> pra \<Rightarrow> pra" where
  "split_tail v m s =
     (if m < psize s v
      then new_range v m (pra_insert True (v + m) (new_range (v + m) (psize s v - m) s)) else s)"

definition tail_split :: "pra \<Rightarrow> nat \<Rightarrow> nat \<Rightarrow> pra \<Rightarrow> bool" where
  "tail_split s v m s' \<longleftrightarrow> lists_ok s' \<and> bitmap_size s' = bitmap_size s \<and>
     ranges s' = ranges s - {v} \<union> (if m < psize s v then {v + m} else {}) \<and>
     psize s' v = m \<and> (\<forall>a \<in> ranges s - {v}. psize s' a = psize s a) \<and>
     (m < psize s v \<longrightarrow> psize s' (v + m) = psize s v - m \<and> ptail s' (v + psize s v) = v + m) \<and>
     (\<forall>e. e \<noteq> v + psize s v \<longrightarrow> ptail s' e = ptail s e) \<and>
     (\<forall>x. page_addr x \<longrightarrow> (page_bit s' x \<longleftrightarrow>
        m < psize s v \<and> (x = v + m \<or> x = v + psize s v - page_size) \<or> page_bit s x))"

lemma split_tail_ok:
  assumes geo: "geometry_ok s B" and v: "v \<in> ranges s" and s1: "lists_ok s1" "ranges s1 = ranges s - {v}"
    "same_but_lists s s1" and m: "page_size dvd m" "0 < m" "m \<le> psize s v"
  shows "tail_split s v m (split_tail v m s1)"
proof (cases "m < psize s v")
  case False
  then show ?thesis
    using s1 m by (simp add: split_tail_def tail_split_def same_but_lists_def page_bit_def)
next
  case True
  note fr = s1(3) [unfolded same_but_lists_def]
  note b = block_okD [OF geometryD(1) [OF geo v]]
  let ?s2 = "new_range (v + m) (psize s v - m) s1" and ?t = "v + m"
  have nt: "?t \<notin> ranges s" using inside_not_range [OF geo v] m True by simp
  have eq: "split_tail v m s1 = new_range v m (pra_insert True ?t ?s2)" using True fr by (simp add: split_tail_def)
  have "lists_ok (pra_insert True ?t ?s2)"
    using s1 nt by (intro lists_ok_insert lists_ok_new_range) simp_all
  then have "lists_ok (split_tail v m s1)"
    unfolding eq using m s1(2) by (intro lists_ok_new_range) (simp_all add: ranges_insert)
  moreover have "block_ok ?t (psize ?s2 ?t)" using b m True by (simp add: block_ok_def page_addr_def)
  then have "page_bit (split_tail v m s1) x \<longleftrightarrow> x = v + m \<or> x = v + psize s v - page_size \<or> page_bit s x"
    if "page_addr x" for x
    unfolding eq using page_bit_insert [of ?t ?s2 x] that True fr by (simp add: page_bit_def)
  moreover have "ranges (split_tail v m s1) = insert ?t (ranges s - {v})"
    using s1(2) by (simp add: eq ranges_insert)
  ultimately show ?thesis
    using True fr nt m(2) by (auto simp: tail_split_def eq)
qed

text \<open>The second cut: the block is the end of what is left; a non-empty rest goes back.\<close>

definition split_head :: "nat \<Rightarrow> nat \<Rightarrow> nat \<Rightarrow> pra \<Rightarrow> pra" where
  "split_head v r n s = (if v = r then s else new_range r n (pra_insert True v (new_range v (r - v) s)))"

lemma split_head_carved:
  assumes geo: "geometry_ok s B" and blk: "block_in_range s v r n"
    and ts: "tail_split s v (r + n - v) s2" and s'_def: "s' = set_bits r False fill (split_head v r n s2)"
  shows "carved s v r n s'"
    and "fill \<Longrightarrow> page_addr x \<Longrightarrow> r \<le> x \<Longrightarrow> x < r + n \<Longrightarrow> \<not> page_bit s' x"
proof -
  let ?N = "psize s v" and ?s3 = "split_head v r n s2"
  have v: "v \<in> ranges s" "v \<le> r" "r + n \<le> v + ?N" "0 < n" "page_addr r"
    using blk by (simp_all add: block_in_range_def)
  note pieces = block_in_range_pieces [OF geo blk]
  note t = ts [unfolded tail_split_def]
  have vm: "v + (r + n - v) = r + n" using v by simp
  have tl: "r + n - v < ?N \<longleftrightarrow> r + n < v + ?N" using v by auto
  have nr: "r \<notin> ranges s" if "v \<noteq> r" using inside_not_range [OF geo v(1), of r] v that by simp
  have r2: "ranges s2 = ranges s - {v} \<union> (if r + n < v + ?N then {r + n} else {})"
    using t unfolding vm tl by simp
  have l3: "lists_ok ?s3 \<and> ranges ?s3 = ranges s2 \<union> (if v < r then {v} else {})"
  proof (cases "v = r")
    case False
    have nv: "v \<notin> ranges s2" "r \<notin> insert v (ranges s2)" using r2 v nr [OF False] False by (auto split: if_splits)
    have "lists_ok (pra_insert True v (new_range v (r - v) s2))"
      using t nv by (intro lists_ok_insert lists_ok_new_range) simp_all
    then have "lists_ok ?s3"
      using nv False unfolding split_head_def by (auto intro!: lists_ok_new_range simp: ranges_insert)
    then show ?thesis using False v by (simp add: split_head_def ranges_insert)
  qed (use t in \<open>simp add: split_head_def\<close>)
  have sz3: "psize ?s3 r = n" "v < r \<Longrightarrow> psize ?s3 v = r - v"
    "a \<noteq> v \<Longrightarrow> a \<noteq> r \<Longrightarrow> psize ?s3 a = psize s2 a" for a
    using t by (auto simp: split_head_def)
  have t3: "ptail ?s3 = (if v = r then ptail s2 else (ptail s2)(r := v))"
    using v by (simp add: split_head_def)
  have b3: "page_bit ?s3 x \<longleftrightarrow> v < r \<and> (x = v \<or> x = r - page_size) \<or> page_bit s2 x" if "page_addr x" for x
  proof (cases "v = r")
    case False
    then show ?thesis
      using page_bit_insert [of v "new_range v (r - v) s2" x] pieces(2) v that by (simp add: split_head_def)
  qed (simp add: split_head_def)
  have rok: "block_ok r (psize ?s3 r)" using pieces(1) sz3(1) by simp
  have lastp: "r \<le> r + n - page_size" "r + n - page_size < r + n"
    using block_okD(5) [OF pieces(1)] page_size_pos v(4) by linarith+
  have keep: "page_bit s' x = page_bit ?s3 x" if "page_addr x" "x < r \<or> r + n \<le> x" for x
  proof -
    have "x \<noteq> r" "x \<noteq> r + n - page_size" "\<not> (r \<le> x \<and> x < r + n)" using that(2) lastp v(4) by linarith+
    then show ?thesis
      using page_bit_set_bits [OF rok that(1), of False] unfolding s'_def by (cases fill) (auto simp: sz3)
  qed
  have cleared: "\<not> page_bit s' r" "\<not> page_bit s' (r + n - page_size)"
    using page_bit_set_bits [OF rok, of r False] page_bit_set_bits [OF rok, of "r + n - page_size" False]
      block_okD(1,9) [OF pieces(1)] lastp v(4) unfolding s'_def by (cases fill; simp add: sz3)+
  show "\<not> page_bit s' x" if "fill" "page_addr x" "r \<le> x" "x < r + n"
    using page_bit_set_bits(2) [OF rok that(2), of False] that by (simp add: s'_def sz3)
  show "carved s v r n s'"
    unfolding carved_def
  proof (intro conjI)
    show "lists_ok s'" "bitmap_size s' = bitmap_size s" "psize s' r = n"
      using l3 t sz3(1) by (simp_all add: s'_def split_head_def)
    show "ranges s' = ranges s - {v} \<union> (if v < r then {v} else {}) \<union> (if r + n < v + ?N then {r + n} else {})"
      using l3 r2 by (auto simp: s'_def)
    show "\<forall>a \<in> ranges s - {v}. psize s' a = psize s a"
    proof
      fix a assume a: "a \<in> ranges s - {v}"
      then have "a \<noteq> v" "a \<noteq> r" using nr by auto
      then show "psize s' a = psize s a" using sz3(3) [of a] t a by (simp add: s'_def)
    qed
    show "\<forall>e. (e \<noteq> r \<or> v = r) \<and> e \<noteq> v + ?N \<longrightarrow> ptail s' e = ptail s e"
      using t by (auto simp: s'_def t3)
    show "\<not> page_bit s' r" "\<not> page_bit s' (r + n - page_size)" by (rule cleared)+
    show "v < r \<longrightarrow> psize s' v = r - v \<and> ptail s' r = v \<and> page_bit s' v \<and> page_bit s' (r - page_size)"
    proof
      assume "v < r"
      note hb = block_okD [OF pieces(2) [OF \<open>v < r\<close>]]
      have pa: "page_addr v" "page_addr (r - page_size)" "r - page_size < r"
        using hb(1,9) v(2) \<open>v < r\<close> page_size_pos by (simp_all add: )
      then show "psize s' v = r - v \<and> ptail s' r = v \<and> page_bit s' v \<and> page_bit s' (r - page_size)"
        using keep [of v] keep [of "r - page_size"] b3 sz3(2) t3 \<open>v < r\<close> by (simp add: s'_def)
    qed
    show "r + n < v + ?N \<longrightarrow> psize s' (r + n) = v + ?N - (r + n) \<and> ptail s' (v + ?N) = r + n \<and>
        page_bit s' (r + n) \<and> page_bit s' (v + ?N - page_size)"
    proof
      assume tail: "r + n < v + ?N"
      note tb = block_okD [OF pieces(3) [OF tail]]
      have pa: "page_addr (r + n)" "page_addr (v + ?N - page_size)" "r + n \<le> v + ?N - page_size"
        using tb(1,5,9) tail by (simp_all add: )
      have "page_bit s2 (r + n)" "page_bit s2 (v + ?N - page_size)"
        using t pa tail unfolding vm tl by blast+
      then show "psize s' (r + n) = v + ?N - (r + n) \<and> ptail s' (v + ?N) = r + n \<and>
          page_bit s' (r + n) \<and> page_bit s' (v + ?N - page_size)"
        using keep [OF pa(1)] keep [OF pa(2)] b3 [OF pa(1)] b3 [OF pa(2)] pa(3) tail t sz3(3) [of "r + n"] v t3
        unfolding vm tl by (auto simp: s'_def add.commute)
    qed
    show "\<forall>x. page_addr x \<and> (x < v \<or> v + ?N \<le> x) \<longrightarrow> page_bit s' x = page_bit s x"
    proof (intro allI impI)
      fix x assume x: "page_addr x \<and> (x < v \<or> v + ?N \<le> x)"
      then have "page_bit s' x = page_bit ?s3 x" using v by (intro keep) auto
      moreover have "\<not> (v < r \<and> (x = v \<or> x = r - page_size))"
        using block_okD(5) [OF pieces(2)] x v block_okD(6) [OF geometryD(1) [OF geo v(1)]] by auto
      then have "page_bit ?s3 x = page_bit s2 x" using b3 [of x] x by blast
      moreover have "page_bit s2 x = page_bit s x"
      proof -
        have "\<not> (r + n < v + ?N \<and> (x = r + n \<or> x = v + ?N - page_size))"
          using block_okD(5) [OF pieces(3)] x v page_size_pos by linarith
        then show ?thesis using t x unfolding vm tl by blast
      qed
      ultimately show "page_bit s' x = page_bit s x" by simp
    qed
  qed
qed

lemma pra_alloc_carved:
  assumes geo: "geometry_ok s B" and ok: "lists_ok s" and req: "request_ok sz"
    and al: "pra_alloc True sz contiguous s = (Some pr, s')"
  shows "block_in_range s pr pr sz" and "carved s pr pr sz s'"
proof -
  obtain s1 where take: "pra_take sz contiguous s = Some (pr, s1)"
    using al by (auto simp: pra_alloc_def Let_def split: option.splits)
  note t = pra_take_Some [OF ok geo req take]
  show blk: "block_in_range s pr pr sz"
    using t(1,2) req block_okD(1) [OF geometryD(1) [OF geo t(1)]]
    by (simp add: block_in_range_def request_ok_def)
  have "tail_split s pr (pr + sz - pr) (split_tail pr sz s1)"
    using split_tail_ok [OF geo t(1) t(3,4,5)] req t(2) by (simp add: request_ok_def)
  moreover have "s' = set_bits pr False False (split_head pr pr sz (split_tail pr sz s1))"
    using al take by (simp add: pra_alloc_def Let_def split_tail_def split_head_def)
  ultimately show "carved s pr pr sz s'"
    by (rule split_head_carved(1) [OF geo blk])
qed

text \<open>The aligned allocation takes the highest suitable place of the range.\<close>

lemma carve_aligned_eq:
  assumes "v \<le> r" and "0 < n" and "r + n + shift = v + psize s v"
  shows "carve_aligned n shift fill v s =
    (r, set_bits r False fill (split_head v r n (split_tail v (r + n - v) (pra_remove v s))))"
proof -
  let ?s1 = "pra_remove v s"
  have N: "psize s v - shift = r + n - v" "v + psize s v - shift = r + n" "psize s v - (r + n - v) = shift"
    and lt: "r + n - v < psize s v \<longleftrightarrow> shift \<noteq> 0" and vm: "v + (r + n - v) = r + n"
    using assms by linarith+
  have tail: "(if shift \<noteq> 0 then
       (let tail = v + psize ?s1 v - shift in
          new_range v (psize ?s1 v - shift) (pra_insert True tail (new_range tail shift ?s1)))
       else ?s1) = split_tail v (r + n - v) ?s1" (is "?s2 = _")
    using N lt vm by (simp add: split_tail_def Let_def)
  have p2: "psize ?s2 v = r + n - v"
    using N lt assms by (auto simp: Let_def)
  have "(if psize ?s2 v = n then (v, ?s2)
       else (let s4 = pra_insert True v (new_range v (psize ?s2 v - n) ?s2); r = v + psize s4 v in
               (r, new_range r n s4))) = (r, split_head v r n ?s2)"
    using assms p2 by (auto simp: split_head_def Let_def)
  then show ?thesis
    unfolding carve_aligned_def Let_def [of ?s1] tail by (simp add: Let_def)
qed

definition align_request_ok :: "nat \<Rightarrow> nat \<Rightarrow> nat \<Rightarrow> bool" where
  "align_request_ok sz offset alignment \<longleftrightarrow> request_ok sz \<and> sz \<le> mem_area_size \<and>
     page_size dvd alignment \<and> 0 < alignment \<and> page_size dvd offset \<and> offset \<le> mem_area_size"

lemma align_requestD:
  assumes "align_request_ok sz offset alignment"
  shows "request_ok sz" and "page_size dvd sz" and "0 < sz" and "page_size dvd alignment"
    and "0 < alignment" and "page_size dvd offset" and "offset \<le> mem_area_size"
  using assms by (simp_all add: align_request_ok_def request_ok_def)

lemma alignment_shift_eq:
  assumes req: "align_request_ok sz offset alignment" and blk: "block_ok v (psize s v)" and "sz \<le> psize s v"
  shows "alignment_shift sz offset alignment v s = (v + psize s v - sz + offset) mod alignment"
proof -
  have lim: "v + psize s v \<le> 2 ^ 46 + 2 ^ 44" "offset \<le> 2 ^ 44"
    using block_okD(7) [OF blk] align_requestD(7) [OF req] by (simp_all add: phys_mem_eq mem_area_size_def)
  have sub: "sub64 (v + psize s v) sz = v + psize s v - sz"
    using assms(3) lim by (intro sub64_eq) auto
  have "v + psize s v - sz + offset < 2 ^ 64" using lim by simp
  then have "alignment_shift sz offset alignment v s =
      v + psize s v - sz + offset - nalign_down (v + psize s v - sz + offset) alignment"
    by (simp add: alignment_shift_def Let_def sub)
  then show ?thesis by (simp add: nalign_down_def minus_div_mult_eq_mod)
qed

lemma for_each_ranges_set:
  "set (for_each_ranges m s) = set (free_huge s) \<union> (\<Union>i \<in> {m ..< max_order}. set (free_lists s i))"
  by (auto simp: for_each_ranges_def)

text \<open>The visited orders include every range that is large enough.\<close>

lemma large_range_visited:
  assumes ok: "lists_ok s" and geo: "geometry_ok s B" and a: "a \<in> ranges s" and req: "request_ok sz"
    and le: "sz \<le> psize s a"
  shows "a \<in> set (for_each_ranges (max (ilog2 (sz div page_size)) 1 - 1) s)"
proof (cases "max_order \<le> pr_order s a")
  case True
  then show ?thesis using ranges_slot(1) [OF ok a True] by (simp add: for_each_ranges_set)
next
  case False
  have k: "0 < sz div page_size" "sz div page_size < 2 ^ 64" "sz div page_size \<le> psize s a div page_size"
    using req le le_less_trans [OF div_le_dividend [of sz page_size], of "2 ^ 64"]
    by (auto simp: request_ok_def div_greater_zero_iff dvd_imp_le div_le_mono)
  have "psize s a div page_size < 2 ^ 64"
  proof -
    have "psize s a \<le> 2 ^ 46 + 2 ^ 44"
      using block_okD(7) [OF geometryD(1) [OF geo a]] by (simp add: phys_mem_eq mem_area_size_def)
    then have "psize s a div page_size \<le> 2 ^ 46 + 2 ^ 44"
      by (rule le_trans [OF div_le_dividend])
    then show ?thesis by simp
  qed
  then have "ilog2 (sz div page_size) \<le> pr_order s a"
    using k by (simp add: ilog2_bit_length pr_order_def bit_length_mono diff_le_mono)
  then show ?thesis
    using ranges_slot(2) [OF ok a] False by (auto simp: for_each_ranges_set)
qed

lemma pra_alloc_aligned_carved:
  assumes geo: "geometry_ok s B" and ok: "lists_ok s" and req: "align_request_ok sz offset alignment"
    and al: "pra_alloc_aligned sz offset alignment fill s = (Some r, s')"
  shows "\<exists>v. block_in_range s v r sz \<and> carved s v r sz s' \<and> alignment dvd r + offset \<and>
    (fill \<longrightarrow> (\<forall>x. page_addr x \<and> r \<le> x \<and> x < r + sz \<longrightarrow> \<not> page_bit s' x))"
proof -
  let ?fits = "\<lambda>v. sz + alignment_shift sz offset alignment v s \<le> psize s v"
  obtain v where f: "find ?fits (for_each_ranges (max (ilog2 (sz div page_size)) 1 - 1) s) = Some v"
    and ca: "carve_aligned sz (alignment_shift sz offset alignment v s) fill v s = (r, s')"
    using al by (auto simp: pra_alloc_aligned_def split: option.splits prod.splits)
  have v: "v \<in> ranges s" and fits: "?fits v"
    using find_SomeD [OF f] by (auto simp: for_each_ranges_set in_ranges_iff)
  note vb = geometryD(1) [OF geo v] and rq = align_requestD [OF req]
  let ?E = "v + psize s v - sz + offset" and ?sh = "alignment_shift sz offset alignment v s"
  have sh: "?sh = ?E mod alignment" using alignment_shift_eq [OF req vb] fits by simp
  define r0 where "r0 = v + psize s v - sz - ?sh"
  have r0: "v \<le> r0" "r0 + sz + ?sh = v + psize s v" "r0 + sz \<le> v + psize s v"
    using fits by (simp_all add: r0_def)
  have "page_size dvd ?E" using block_okD(2,3) [OF vb] rq(2,6) fits by simp
  then have "page_size dvd ?sh" unfolding sh using rq(4) by (simp add: dvd_mod)
  then have pa: "page_addr r0"
    using block_okD(2,3,4) [OF vb] rq(2) r0(1) by (simp add: page_addr_def r0_def)
  have blk: "block_in_range s v r0 sz" using v pa rq(2,3) r0 by (simp add: block_in_range_def)
  have eq: "r = r0" and s': "s' = set_bits r0 False fill (split_head v r0 sz (split_tail v (r0 + sz - v) (pra_remove v s)))"
    using ca unfolding carve_aligned_eq [OF r0(1) rq(3) r0(2), of fill] by auto
  have "page_size dvd r0 + sz - v"
    using pa rq(2) block_okD(2) [OF vb] by (simp add: page_addr_def)
  then have "tail_split s v (r0 + sz - v) (split_tail v (r0 + sz - v) (pra_remove v s))"
    using split_tail_ok [OF geo v pra_remove_ok [OF ok v]] r0 rq(3) by simp
  note cv = split_head_carved [OF geo blk this s']
  have "r0 + offset = ?E - ?E mod alignment" using r0(2) fits unfolding sh r0_def by simp
  then have "alignment dvd r0 + offset" by (simp add: dvd_minus_mod)
  with blk cv show ?thesis unfolding eq by blast
qed

text \<open>It fails only when no free range has an aligned place for the block.\<close>

lemma pra_alloc_aligned_complete:
  assumes geo: "geometry_ok s B" and ok: "lists_ok s" and req: "align_request_ok sz offset alignment"
    and al: "pra_alloc_aligned sz offset alignment fill s = (None, s')"
    and a: "a \<in> ranges s" and r: "a \<le> r" "r + sz \<le> a + psize s a"
  shows "\<not> alignment dvd r + offset"
proof
  assume dvd: "alignment dvd r + offset"
  let ?fits = "\<lambda>v. sz + alignment_shift sz offset alignment v s \<le> psize s v"
  have none: "find ?fits (for_each_ranges (max (ilog2 (sz div page_size)) 1 - 1) s) = None"
    using al by (auto simp: pra_alloc_aligned_def split: option.splits prod.splits)
  have le: "sz \<le> psize s a" using r by simp
  have "a \<in> set (for_each_ranges (max (ilog2 (sz div page_size)) 1 - 1) s)"
    by (rule large_range_visited [OF ok geo a align_requestD(1) [OF req] le])
  then have nofit: "\<not> ?fits a" using none by (auto simp: find_None_iff_Ball)
  let ?E = "a + psize s a - sz + offset"
  have "r + offset \<le> ?E" using r by simp
  then have "r + offset \<le> ?E - ?E mod alignment"
    using dvd nalign_down_greatest [of alignment "r + offset" ?E]
    by (simp add: nalign_down_def minus_mod_eq_div_mult)
  then have "sz + ?E mod alignment \<le> psize s a"
    using r mod_less_eq_dividend [of ?E alignment] by linarith
  then show False
    using nofit alignment_shift_eq [OF req geometryD(1) [OF geo a] le] by simp
qed

section \<open>Release keeps the invariant\<close>

text \<open>
  While a block is being released it is neither handed out nor free: it is \<open>loose\<close>, and may
  have grown by a free neighbour already. Stale bits inside it do not matter.
\<close>

definition loose :: "pra \<Rightarrow> (nat \<times> nat) set \<Rightarrow> nat \<Rightarrow> nat \<Rightarrow> bool" where
  "loose s B p n \<longleftrightarrow> lists_ok s \<and> geometry_ok s (insert (p, n) B) \<and> (p, n) \<notin> B \<and> psize s p = n \<and>
     (\<forall>a \<in> ranges s. ptail s (a + psize s a) = a \<and> page_bit s a \<and> page_bit s (a + psize s a - page_size)) \<and>
     (\<forall>x. page_addr x \<and> page_bit s x \<longrightarrow> inside_free s x \<or> inside_block B x \<or> (p \<le> x \<and> x < p + n)) \<and>
     coalesced s"

lemma looseD:
  assumes "loose s B p n"
  shows "lists_ok s" and "geometry_ok s (insert (p, n) B)" and "psize s p = n" and "coalesced s"
    and "block_ok p n" and "(p, n) \<notin> B"
    and "a \<in> ranges s \<Longrightarrow> ptail s (a + psize s a) = a \<and> page_bit s a \<and> page_bit s (a + psize s a - page_size)"
    and "page_addr x \<Longrightarrow> page_bit s x \<Longrightarrow> inside_free s x \<or> inside_block B x \<or> (p \<le> x \<and> x < p + n)"
    and "a \<in> ranges s \<Longrightarrow> separate a (psize s a) p n" and "p \<notin> ranges s"
    and "(b, m) \<in> B \<Longrightarrow> separate b m p n"
proof -
  have *: "lists_ok s" "geometry_ok s (insert (p, n) B)" "psize s p = n" "coalesced s" "(p, n) \<notin> B"
    using assms by (simp_all add: loose_def)
  then show "lists_ok s" "geometry_ok s (insert (p, n) B)" "psize s p = n" "coalesced s" "(p, n) \<notin> B" by simp_all
  show ok: "block_ok p n" using geometryD(3) [OF *(2)] by blast
  show sep: "separate a (psize s a) p n" if "a \<in> ranges s" for a using geometryD(6) [OF *(2) that] by blast
  show "p \<notin> ranges s" using sep [of p] *(3) block_okD(6) [OF ok] by (auto simp: separate_def)
  show "separate b m p n" if "(b, m) \<in> B" using geometryD(7) [OF *(2), of b m p n] that *(5) by auto
  show "a \<in> ranges s \<Longrightarrow> ptail s (a + psize s a) = a \<and> page_bit s a \<and> page_bit s (a + psize s a - page_size)"
    and "page_addr x \<Longrightarrow> page_bit s x \<Longrightarrow> inside_free s x \<or> inside_block B x \<or> (p \<le> x \<and> x < p + n)"
    using assms by (simp_all add: loose_def)
qed

lemma loose_start:
  assumes inv: "pra_inv s B" and mem: "(p, n) \<in> B" and "psize s p = n"
  shows "loose s (B - {(p, n)}) p n"
proof -
  note tags = tagsD [OF pra_invD(3) [OF inv]]
  have "insert (p, n) (B - {(p, n)}) = B" using mem by auto
  moreover have "inside_free s x \<or> inside_block (B - {(p, n)}) x \<or> (p \<le> x \<and> x < p + n)"
    if "page_addr x" "page_bit s x" for x
    using tags(4) [OF that] by (force simp: inside_block_def)
  ultimately show ?thesis
    using pra_invD [OF inv] tags(1-3) assms(3) by (simp add: loose_def)
qed

text \<open>The two boundary bits tell exactly whether a neighbour is free.\<close>

lemma loose_left_bit:
  assumes l: "loose s B p n" and gt: "phys_mem < p"
  shows "page_bit s (p - page_size) \<longleftrightarrow> (\<exists>a \<in> ranges s. a + psize s a = p)"
proof
  note b = block_okD [OF looseD(5) [OF l]]
  have x: "page_addr (p - page_size)" "page_size \<le> p - phys_mem" using page_addr_sub [OF b(1) gt] by auto
  assume "page_bit s (p - page_size)"
  from looseD(8) [OF l x(1) this] consider a where "a \<in> ranges s" "a \<le> p - page_size" "p - page_size < a + psize s a"
    | c m where "(c, m) \<in> B" "c < p - page_size" "p - page_size + page_size < c + m"
    | "p \<le> p - page_size" unfolding inside_free_def inside_block_def by blast
  then show "\<exists>a \<in> ranges s. a + psize s a = p"
  proof cases
    case 1
    note ab = block_okD [OF geometryD(1) [OF looseD(2) [OF l] 1(1)]]
    have "p - page_size + page_size \<le> a + psize s a" by (rule page_addr_less [OF x(1) ab(8) 1(3)])
    then have "p \<le> a + psize s a" by simp
    moreover have "a + psize s a \<le> p"
      using looseD(9) [OF l 1(1)] 1(2) b(6) gt page_size_pos unfolding separate_def by linarith
    ultimately show ?thesis using 1(1) by force
  next
    case 2
    have "separate c m p n" by (rule looseD(11) [OF l 2(1)])
    then show ?thesis using 2(2,3) b(6) x(2) by (auto simp: separate_def)
  next
    case 3
    then show ?thesis using gt x(2) page_size_pos by linarith
  qed
next
  assume "\<exists>a \<in> ranges s. a + psize s a = p"
  then show "page_bit s (p - page_size)" using looseD(7) [OF l] by auto
qed

lemma loose_right_bit:
  assumes l: "loose s B p n"
  shows "page_bit s (p + n) \<longleftrightarrow> p + n \<in> ranges s"
proof
  note b = block_okD [OF looseD(5) [OF l]]
  assume "page_bit s (p + n)"
  from looseD(8) [OF l b(8) this] consider a where "a \<in> ranges s" "a \<le> p + n" "p + n < a + psize s a"
    | c m where "(c, m) \<in> B" "c < p + n" "p + n + page_size < c + m"
    unfolding inside_free_def inside_block_def by auto
  then show "p + n \<in> ranges s"
  proof cases
    case 1
    have "p + n \<le> a" using looseD(9) [OF l 1(1)] 1(3) unfolding separate_def by linarith
    then show ?thesis using 1(1,2) by simp
  next
    case 2
    have "separate c m p n" by (rule looseD(11) [OF l 2(1)])
    then show ?thesis using 2(2,3) by (auto simp: separate_def)
  qed
qed (use looseD(7) [OF l] in simp)

text \<open>Merging a free neighbour \<open>a\<close>, on either side.\<close>

lemma loose_merge:
  assumes l: "loose s B p n" and a: "a \<in> ranges s"
    and adj: "a + psize s a = p \<and> q = a \<or> p + n = a \<and> q = p" and m: "m = psize s a + n"
  shows "loose (new_range q m (pra_remove a s)) B q m"
proof -
  let ?s' = "new_range q m (pra_remove a s)"
  note geo = looseD(2) [OF l] and p = block_okD [OF looseD(5) [OF l]]
  note ab = block_okD [OF geometryD(1) [OF geo a]]
  have r: "ranges ?s' = ranges s - {a}" using pra_remove_ok(2) [OF looseD(1) [OF l] a] by simp
  have q: "q \<notin> ranges s - {a}" using adj looseD(10) [OF l] by auto
  have sz: "psize ?s' x = psize s x" if "x \<in> ranges s - {a}" for x using q that by auto
  have span: "q \<le> x \<and> x < q + m \<longleftrightarrow> (a \<le> x \<and> x < a + psize s a) \<or> (p \<le> x \<and> x < p + n)" for x
    using adj m by auto
  have sep: "separate x k q m" if "separate x k a (psize s a)" "separate x k p n" "0 < k" for x k
    using that adj m ab(6) p(6) unfolding separate_def by auto
  have "lists_ok ?s'"
    using pra_remove_ok [OF looseD(1) [OF l] a] q by (intro lists_ok_new_range) auto
  moreover have "geometry_ok ?s' (insert (q, m) B)"
  proof -
    have "block_ok q m" using adj m ab p by (auto simp: block_ok_def page_addr_def)
    moreover have "in_bitmap ?s' x k = in_bitmap s x k" for x k by (simp add: in_bitmap_def)
    moreover have "in_bitmap s q m"
      using adj m geometryD(2) [OF geo a] geometryD(4) [OF geo, of p n] by (auto simp: in_bitmap_def ac_simps)
    moreover have "separate x (psize s x) q m" if "x \<in> ranges s - {a}" for x
      using that sep geometryD(5) [OF geo _ a] looseD(9) [OF l] block_okD(6) [OF geometryD(1) [OF geo]] by auto
    moreover have sepB: "separate c k q m" if "(c, k) \<in> B" for c k
      using sep [of c k] looseD(11) [OF l that] geometryD(6) [OF geo a, of c k] that
        block_okD(6) [OF geometryD(3) [OF geo, of c k]] by (auto simp: separate_def)
    moreover have "separate q m c k" if "(c, k) \<in> B" for c k using sepB [OF that] by (auto simp: separate_def)
    ultimately show ?thesis
      unfolding geometry_ok_def r using geometryD [OF geo] sz by (auto simp del: new_range_simps)
  qed
  moreover have "(q, m) \<notin> B"
    using looseD(11) [OF l, of q m] geometryD(6) [OF geo a, of q m] adj m ab(6) p(6) by (auto simp: separate_def)
  moreover have "coalesced ?s'"
    using looseD(4) [OF l] sz unfolding coalesced_def r by auto
  moreover have "inside_free ?s' x \<or> inside_block B x \<or> (q \<le> x \<and> x < q + m)"
    if "page_addr x" "page_bit s x" for x
    using looseD(8) [OF l that] span [of x] sz unfolding inside_free_def r by auto
  ultimately show ?thesis
    using looseD(7) [OF l] sz unfolding loose_def r by auto
qed

definition free_mem :: "pra \<Rightarrow> nat set" where
  "free_mem s = (\<Union>a \<in> ranges s. span a (psize s a))"

lemma in_free_mem_iff: "x \<in> free_mem s \<longleftrightarrow> (\<exists>a \<in> ranges s. a \<le> x \<and> x < a + psize s a)"
  by (auto simp: free_mem_def)

lemma loose_merge_mem:
  assumes l: "loose s B p n" and a: "a \<in> ranges s"
    and adj: "a + psize s a = p \<and> q = a \<or> p + n = a \<and> q = p" and m: "m = psize s a + n"
  shows "free_mem (new_range q m (pra_remove a s)) \<union> span q m = free_mem s \<union> span p n"
proof -
  let ?s' = "new_range q m (pra_remove a s)"
  have r: "ranges ?s' = ranges s - {a}" using pra_remove_ok(2) [OF looseD(1) [OF l] a] by simp
  have q: "q \<notin> ranges s - {a}" using adj looseD(10) [OF l] by auto
  have "free_mem ?s' = (\<Union>x \<in> ranges s - {a}. span x (psize s x))"
    unfolding free_mem_def r using q by (intro SUP_cong) auto
  moreover have "span q m = span a (psize s a) \<union> span p n" using adj m by (auto simp: span_def)
  ultimately show ?thesis using a by (auto simp: free_mem_def)
qed

lemma loose_finish:
  assumes l: "loose s B p n" and left: "\<And>a. a \<in> ranges s \<Longrightarrow> a + psize s a \<noteq> p"
    and right: "p + n \<notin> ranges s"
  shows "pra_inv (pra_insert True p s) B" and "free_mem (pra_insert True p s) = free_mem s \<union> span p n"
proof -
  let ?s' = "pra_insert True p s"
  note geo = looseD(2) [OF l] and p = block_okD [OF looseD(5) [OF l]]
  have r: "ranges ?s' = insert p (ranges s)" by (rule ranges_insert)
  have pn: "psize s p = n" by (rule looseD(3) [OF l])
  have bits: "page_bit ?s' x \<longleftrightarrow> x = p \<or> x = p + n - page_size \<or> page_bit s x" if "page_addr x" for x
    using page_bit_insert [of p s x] looseD(5) [OF l] that by (simp add: pn)
  have sym: "separate p n x k" if "separate x k p n" for x k using that by (auto simp: separate_def)
  have "geometry_ok ?s' B"
    unfolding geometry_ok_def r using geometryD [OF geo] sym looseD(9,11) [OF l] pn
    by (auto simp: in_bitmap_def)
  moreover have "ptail ?s' (a + psize s a) = a \<and> page_bit ?s' a \<and> page_bit ?s' (a + psize s a - page_size)"
    if "a \<in> insert p (ranges s)" for a
  proof (cases "a = p")
    case True
    then show ?thesis using bits p(1,9) by (simp add: pn)
  next
    case False
    then have a: "a \<in> ranges s" using that by simp
    note ab = block_okD [OF geometryD(1) [OF geo a]]
    have "a + psize s a \<noteq> p + n" using looseD(9) [OF l a] ab(6) p(6) by (auto simp: separate_def)
    then show ?thesis using looseD(7) [OF l a] bits [OF ab(1)] bits [OF ab(9)] by (simp add: pn)
  qed
  moreover have "inside_free ?s' x \<or> inside_block B x" if x: "page_addr x" "page_bit ?s' x" for x
  proof (cases "p \<le> x \<and> x < p + n")
    case True
    then show ?thesis using inside_freeI [of p ?s' x] by (simp add: r pn)
  next
    case False
    have "p \<le> p + n - page_size" "p + n - page_size < p + n" using p(5,6) page_size_pos by linarith+
    then have "x \<noteq> p" "x \<noteq> p + n - page_size" using False p(6) by auto
    then have "page_bit s x" using bits [OF x(1)] x(2) by simp
    then show ?thesis using looseD(8) [OF l x(1)] False unfolding inside_free_def r by auto
  qed
  ultimately have "tags_ok ?s' B" by (simp add: tags_ok_def r)
  moreover have "coalesced ?s'"
    using looseD(4) [OF l] left right p(6) pn unfolding coalesced_def r by auto
  ultimately show "pra_inv ?s' B"
    using lists_ok_insert [OF looseD(1) [OF l] looseD(10) [OF l]] \<open>geometry_ok ?s' B\<close>
    by (simp add: pra_inv_def)
  show "free_mem ?s' = free_mem s \<union> span p n" by (auto simp: free_mem_def r pn)
qed

text \<open>The two merging steps of \<open>free\<close> as functions.\<close>

definition merge_left :: "nat \<Rightarrow> pra \<Rightarrow> nat \<times> pra" where
  "merge_left p s =
     (if get_bitmap_idx p \<noteq> 0 \<and> bitmap s (get_bitmap_idx p - 1)
      then (ptail s p, new_range (ptail s p) (psize s (ptail s p) + psize s p) (pra_remove (ptail s p) s))
      else (p, s))"

definition merge_right :: "nat \<Rightarrow> pra \<Rightarrow> pra" where
  "merge_right p s =
     (if get_bitmap_idx p + psize s p div page_size < bitmap_size s \<and>
        bitmap s (get_bitmap_idx p + psize s p div page_size)
      then new_range p (psize s p + psize s (p + psize s p)) (pra_remove (p + psize s p) s)
      else s)"

lemma pra_free_merges:
  "pra_free p s = (case merge_left p s of (p1, s1) \<Rightarrow> pra_insert True p1 (merge_right p1 s1))"
  by (simp add: pra_free_def merge_left_def merge_right_def Let_def split: prod.split)

lemma left_bit_iff:
  assumes l: "loose s B p n"
  shows "get_bitmap_idx p \<noteq> 0 \<and> bitmap s (get_bitmap_idx p - 1) \<longleftrightarrow> (\<exists>a \<in> ranges s. a + psize s a = p)"
proof -
  note b = block_okD [OF looseD(5) [OF l]]
  show ?thesis
  proof (cases "phys_mem < p")
    case True
    have x: "page_addr (p - page_size)" "page_size \<le> p - phys_mem" using page_addr_sub [OF b(1) True] by auto
    have "get_bitmap_idx (p - page_size + page_size) = get_bitmap_idx (p - page_size) + page_size div page_size"
      by (rule idx_add [OF x(1)]) simp
    then have "get_bitmap_idx p = Suc (get_bitmap_idx (p - page_size))" using x(2) by simp
    then show ?thesis using loose_left_bit [OF l True] by (simp add: page_bit_def)
  next
    case False
    then have "p = phys_mem" using b(4) by simp
    moreover have "a + psize s a \<noteq> phys_mem" if "a \<in> ranges s" for a
      using block_okD(4,6) [OF geometryD(1) [OF looseD(2) [OF l] that]] by simp
    ultimately show ?thesis by (auto simp: get_bitmap_idx_def)
  qed
qed

lemma merge_left_ok:
  assumes l: "loose s B p n"
  shows "\<exists>q m s'. merge_left p s = (q, s') \<and> loose s' B q m \<and> (\<forall>a \<in> ranges s'. a + psize s' a \<noteq> q) \<and>
    free_mem s' \<union> span q m = free_mem s \<union> span p n \<and> q + m = p + n \<and> ranges s' \<subseteq> ranges s"
proof -
  note cond = left_bit_iff [OF l]
  show ?thesis
  proof (cases "\<exists>a \<in> ranges s. a + psize s a = p")
    case False
    then show ?thesis using l cond by (rule_tac x = p in exI, rule_tac x = n in exI) (auto simp: merge_left_def)
  next
    case True
    then obtain a where a: "a \<in> ranges s" "a + psize s a = p" by blast
    have tail: "ptail s p = a" using looseD(7) [OF l a(1)] a(2) by simp
    let ?m = "psize s a + n" let ?s' = "new_range a ?m (pra_remove a s)"
    have adj: "a + psize s a = p \<and> a = a \<or> p + n = a \<and> a = p" using a(2) by simp
    have "merge_left p s = (a, ?s')" using True cond by (simp add: merge_left_def tail looseD(3) [OF l])
    moreover have "loose ?s' B a ?m" by (rule loose_merge [OF l a(1) adj refl])
    moreover have "\<forall>x \<in> ranges ?s'. x + psize ?s' x \<noteq> a"
      using pra_remove_ok(2) [OF looseD(1) [OF l] a(1)] looseD(4) [OF l] a(1) by (auto simp: coalesced_def)
    moreover have "a + ?m = p + n" "ranges ?s' \<subseteq> ranges s"
      using a(2) pra_remove_ok(2) [OF looseD(1) [OF l] a(1)] by auto
    ultimately show ?thesis using loose_merge_mem [OF l a(1) adj refl] by blast
  qed
qed

lemma merge_right_ok:
  assumes l: "loose s B p n" and left: "\<forall>a \<in> ranges s. a + psize s a \<noteq> p"
  shows "\<exists>m. loose (merge_right p s) B p m \<and> (\<forall>a \<in> ranges (merge_right p s). a + psize (merge_right p s) a \<noteq> p) \<and>
    p + m \<notin> ranges (merge_right p s) \<and> free_mem (merge_right p s) \<union> span p m = free_mem s \<union> span p n"
proof -
  note b = block_okD [OF looseD(5) [OF l]] and pn = looseD(3) [OF l]
  have idx: "get_bitmap_idx p + n div page_size = get_bitmap_idx (p + n)"
    using idx_add [OF b(1,3)] by simp
  have cond: "get_bitmap_idx (p + n) < bitmap_size s \<and> bitmap s (get_bitmap_idx (p + n)) \<longleftrightarrow> p + n \<in> ranges s"
  proof -
    have "get_bitmap_idx (p + n) < bitmap_size s" if "p + n \<in> ranges s"
    proof -
      note rb = geometryD(1,2) [OF looseD(2) [OF l] that]
      have "get_bitmap_idx (p + n) < get_bitmap_idx (p + n) + psize s (p + n) div page_size"
        using block_okD(5) [OF rb(1)] by (simp add: div_greater_zero_iff)
      also have "\<dots> \<le> bitmap_size s"
        using rb(2) idx_add [OF b(8) block_okD(3) [OF rb(1)]] by (simp add: in_bitmap_def)
      finally show ?thesis .
    qed
    then show ?thesis using loose_right_bit [OF l] by (auto simp: page_bit_def)
  qed
  show ?thesis
  proof (cases "p + n \<in> ranges s")
    case False
    then have "merge_right p s = s" using cond unfolding merge_right_def pn idx by argo
    with False l left show ?thesis by (rule_tac x = n in exI) simp
  next
    case True
    let ?a = "p + n" let ?m = "psize s ?a + n" let ?s' = "new_range p ?m (pra_remove ?a s)"
    have adj: "?a + psize s ?a = p \<and> p = ?a \<or> p + n = ?a \<and> p = p" by simp
    have "get_bitmap_idx (p + n) < bitmap_size s" "bitmap s (get_bitmap_idx (p + n))" using True cond by auto
    then have eq: "merge_right p s = ?s'" unfolding merge_right_def idx pn by (simp add: add.commute)
    have r: "ranges ?s' = ranges s - {?a}" using pra_remove_ok(2) [OF looseD(1) [OF l] True] by simp
    have "p \<notin> ranges s" by (rule looseD(10) [OF l])
    then have "\<forall>a \<in> ranges ?s'. a + psize ?s' a \<noteq> p" using left unfolding r by auto
    moreover have "p + ?m \<notin> ranges ?s'"
      using looseD(4) [OF l] True unfolding r coalesced_def by (auto simp: ac_simps)
    ultimately show ?thesis
      unfolding eq using loose_merge [OF l True adj refl] loose_merge_mem [OF l True adj refl] by blast
  qed
qed

lemma pra_free_spec:
  assumes inv: "pra_inv s B" and mem: "(p, n) \<in> B" and "psize s p = n"
  shows "pra_inv (pra_free p s) (B - {(p, n)})" and "free_mem (pra_free p s) = free_mem s \<union> span p n"
proof -
  let ?B = "B - {(p, n)}"
  obtain q m s1 where ml: "merge_left p s = (q, s1)" and l1: "loose s1 ?B q m"
    and left: "\<forall>a \<in> ranges s1. a + psize s1 a \<noteq> q" and f1: "free_mem s1 \<union> span q m = free_mem s \<union> span p n"
    using merge_left_ok [OF loose_start [OF assms]] by blast
  obtain k where l2: "loose (merge_right q s1) ?B q k"
    and left2: "\<forall>a \<in> ranges (merge_right q s1). a + psize (merge_right q s1) a \<noteq> q"
    and right2: "q + k \<notin> ranges (merge_right q s1)"
    and f2: "free_mem (merge_right q s1) \<union> span q k = free_mem s1 \<union> span q m"
    using merge_right_ok [OF l1 left] by blast
  have "pra_free p s = pra_insert True q (merge_right q s1)" by (simp add: pra_free_merges ml)
  then show "pra_inv (pra_free p s) ?B" and "free_mem (pra_free p s) = free_mem s \<union> span p n"
    using loose_finish [OF l2 _ right2] left2 f1 f2 by simp_all
qed

section \<open>What the clients may do to their blocks\<close>

text \<open>
  A client owns the bytes of its block: it may overwrite headers and back pointers in them.
\<close>

definition client_write :: "pra \<Rightarrow> pra \<Rightarrow> (nat \<times> nat) set \<Rightarrow> bool" where
  "client_write s s' B \<longleftrightarrow> (\<exists>f g. s' = s\<lparr>psize := f, ptail := g\<rparr> \<and>
     (\<forall>a. f a \<noteq> psize s a \<longrightarrow> (\<exists>(b, m) \<in> B. b \<le> a \<and> a < b + m)) \<and>
     (\<forall>e. g e \<noteq> ptail s e \<longrightarrow> (\<exists>(b, m) \<in> B. b < e \<and> e \<le> b + m)))"

lemma client_write_inv:
  assumes inv: "pra_inv s B" and w: "client_write s s' B"
  shows "pra_inv s' B" and "free_mem s' = free_mem s"
proof -
  note geo = pra_invD(2) [OF inv]
  obtain f g where s': "s' = s\<lparr>psize := f, ptail := g\<rparr>"
    and f: "\<And>a. f a \<noteq> psize s a \<Longrightarrow> \<exists>(b, m) \<in> B. b \<le> a \<and> a < b + m"
    and g: "\<And>e. g e \<noteq> ptail s e \<Longrightarrow> \<exists>(b, m) \<in> B. b < e \<and> e \<le> b + m"
    using w by (auto simp: client_write_def)
  have r: "ranges s' = ranges s" by (simp add: s' ranges_def)
  have sz: "psize s' a = psize s a" if "a \<in> ranges s" for a
  proof (rule ccontr)
    assume "psize s' a \<noteq> psize s a"
    then obtain b m where bm: "(b, m) \<in> B" "b \<le> a" "a < b + m" using f [of a] by (auto simp: s')
    then show False
      using geometryD(6) [OF geo that bm(1)] block_okD(6) [OF geometryD(1) [OF geo that]] by (auto simp: separate_def)
  qed
  have tl: "ptail s' (a + psize s a) = ptail s (a + psize s a)" if "a \<in> ranges s" for a
  proof (rule ccontr)
    assume "ptail s' (a + psize s a) \<noteq> ptail s (a + psize s a)"
    then obtain b m where bm: "(b, m) \<in> B" "b < a + psize s a" "a + psize s a \<le> b + m"
      using g [of "a + psize s a"] by (auto simp: s')
    then show False
      using geometryD(6) [OF geo that bm(1)] block_okD(6) [OF geometryD(1) [OF geo that]] by (auto simp: separate_def)
  qed
  have "lists_ok s'" using pra_invD(1) [OF inv] by (rule lists_ok_cong) (simp_all add: s' sz [unfolded s', simplified])
  moreover have "geometry_ok s' B"
    using geometryD [OF geo] sz unfolding geometry_ok_def r by (auto simp: in_bitmap_def s')
  moreover have "tags_ok s' B"
    using tagsD [OF pra_invD(3) [OF inv]] sz tl unfolding tags_ok_def r inside_free_def
    by (auto simp: page_bit_def s')
  moreover have "coalesced s'"
    using pra_invD(4) [OF inv] sz unfolding coalesced_def r by auto
  ultimately show "pra_inv s' B" by (simp add: pra_inv_def)
  show "free_mem s' = free_mem s" using sz unfolding free_mem_def r by auto
qed

text \<open>In particular a client may write a header at the start of its block before releasing it.\<close>

lemma new_range_client_write:
  assumes "(p, n) \<in> B" and "0 < n"
  shows "client_write s (new_range p k s) B"
  unfolding client_write_def
proof (intro exI conjI allI impI)
  show "new_range p k s = s\<lparr>psize := (psize s)(p := k), ptail := ptail s\<rparr>" by (simp add: new_range_def)
  show "\<exists>(b, m) \<in> B. b \<le> a \<and> a < b + m" if "((psize s)(p := k)) a \<noteq> psize s a" for a
    using that assms by (auto split: if_splits)
qed simp

text \<open>A block whose bits are all clear (a huge page) may be released in pieces.\<close>

lemma split_block:
  assumes inv: "pra_inv s B" and mem: "(p, n) \<in> B" and k: "page_size dvd k" "0 < k" "k < n"
    and clear: "\<And>x. page_addr x \<Longrightarrow> p \<le> x \<Longrightarrow> x < p + n \<Longrightarrow> \<not> page_bit s x"
  shows "pra_inv s (insert (p, k) (insert (p + k, n - k) (B - {(p, n)})))"
proof -
  define C where "C = B - {(p, n)}"
  let ?B' = "insert (p, k) (insert (p + k, n - k) C)"
  note geo = pra_invD(2) [OF inv] and b = block_okD [OF geometryD(3) [OF pra_invD(2) [OF inv] mem]]
  have "block_ok p k" "block_ok (p + k) (n - k)" using b k by (auto simp: block_ok_def page_addr_def)
  moreover have "in_bitmap s p k" "in_bitmap s (p + k) (n - k)"
    using geometryD(4) [OF geo mem] k idx_mono [of "p + k" "p + n"] by (auto simp: in_bitmap_def)
  moreover have "separate a (psize s a) p k" "separate a (psize s a) (p + k) (n - k)" if "a \<in> ranges s" for a
    using geometryD(6) [OF geo that mem] k by (auto simp: separate_def)
  moreover have B: "separate c m p k" "separate c m (p + k) (n - k)" "separate p k c m" "separate (p + k) (n - k) c m"
    if "(c, m) \<in> C" for c m
    using geometryD(7) [OF geo _ mem, of c m] that k by (auto simp: separate_def C_def)
  moreover have "separate p k (p + k) (n - k)" "separate (p + k) (n - k) p k" by (simp_all add: separate_def)
  moreover have "separate c m c' m'" if "(c, m) \<in> C" "(c', m') \<in> C" "(c, m) \<noteq> (c', m')" for c m c' m'
    using geometryD(7) [OF geo] that unfolding C_def by blast
  moreover have "block_ok c m \<and> in_bitmap s c m" if "(c, m) \<in> C" for c m
    using geometryD(3,4) [OF geo] that unfolding C_def by blast
  moreover have "separate a (psize s a) c m" if "a \<in> ranges s" "(c, m) \<in> C" for a c m
    using geometryD(6) [OF geo] that unfolding C_def by blast
  ultimately have "geometry_ok s ?B'"
    unfolding geometry_ok_def using geometryD(1,2,5) [OF geo] by auto
  moreover have "tags_ok s ?B'"
  proof -
    have "inside_free s x \<or> inside_block ?B' x" if x: "page_addr x" "page_bit s x" for x
    proof -
      have "\<not> (p \<le> x \<and> x < p + n)" using clear x by blast
      then show ?thesis
        using tagsD(4) [OF pra_invD(3) [OF inv] x] unfolding inside_block_def C_def by force
    qed
    then show ?thesis using tagsD(1-3) [OF pra_invD(3) [OF inv]] by (simp add: tags_ok_def)
  qed
  ultimately show ?thesis using pra_invD(1,4) [OF inv] by (simp add: pra_inv_def C_def)
qed

section \<open>Allocation and release as seen by the clients\<close>

lemma free_mem_carved:
  assumes geo: "geometry_ok s B" and blk: "block_in_range s v r n" and c: "carved s v r n s'"
  shows "free_mem s' = free_mem s - span r n" and "span r n \<subseteq> free_mem s"
proof -
  have v: "v \<in> ranges s" "v \<le> r" "r + n \<le> v + psize s v" "0 < n"
    using blk by (simp_all add: block_in_range_def)
  show sub: "span r n \<subseteq> free_mem s" using v by (auto simp: in_free_mem_iff intro!: bexI [of _ v])
  have sep: "separate a (psize s a) v (psize s v)" if "a \<in> ranges s" "a \<noteq> v" for a
    using geometryD(5) [OF geo that(1) v(1) that(2)] .
  show "free_mem s' = free_mem s - span r n"
  proof (intro set_eqI iffI)
    fix x assume "x \<in> free_mem s'"
    then obtain a where a: "a \<in> ranges s'" "a \<le> x" "x < a + psize s' a" by (auto simp: in_free_mem_iff)
    from c a(1) show "x \<in> free_mem s - span r n"
    proof (cases rule: carved_range_cases)
      case old
      have "x < v \<or> v + psize s v \<le> x" using sep [OF old(1,2)] a(2,3) unfolding old(3) separate_def by linarith
      then have "x \<notin> span r n" using v by auto
      then show ?thesis using old a by (auto simp: in_free_mem_iff)
    next
      case head
      then have "v \<le> x" "x < r" using a by auto
      then show ?thesis using v by (auto simp: in_free_mem_iff intro!: bexI [of _ v])
    next
      case tail
      then have "r + n \<le> x" "x < v + psize s v" using a by auto
      then show ?thesis using v by (auto simp: in_free_mem_iff intro!: bexI [of _ v])
    qed
  next
    fix x assume "x \<in> free_mem s - span r n"
    then obtain a where a: "a \<in> ranges s" "a \<le> x" "x < a + psize s a" and out: "x < r \<or> r + n \<le> x"
      by (auto simp: in_free_mem_iff)
    show "x \<in> free_mem s'"
    proof (cases "a = v")
      case False
      then show ?thesis using carvedD(1) [OF c a(1)] a(2,3) by (auto simp: in_free_mem_iff)
    next
      case True
      show ?thesis
      proof (cases "x < r")
        case True
        then show ?thesis using carvedD(2) [OF c] \<open>a = v\<close> a(2) unfolding in_free_mem_iff by (intro bexI [of _ v]) auto
      next
        case False
        then show ?thesis using carvedD(3) [OF c] \<open>a = v\<close> a(3) out unfolding in_free_mem_iff by (intro bexI [of _ "r + n"]) auto
      qed
    qed
  qed
qed

lemma carved_psize: "carved s v r n s' \<Longrightarrow> psize s' r = n"
  by (simp add: carved_def)

text \<open>What an allocation promises, on both outcomes.\<close>

lemma pra_alloc_None:
  assumes inv: "pra_inv s B" and req: "request_ok sz" and al: "pra_alloc True sz contiguous s = (None, s')"
  shows "s' = s" and "contiguous \<Longrightarrow> a \<in> ranges s \<Longrightarrow> psize s a < sz"
proof -
  have "pra_take sz contiguous s = None" "s' = s"
    using al by (auto simp: pra_alloc_def Let_def split: option.splits)
  then show "s' = s" and "contiguous \<Longrightarrow> a \<in> ranges s \<Longrightarrow> psize s a < sz"
    using pra_take_None [OF pra_invD(1,2) [OF inv] req] by simp_all
qed

lemma pra_alloc_Some:
  assumes inv: "pra_inv s B" and req: "request_ok sz" and al: "pra_alloc True sz contiguous s = (Some r, s')"
  shows "pra_inv s' (insert (r, sz) B)" and "free_mem s' = free_mem s - span r sz"
    and "span r sz \<subseteq> free_mem s" and "psize s' r = sz" and "page_addr r"
proof -
  note c = pra_alloc_carved [OF pra_invD(2,1) [OF inv] req al]
  show "pra_inv s' (insert (r, sz) B)" by (rule carved_inv [OF inv c])
  show "free_mem s' = free_mem s - span r sz" "span r sz \<subseteq> free_mem s"
    by (rule free_mem_carved [OF pra_invD(2) [OF inv] c])+
  show "psize s' r = sz" by (rule carved_psize [OF c(2)])
  show "page_addr r" using c(1) by (simp add: block_in_range_def)
qed

lemma pra_alloc_aligned_Some:
  assumes inv: "pra_inv s B" and req: "align_request_ok sz offset alignment"
    and al: "pra_alloc_aligned sz offset alignment fill s = (Some r, s')"
  shows "pra_inv s' (insert (r, sz) B)" and "free_mem s' = free_mem s - span r sz"
    and "span r sz \<subseteq> free_mem s" and "psize s' r = sz" and "page_addr r" and "alignment dvd r + offset"
    and "fill \<Longrightarrow> page_addr x \<Longrightarrow> r \<le> x \<Longrightarrow> x < r + sz \<Longrightarrow> \<not> page_bit s' x"
proof -
  obtain v where c: "block_in_range s v r sz" "carved s v r sz s'" "alignment dvd r + offset"
    "fill \<longrightarrow> (\<forall>x. page_addr x \<and> r \<le> x \<and> x < r + sz \<longrightarrow> \<not> page_bit s' x)"
    using pra_alloc_aligned_carved [OF pra_invD(2,1) [OF inv] req al] by blast
  show "pra_inv s' (insert (r, sz) B)" by (rule carved_inv [OF inv c(1,2)])
  show "free_mem s' = free_mem s - span r sz" "span r sz \<subseteq> free_mem s"
    by (rule free_mem_carved [OF pra_invD(2) [OF inv] c(1,2)])+
  show "psize s' r = sz" by (rule carved_psize [OF c(2)])
  show "page_addr r" using c(1) by (simp add: block_in_range_def)
  show "alignment dvd r + offset" by (rule c(3))
  show "\<not> page_bit s' x" if "fill" "page_addr x" "r \<le> x" "x < r + sz" using c(4) that by blast
qed

lemma pra_alloc_aligned_None:
  assumes al: "pra_alloc_aligned sz offset alignment fill s = (None, s')"
  shows "s' = s"
  using al by (auto simp: pra_alloc_aligned_def split: option.splits prod.splits)

section \<open>Adding memory\<close>

text \<open>
  While the bitmap is being replaced its contents mean nothing: the routines that run then do
  not look at it, so the state is one of the invariant up to the bitmap.
\<close>

lemma bitmap_upd_simps [simp]:
  "pr_order (s\<lparr>bitmap := bm\<rparr>) = pr_order s" "ranges (s\<lparr>bitmap := bm\<rparr>) = ranges s"
  "set_not_empty i b (s\<lparr>bitmap := bm\<rparr>) = (set_not_empty i b s)\<lparr>bitmap := bm\<rparr>"
  "new_range a n (s\<lparr>bitmap := bm\<rparr>) = (new_range a n s)\<lparr>bitmap := bm\<rparr>"
  "remove_list i a (s\<lparr>bitmap := bm\<rparr>) = (remove_list i a s)\<lparr>bitmap := bm\<rparr>"
  "remove_huge a (s\<lparr>bitmap := bm\<rparr>) = (remove_huge a s)\<lparr>bitmap := bm\<rparr>"
  "pra_insert False a (s\<lparr>bitmap := bm\<rparr>) = (pra_insert False a s)\<lparr>bitmap := bm\<rparr>"
  "for_each_ranges k (s\<lparr>bitmap := bm\<rparr>) = for_each_ranges k s"
  "free_mem (s\<lparr>bitmap := bm\<rparr>) = free_mem s"
  by (simp_all add: pr_order_def ranges_def set_not_empty_def new_range_def remove_list_def
      remove_huge_def pra_insert_def Let_def for_each_ranges_def fun_eq_iff free_mem_def)

lemma set_bits_upd: "\<exists>bm. set_bits a v f s = s\<lparr>bitmap := bm\<rparr>"
  by (auto simp: set_bits_def Let_def)

lemma pra_insert_upd: "\<exists>bm. pra_insert True a s = (pra_insert False a s)\<lparr>bitmap := bm\<rparr>"
proof -
  obtain bm where "set_bits a True False (pra_insert False a s) = (pra_insert False a s)\<lparr>bitmap := bm\<rparr>"
    using set_bits_upd by blast
  then show ?thesis by (intro exI [of _ bm]) (simp add: pra_insert_def Let_def)
qed

lemma pra_take_upd:
  "pra_take sz c (s\<lparr>bitmap := bm\<rparr>) = map_option (\<lambda>(a, t). (a, t\<lparr>bitmap := bm\<rparr>)) (pra_take sz c s)"
  by (simp add: pra_take_unfold orders_from_def Let_def split: option.split)

lemma pra_alloc_upd:
  assumes "pra_alloc False sz c s = (r, s')"
  shows "\<exists>bm'. pra_alloc True sz c (s\<lparr>bitmap := bm\<rparr>) = (r, s'\<lparr>bitmap := bm'\<rparr>)"
proof (cases "pra_take sz c s")
  case None
  then show ?thesis using assms by (auto simp: pra_alloc_def pra_take_upd)
next
  case (Some x)
  obtain a t where x: "x = (a, t)" by force
  let ?t = "new_range (a + sz) (psize t a - sz) t"
  obtain bm1 where bm1: "pra_insert True (a + sz) (?t\<lparr>bitmap := bm\<rparr>) = (pra_insert False (a + sz) ?t)\<lparr>bitmap := bm1\<rparr>"
    using pra_insert_upd [of "a + sz" "?t\<lparr>bitmap := bm\<rparr>"] by auto
  let ?u = "\<lambda>b. if sz < psize t a then (new_range a sz (pra_insert False (a + sz) ?t))\<lparr>bitmap := b\<rparr> else t\<lparr>bitmap := bm\<rparr>"
  obtain bm2 where bm2: "set_bits a False False (?u bm1) = (?u bm1)\<lparr>bitmap := bm2\<rparr>"
    using set_bits_upd by blast
  show ?thesis
    using assms bm1 bm2 by (intro exI [of _ bm2]) (auto simp: pra_alloc_def pra_take_upd Some x Let_def)
qed

lemma bitmap_size_upd [simp]: "ranges (s\<lparr>bitmap_size := k\<rparr>) = ranges s" "free_mem (s\<lparr>bitmap_size := k\<rparr>) = free_mem s"
  "ranges (s\<lparr>deferred_free := d\<rparr>) = ranges s" "free_mem (s\<lparr>deferred_free := d\<rparr>) = free_mem s"
  by (simp_all add: ranges_def free_mem_def)

lemma pra_inv_bitmap_size:
  assumes "pra_inv s B" and "bitmap_size s \<le> k"
  shows "pra_inv (s\<lparr>bitmap_size := k\<rparr>) B"
  using assms unfolding pra_inv_def lists_ok_def geometry_ok_def tags_ok_def coalesced_def
  by (fastforce simp: in_bitmap_def pr_order_def page_bit_def inside_free_def)

lemma pra_inv_deferred [simp]: "pra_inv (s\<lparr>deferred_free := d\<rparr>) B = pra_inv s B"
  by (simp add: pra_inv_def lists_ok_def geometry_ok_def tags_ok_def coalesced_def in_bitmap_def
      pr_order_def page_bit_def inside_free_def)


lemma inside_free_upd: "inside_free (s\<lparr>bitmap := bm\<rparr>) = inside_free s"
  by (simp add: inside_free_def fun_eq_iff)

definition rebits :: "pra \<Rightarrow> pra" where
  "rebits s = fold (\<lambda>a. set_bits a True False) (for_each_ranges 0 s) s"

lemma fold_set_bits:
  assumes "\<And>a. a \<in> set l \<Longrightarrow> block_ok a (psize s a)"
  shows "\<exists>bm. fold (\<lambda>a. set_bits a True False) l s = s\<lparr>bitmap := bm\<rparr> \<and>
    (\<forall>x. page_addr x \<longrightarrow> bm (get_bitmap_idx x) =
      (page_bit s x \<or> (\<exists>a \<in> set l. x = a \<or> x = a + psize s a - page_size)))"
  using assms
proof (induction l arbitrary: s)
  case Nil
  show ?case by (intro exI [of _ "bitmap s"]) (simp add: page_bit_def)
next
  case (Cons a l)
  let ?s = "set_bits a True False s"
  obtain b where b: "?s = s\<lparr>bitmap := b\<rparr>" using set_bits_upd by blast
  obtain bm where bm: "fold (\<lambda>a. set_bits a True False) l ?s = ?s\<lparr>bitmap := bm\<rparr>"
    "\<And>x. page_addr x \<Longrightarrow> bm (get_bitmap_idx x) =
      (page_bit ?s x \<or> (\<exists>a \<in> set l. x = a \<or> x = a + psize ?s a - page_size))"
    using Cons.IH [of ?s] Cons.prems by auto
  have "page_bit ?s x = (x = a \<or> x = a + psize s a - page_size \<or> page_bit s x)" if "page_addr x" for x
    using page_bit_set_bits(1) [of a s x True] Cons.prems [of a] that by auto
  then show ?case using bm b by (intro exI [of _ bm]) auto
qed

lemma rebits_inv:
  assumes inv: "pra_inv (s\<lparr>bitmap := bm\<rparr>) B"
  shows "pra_inv (rebits (s\<lparr>bitmap := (\<lambda>_. False)\<rparr>)) B" and "free_mem (rebits (s\<lparr>bitmap := (\<lambda>_. False)\<rparr>)) = free_mem s"
    and "deferred_free (rebits (s\<lparr>bitmap := (\<lambda>_. False)\<rparr>)) = deferred_free s"
    and "psize (rebits (s\<lparr>bitmap := (\<lambda>_. False)\<rparr>)) = psize s"
proof -
  let ?s = "s\<lparr>bitmap := (\<lambda>_. False)\<rparr>"
  note geo = pra_invD(2) [OF inv]
  have l: "set (for_each_ranges 0 s) = ranges s" by (auto simp: for_each_ranges_def ranges_def)
  obtain b where b: "rebits ?s = s\<lparr>bitmap := b\<rparr>"
    "\<And>x. page_addr x \<Longrightarrow> b (get_bitmap_idx x) = (\<exists>a \<in> ranges s. x = a \<or> x = a + psize s a - page_size)"
    using fold_set_bits [of "for_each_ranges 0 s" ?s] geometryD(1) [OF geo] unfolding rebits_def
    by (auto simp: l page_bit_def)
  show "free_mem (rebits ?s) = free_mem s" "deferred_free (rebits ?s) = deferred_free s"
    "psize (rebits ?s) = psize s" by (simp_all add: b(1))
  have ok: "block_ok a (psize s a)" if "a \<in> ranges s" for a using geometryD(1) [OF geo] that by simp
  have last: "page_addr (a + psize s a - page_size)" "inside_free s a" "inside_free s (a + psize s a - page_size)"
    if "a \<in> ranges s" for a
    using block_okD(5,6,9) [OF ok [OF that]] that by (auto intro!: inside_freeI)
  then have "tags_ok (s\<lparr>bitmap := b\<rparr>) B"
    using tagsD(1) [OF pra_invD(3) [OF inv]] b(2) block_okD(1,6) [OF ok] unfolding tags_ok_def
    by (auto simp: page_bit_def inside_free_upd)
  then show "pra_inv (rebits ?s) B"
    using pra_invD(1,2,4) [OF inv] unfolding b(1)
    by (simp add: pra_inv_def lists_ok_def geometry_ok_def coalesced_def in_bitmap_def)
qed

lemma bitmap_size_upd_simps [simp]:
  "pr_order (s\<lparr>bitmap_size := k\<rparr>) = pr_order s"
  "set_not_empty i b (s\<lparr>bitmap_size := k\<rparr>) = (set_not_empty i b s)\<lparr>bitmap_size := k\<rparr>"
  "new_range a n (s\<lparr>bitmap_size := k\<rparr>) = (new_range a n s)\<lparr>bitmap_size := k\<rparr>"
  "remove_list i a (s\<lparr>bitmap_size := k\<rparr>) = (remove_list i a s)\<lparr>bitmap_size := k\<rparr>"
  "remove_huge a (s\<lparr>bitmap_size := k\<rparr>) = (remove_huge a s)\<lparr>bitmap_size := k\<rparr>"
  "pra_remove a (s\<lparr>bitmap_size := k\<rparr>) = (pra_remove a s)\<lparr>bitmap_size := k\<rparr>"
  "pra_insert False a (s\<lparr>bitmap_size := k\<rparr>) = (pra_insert False a s)\<lparr>bitmap_size := k\<rparr>"
  by (simp_all add: pr_order_def set_not_empty_def new_range_def remove_list_def
      remove_huge_def pra_remove_def pra_insert_def Let_def fun_eq_iff)

lemma pra_take_size_upd:
  "pra_take sz c (s\<lparr>bitmap_size := k\<rparr>) = map_option (\<lambda>(a, t). (a, t\<lparr>bitmap_size := k\<rparr>)) (pra_take sz c s)"
  by (simp add: pra_take_unfold orders_from_def Let_def split: option.split)

lemma pra_alloc_size_upd:
  assumes "pra_alloc False sz c s = (r, s')"
  shows "pra_alloc False sz c (s\<lparr>bitmap_size := k\<rparr>) = (r, s'\<lparr>bitmap_size := k\<rparr>)"
  using assms by (auto simp: pra_alloc_def pra_take_size_upd Let_def split: option.splits)

lemma bitmap_pra_take: "pra_take sz c s = Some (a, t) \<Longrightarrow> bitmap t = bitmap s"
  by (auto simp: pra_take_unfold Let_def split: if_splits option.splits)

lemma bitmap_pra_alloc: "pra_alloc False sz c s = (r, s') \<Longrightarrow> bitmap s' = bitmap s \<and> deferred_free s' = deferred_free s"
  by (auto simp: pra_alloc_def Let_def bitmap_pra_insert pra_take_unfold split: if_splits option.splits)

definition fresh_block :: "pra \<Rightarrow> (nat \<times> nat) set \<Rightarrow> nat \<Rightarrow> nat \<Rightarrow> bool" where
  "fresh_block s B p n \<longleftrightarrow> block_ok p n \<and> psize s p = n \<and>
     (\<forall>a \<in> ranges s. separate a (psize s a) p n) \<and> (\<forall>(b, m) \<in> B. separate b m p n)"

lemma separate_sym: "separate a n b m \<longleftrightarrow> separate b m a n"
  by (auto simp: separate_def)

lemma fresh_block_inv:
  assumes inv: "pra_inv s B" and fresh: "fresh_block s B p n" and bm: "in_bitmap s p n"
  shows "pra_inv s (insert (p, n) B)" and "(p, n) \<notin> B"
proof -
  have f: "block_ok p n" "\<And>a. a \<in> ranges s \<Longrightarrow> separate a (psize s a) p n" "\<And>b m. (b, m) \<in> B \<Longrightarrow> separate b m p n"
    using fresh by (auto simp: fresh_block_def)
  show "(p, n) \<notin> B" using f(3) [of p n] block_okD(6) [OF f(1)] by (auto simp: separate_def)
  have "\<And>b m. (b, m) \<in> B \<Longrightarrow> separate p n b m" using f(3) separate_sym by blast
  then have "geometry_ok s (insert (p, n) B)"
    using f bm pra_invD(2) [OF inv] unfolding geometry_ok_def by auto
  moreover have "tags_ok s (insert (p, n) B)"
    using pra_invD(3) [OF inv] inside_block_mono [of B _ "insert (p, n) B"] unfolding tags_ok_def by blast
  ultimately show "pra_inv s (insert (p, n) B)" using inv by (simp add: pra_inv_def)
qed

text \<open>The merge with the range below, as \<open>initial_add\<close> writes it.\<close>

definition initial_left :: "nat \<Rightarrow> pra \<Rightarrow> nat \<times> pra" where
  "initial_left pr s =
     (let first = get_bitmap_idx pr in
        if first \<noteq> 0 \<and> first - 1 < bitmap_size s \<and> bitmap s (first - 1) then
          (let pr2 = ptail s pr; s' = pra_remove pr2 s in
             (pr2, new_range pr2 (psize s' pr2 + psize s' pr) s'))
        else (pr, s))"

lemma initial_left_merge:
  assumes inv: "pra_inv s B" and l: "loose (s\<lparr>bitmap_size := k\<rparr>) B p n"
  shows "\<exists>q s1. initial_left p s = (q, s1) \<and> merge_left p (s\<lparr>bitmap_size := k\<rparr>) = (q, s1\<lparr>bitmap_size := k\<rparr>)"
proof -
  have "get_bitmap_idx p - 1 < bitmap_size s" if set: "get_bitmap_idx p \<noteq> 0" "bitmap s (get_bitmap_idx p - 1)"
  proof -
    obtain a where "a \<in> ranges s" "a + psize s a = p" using left_bit_iff [OF l] set by auto
    then have "get_bitmap_idx p \<le> bitmap_size s"
      using geometryD(2) [OF pra_invD(2) [OF inv]] by (auto simp: in_bitmap_def)
    then show ?thesis using set(1) by linarith
  qed
  then show ?thesis by (auto simp: initial_left_def merge_left_def Let_def)
qed


lemma pra_free_deferred: "deferred_free (pra_free p s) = deferred_free s"
  by (simp add: pra_free_def Let_def)

lemma initial_add_unfold:
  "initial_add grow pr s =
     (let idx = get_bitmap_idx pr + psize s pr div page_size in
        if bitmap_size s < idx then
          (case initial_left pr s of (pr1, s1) \<Rightarrow>
             case bitmap_resize grow idx (pra_insert False pr1 s1) of
               None \<Rightarrow> None
             | Some s2 \<Rightarrow>
                 (case deferred_free (rebits s2) of
                    None \<Rightarrow> Some (rebits s2)
                  | Some d \<Rightarrow> Some ((pra_free d (rebits s2))\<lparr>deferred_free := None\<rparr>)))
        else Some (pra_free pr s))"
  unfolding initial_add_def initial_left_def rebits_def Let_def by (rule refl)

text \<open>The state between the insertion of the new range and the rebuilding of the bitmap.\<close>

lemma initial_insert:
  assumes inv: "pra_inv s B" and fresh: "fresh_block s B p n"
    and grow: "bitmap_size s < k" and k: "k = get_bitmap_idx (p + n)" and left: "initial_left p s = (q, s1)"
  shows "\<exists>bm. pra_inv ((pra_insert False q s1)\<lparr>bitmap_size := k, bitmap := bm\<rparr>) B"
    and "free_mem (pra_insert False q s1) = free_mem s \<union> span p n"
    and "deferred_free (pra_insert False q s1) = deferred_free s"
proof -
  let ?s = "s\<lparr>bitmap_size := k\<rparr>"
  have inv0: "pra_inv ?s B" by (rule pra_inv_bitmap_size [OF inv]) (use grow in simp)
  have "fresh_block ?s B p n" using fresh by (simp add: fresh_block_def)
  note blk = fresh_block_inv [OF inv0 this]
  have "in_bitmap ?s p n" using k by (simp add: in_bitmap_def)
  note blk = blk [OF this]
  have "psize ?s p = n" using fresh by (simp add: fresh_block_def)
  from loose_start [OF blk(1) _ this] have l: "loose ?s B p n" using blk(2) by simp
  obtain m t where t: "merge_left p ?s = (q, t)" and lt: "loose t B q m" and no: "\<forall>a \<in> ranges t. a + psize t a \<noteq> q"
    and mem: "free_mem t \<union> span q m = free_mem ?s \<union> span p n" and e: "q + m = p + n" "ranges t \<subseteq> ranges s"
    using merge_left_ok [OF l] initial_left_merge [OF inv l] left by auto
  have t1: "t = s1\<lparr>bitmap_size := k\<rparr>" using initial_left_merge [OF inv l] left t by auto
  have "q + m \<notin> ranges t"
  proof
    assume "q + m \<in> ranges t"
    then have "get_bitmap_idx (q + m + psize s (q + m)) \<le> bitmap_size s"
      using geometryD(2) [OF pra_invD(2) [OF inv], of "q + m"] e(2) by (auto simp: in_bitmap_def)
    then show False using idx_mono [of "q + m" "q + m + psize s (q + m)"] grow k e(1) by simp
  qed
  note fin = loose_finish [OF lt _ this]
  obtain bm where bm: "pra_insert True q t = (pra_insert False q t)\<lparr>bitmap := bm\<rparr>" using pra_insert_upd by blast
  show "\<exists>bm. pra_inv ((pra_insert False q s1)\<lparr>bitmap_size := k, bitmap := bm\<rparr>) B"
    using fin(1) no unfolding bm by (intro exI [of _ bm]) (simp add: t1)
  have "free_mem (pra_insert True q t) = free_mem t \<union> span q m" using fin(2) no by blast
  then show "free_mem (pra_insert False q s1) = free_mem s \<union> span p n"
    using mem unfolding bm by (simp add: t1)
  show "deferred_free (pra_insert False q s1) = deferred_free s"
    using left by (auto simp: initial_left_def Let_def split: if_splits)
qed

definition blocks_mem :: "(nat \<times> nat) set \<Rightarrow> nat set" where
  "blocks_mem B = (\<Union>(b, m) \<in> B. span b m)"

lemma blocks_mem_insert: "blocks_mem (insert (b, m) B) = span b m \<union> blocks_mem B"
  by (simp add: blocks_mem_def)

lemma blocks_mem_remove: "(b, m) \<in> B \<Longrightarrow> blocks_mem (B - {(b, m)}) \<union> span b m = blocks_mem B"
  by (auto simp: blocks_mem_def)

text \<open>
  What the bitset library may ask for: a buffer of at least one word, in exchange for the one
  it got before.
\<close>

definition grow_ok :: "(nat \<times> (nat \<times> nat) option) option \<Rightarrow> (nat \<times> nat) set \<Rightarrow> bool" where
  "grow_ok grow B \<longleftrightarrow> (case grow of None \<Rightarrow> True
     | Some (n, old) \<Rightarrow> 0 < n \<and> n < 2 ^ 60 \<and>
         (case old of None \<Rightarrow> True | Some (p, m) \<Rightarrow> (p, bitmap_buffer_size m) \<in> B))"

lemma bitmap_buffer_request:
  assumes "0 < n" and "n < 2 ^ 60"
  shows "request_ok (bitmap_buffer_size n)"
  using nalign_up_ge [of page_size "8 * n"] nalign_up_lt [of page_size "8 * n"] assms
  by (simp add: request_ok_def bitmap_buffer_size_def page_size_def)


lemma bitmap_resize_inv:
  assumes inv: "pra_inv (s\<lparr>bitmap_size := k, bitmap := bm\<rparr>) B" and ok: "grow_ok grow B"
    and nodef: "deferred_free s = None" and res: "bitmap_resize grow k s = Some s'"
  shows "\<exists>B'. pra_inv (rebits s') B' \<and> free_mem (rebits s') \<union> blocks_mem B' = free_mem s \<union> blocks_mem B \<and>
    (case deferred_free (rebits s') of None \<Rightarrow> True | Some d \<Rightarrow> (d, psize (rebits s') d) \<in> B')"
proof (cases grow)
  case None
  then have "s' = s\<lparr>bitmap_size := k, bitmap := (\<lambda>_. False)\<rparr>" using res by (auto simp: bitmap_resize_def)
  then show ?thesis using rebits_inv [OF inv] nodef by (intro exI [of _ B]) simp
next
  case (Some x)
  then obtain n old where g: "grow = Some (n, old)" by force
  let ?sz = "bitmap_buffer_size n" let ?F = "\<lambda>_. False"
  have req: "request_ok ?sz" using ok g by (intro bitmap_buffer_request) (simp_all add: grow_ok_def)
  obtain buf t where t: "pra_alloc False ?sz True (s\<lparr>bitmap := ?F\<rparr>) = (Some buf, t)"
    using res g by (auto simp: bitmap_resize_def bitmap_allocate_def split: prod.splits option.splits)
  define u where "u = t\<lparr>bitmap_size := k\<rparr>"
  have u: "u = u\<lparr>bitmap := ?F\<rparr>" "deferred_free u = None" using bitmap_pra_alloc [OF t] nodef by (simp_all add: u_def)
  obtain bm' where a: "pra_alloc True ?sz True (s\<lparr>bitmap_size := k, bitmap := bm\<rparr>) = (Some buf, u\<lparr>bitmap := bm'\<rparr>)"
    using pra_alloc_upd [OF pra_alloc_size_upd [OF t], of bm k] by (auto simp: u_def)
  note al = pra_alloc_Some [OF inv req a]
  let ?B = "insert (buf, ?sz) B"
  have mem: "free_mem u \<union> blocks_mem ?B = free_mem s \<union> blocks_mem B"
    using al(2,3) by (auto simp: blocks_mem_insert)
  show ?thesis
  proof (cases old)
    case None
    then have "s' = u\<lparr>bitmap := ?F\<rparr>" using res t u g by (simp add: bitmap_resize_def bitmap_allocate_def u_def)
    then show ?thesis using rebits_inv [OF al(1)] u(2) mem by (intro exI [of _ ?B]) simp
  next
    case (Some pm)
    then obtain p m where pm: "old = Some (p, m)" by force
    let ?m = "bitmap_buffer_size m" let ?v = "(new_range p ?m u)\<lparr>deferred_free := Some p\<rparr>"
    have "bitmap_deallocate p m u = Some s'"
      using res t g pm by (simp add: bitmap_resize_def bitmap_allocate_def u_def)
    then have "s' = ?v" using u(2) by (simp add: bitmap_deallocate_def)
    also have "\<dots> = ?v\<lparr>bitmap := ?F\<rparr>" using bitmap_pra_alloc [OF t] by (simp add: u_def)
    finally have s': "s' = ?v\<lparr>bitmap := ?F\<rparr>" .
    have mem': "(p, ?m) \<in> ?B" using ok g pm by (simp add: grow_ok_def)
    have "0 < ?m" using block_okD(6) [OF geometryD(3) [OF pra_invD(2) [OF al(1)] mem']] .
    note w = client_write_inv [OF al(1) new_range_client_write [OF mem' this, of _ ?m]]
    have "?v\<lparr>bitmap := bm'\<rparr> = (new_range p ?m (u\<lparr>bitmap := bm'\<rparr>))\<lparr>deferred_free := Some p\<rparr>"
      by (simp add: new_range_def)
    then have "pra_inv (?v\<lparr>bitmap := bm'\<rparr>) ?B" using w(1) by (simp only: pra_inv_deferred)
    note r = rebits_inv [OF this]
    have "free_mem ?v = free_mem u" using w(2) by simp
    then show ?thesis using r mem mem' unfolding s' by (intro exI [of _ ?B]) simp
  qed
qed


section \<open>Runs of the allocator\<close>

text \<open>
  The state of the allocator with the blocks that are out, and what may happen to it: the
  clients allocate, write into their blocks, release them (a block whose header still holds its
  size) and divide blocks whose pages are all marked in use.
\<close>

inductive pra_step :: "pra \<times> (nat \<times> nat) set \<Rightarrow> pra \<times> (nat \<times> nat) set \<Rightarrow> bool" where
  alloc: "request_ok sz \<Longrightarrow> pra_alloc True sz contiguous s = (Some r, s') \<Longrightarrow>
    pra_step (s, B) (s', insert (r, sz) B)"
| aligned: "align_request_ok sz offset alignment \<Longrightarrow>
    pra_alloc_aligned sz offset alignment fill s = (Some r, s') \<Longrightarrow> pra_step (s, B) (s', insert (r, sz) B)"
| free: "(p, n) \<in> B \<Longrightarrow> psize s p = n \<Longrightarrow> pra_step (s, B) (pra_free p s, B - {(p, n)})"
| client: "client_write s s' B \<Longrightarrow> pra_step (s, B) (s', B)"
| divide: "(p, n) \<in> B \<Longrightarrow> page_size dvd k \<Longrightarrow> 0 < k \<Longrightarrow> k < n \<Longrightarrow>
    (\<And>x. page_addr x \<Longrightarrow> p \<le> x \<Longrightarrow> x < p + n \<Longrightarrow> \<not> page_bit s x) \<Longrightarrow>
    pra_step (s, B) (s, insert (p, k) (insert (p + k, n - k) (B - {(p, n)})))"

lemma pra_step_inv:
  assumes "pra_step x y" and "pra_inv (fst x) (snd x)"
  shows "pra_inv (fst y) (snd y) \<and> free_mem (fst y) \<union> blocks_mem (snd y) = free_mem (fst x) \<union> blocks_mem (snd x)"
  using assms
proof (induction rule: pra_step.induct)
  case (alloc sz contiguous s r s' B)
  then show ?case using pra_alloc_Some [of s B sz contiguous r s'] by (auto simp: blocks_mem_insert)
next
  case (aligned sz offset alignment fill s r s' B)
  then show ?case
    using pra_alloc_aligned_Some [of s B sz offset alignment fill r s'] by (auto simp: blocks_mem_insert)
next
  case (free p n B s)
  then show ?case using pra_free_spec [of s B p n] blocks_mem_remove [of p n B] by auto
next
  case (client s s' B)
  then show ?case using client_write_inv [of s B s'] by simp
next
  case (divide p n B k s)
  have "span p k \<union> span (p + k) (n - k) = span p n" using divide by (auto simp: span_def)
  then have "blocks_mem (insert (p, k) (insert (p + k, n - k) (B - {(p, n)}))) = blocks_mem B"
    using blocks_mem_remove [OF divide(1)] by (auto simp: blocks_mem_insert)
  then show ?case using split_block [of s B p n k] divide by simp
qed

lemma pra_inv_disjoint:
  assumes "pra_inv s B"
  shows "free_mem s \<inter> blocks_mem B = {}"
    and "(a, n) \<in> B \<Longrightarrow> (b, m) \<in> B \<Longrightarrow> (a, n) \<noteq> (b, m) \<Longrightarrow> span a n \<inter> span b m = {}"
proof -
  note geo = pra_invD(2) [OF assms]
  have "x \<notin> span b m" if "x \<in> span a (psize s a)" "a \<in> ranges s" "(b, m) \<in> B" for x a b m
    using geometryD(6) [OF geo that(2,3)] that(1) by (auto simp: separate_def)
  then show "free_mem s \<inter> blocks_mem B = {}" by (force simp: free_mem_def blocks_mem_def)
  show "span a n \<inter> span b m = {}" if "(a, n) \<in> B" "(b, m) \<in> B" "(a, n) \<noteq> (b, m)"
    using geometryD(7) [OF geo that] by (auto simp: separate_def)
qed

lemma pra_run_inv:
  assumes "pra_step\<^sup>*\<^sup>* x y" and "pra_inv (fst x) (snd x)"
  shows "pra_inv (fst y) (snd y) \<and> free_mem (fst y) \<union> blocks_mem (snd y) = free_mem (fst x) \<union> blocks_mem (snd x)"
  using assms by (induction rule: rtranclp_induct) (auto dest: pra_step_inv)

section \<open>A small machine\<close>

text \<open>Sixteen pages of memory, for concrete runs.\<close>

definition small_machine :: pra where
  "small_machine = pra_free phys_mem (new_range phys_mem (16 * page_size) (pra_init\<lparr>bitmap_size := 16\<rparr>))"

lemma pra_init_inv: "pra_inv pra_init {}"
  by (simp add: pra_inv_def lists_ok_def geometry_ok_def tags_ok_def coalesced_def ranges_def page_bit_def pra_init_def)

lemma fresh_in_init:
  assumes "block_ok p n"
  shows "pra_inv (new_range p n (pra_init\<lparr>bitmap_size := k\<rparr>)) {}"
    and "fresh_block (new_range p n (pra_init\<lparr>bitmap_size := k\<rparr>)) {} p n"
  using assms
  by (simp_all add: pra_inv_def lists_ok_def geometry_ok_def tags_ok_def coalesced_def ranges_def page_bit_def
      pra_init_def new_range_def fresh_block_def)

lemma small_machine:
  shows small_machine_inv: "pra_inv small_machine {}"
    and small_machine_mem: "free_mem small_machine = span phys_mem (16 * page_size)"
proof -
  have ok: "block_ok phys_mem (16 * page_size)"
    using page_size_dvd_phys_mem by (simp add: block_ok_def page_addr_def) (simp add: mem_area_size_def page_size_def)
  let ?s = "new_range phys_mem (16 * page_size) (pra_init\<lparr>bitmap_size := 16\<rparr>)"
  have "in_bitmap ?s phys_mem (16 * page_size)"
    by (simp add: in_bitmap_def get_bitmap_idx_def page_size_def)
  note f = fresh_block_inv [OF fresh_in_init [OF ok] this]
  have "ranges ?s = {}" by (simp add: ranges_def pra_init_def)
  then show "pra_inv small_machine {}" "free_mem small_machine = span phys_mem (16 * page_size)"
    using pra_free_spec [OF f(1)] unfolding small_machine_def by (simp_all add: free_mem_def)
qed


lemma small_machine_range: "phys_mem \<in> ranges small_machine" "psize small_machine phys_mem = 16 * page_size"
  by (simp_all add: small_machine_def pra_free_def Let_def get_bitmap_idx_def ranges_insert)

lemma initial_add_defined:
  assumes "bitmap_resize grow k t = Some u" and "k = get_bitmap_idx p + psize s p div page_size"
    and "bitmap_size s < k" and "initial_left p s = (q, s1)" and "t = pra_insert False q s1"
  shows "\<exists>s'. initial_add grow p s = Some s'"
  using assms by (simp add: initial_add_unfold Let_def split: option.split)

lemma free_mem_card:
  assumes "pra_inv s B"
  shows "card (free_mem s) = (\<Sum>a \<in> ranges s. psize s a)"
proof -
  have "span a (psize s a) \<inter> span b (psize s b) = {}" if "a \<in> ranges s" "b \<in> ranges s" "a \<noteq> b" for a b
    using geometryD(5) [OF pra_invD(2) [OF assms] that] by (auto simp: separate_def)
  moreover have "finite (ranges s)" by (simp add: ranges_def)
  ultimately have "card (free_mem s) = (\<Sum>a \<in> ranges s. card (span a (psize s a)))"
    unfolding free_mem_def by (intro card_UN_disjoint) (auto simp: span_def)
  then show ?thesis by (simp add: span_def)
qed

lemma ranges_sum:
  fixes f :: "nat \<Rightarrow> nat"
  assumes ok: "lists_ok s"
  shows "(\<Sum>a \<in> ranges s. f a) = sum_list (map f (free_huge s)) + (\<Sum>i < max_order. sum_list (map f (free_lists s i)))"
proof -
  have dis: "set (free_lists s i) \<inter> set (free_lists s j) = {}" if "i < max_order" "j < max_order" "i \<noteq> j" for i j
    using lists_okD(2) [OF ok] that by blast
  have "set (free_huge s) \<inter> (\<Union>i < max_order. set (free_lists s i)) = {}"
    using lists_okD(1,2) [OF ok] by fastforce
  then have "(\<Sum>a \<in> ranges s. f a) = sum f (set (free_huge s)) + sum f (\<Union>i < max_order. set (free_lists s i))"
    unfolding ranges_def by (intro sum.union_disjoint) auto
  also have "sum f (\<Union>i < max_order. set (free_lists s i)) = (\<Sum>i < max_order. sum f (set (free_lists s i)))"
    using dis by (intro sum.UNION_disjoint) auto
  also have "\<dots> = (\<Sum>i < max_order. sum_list (map f (free_lists s i)))"
    using lists_okD(4) [OF ok] by (intro sum.cong) (auto simp: sum_list_distinct_conv_sum_set)
  finally show ?thesis using lists_okD(3) [OF ok] by (simp add: sum_list_distinct_conv_sum_set)
qed

section \<open>Properties\<close>

text \<open>Claim C18: a request for a whole number of pages is served from free memory and from
  nowhere else: the block is page aligned, was free, is no longer free, all other free memory
  stays free, and the invariant (lists, sizes, back pointers, boundary bits, no two adjacent free
  ranges) holds with the block handed out. When a contiguous request fails nothing changed and
  no free range was large enough.\<close>

theorem pra_alloc_exact:
  assumes "pra_inv s B" and "request_ok sz"
  shows "case pra_alloc True sz contiguous s of
     (Some r, s') \<Rightarrow> pra_inv s' (insert (r, sz) B) \<and> page_addr r \<and> psize s' r = sz \<and>
       span r sz \<subseteq> free_mem s \<and> free_mem s' = free_mem s - span r sz
   | (None, s') \<Rightarrow> s' = s \<and> (contiguous \<longrightarrow> (\<forall>a \<in> ranges s. psize s a < sz))"
proof -
  obtain r s' where al: "pra_alloc True sz contiguous s = (r, s')" by force
  show ?thesis
  proof (cases r)
    case None
    then show ?thesis using pra_alloc_None [OF assms] al by auto
  next
    case (Some x)
    then show ?thesis using pra_alloc_Some [OF assms] al by auto
  qed
qed

theorem pra_alloc_exact_witness:
  "\<exists>r s'. pra_alloc True (4 * page_size) True small_machine = (Some r, s') \<and>
     pra_inv s' {(r, 4 * page_size)} \<and> free_mem s' = span phys_mem (16 * page_size) - span r (4 * page_size)"
proof -
  obtain r s' where al: "pra_alloc True (4 * page_size) True small_machine = (r, s')" by force
  have "request_ok (4 * page_size)" by (simp add: request_ok_def page_size_def)
  from pra_alloc_exact [OF small_machine_inv this, of True] show ?thesis
    using al small_machine_range small_machine_mem by (cases r) (auto dest!: bspec)
qed



text \<open>Claim C19: releasing a block whose header holds its size gives exactly its memory back and
  keeps the invariant; in particular the released block is joined with its free neighbours,
  since no two free ranges touch.\<close>

theorem pra_free_exact:
  assumes "pra_inv s B" and "(p, n) \<in> B" and "psize s p = n"
  shows "pra_inv (pra_free p s) (B - {(p, n)}) \<and> free_mem (pra_free p s) = free_mem s \<union> span p n \<and>
    (\<forall>a \<in> ranges (pra_free p s). \<forall>b \<in> ranges (pra_free p s). a + psize (pra_free p s) a \<noteq> b)"
  using pra_free_spec [OF assms] pra_invD(4) [OF pra_free_spec(1) [OF assms]] by (auto simp: coalesced_def)

theorem pra_free_exact_witness:
  "\<exists>r s'. pra_alloc True (4 * page_size) True small_machine = (Some r, s') \<and>
     pra_inv (pra_free r s') {} \<and> free_mem (pra_free r s') = span phys_mem (16 * page_size)"
proof -
  obtain r s' where al: "pra_alloc True (4 * page_size) True small_machine = (r, s')" by force
  have req: "request_ok (4 * page_size)" by (simp add: request_ok_def page_size_def)
  have "r \<noteq> None"
    using pra_alloc_None(2) [OF small_machine_inv req, of True s' phys_mem] al small_machine_range by auto
  then obtain x where x: "r = Some x" by auto
  note some = pra_alloc_Some [OF small_machine_inv req al [unfolded x]]
  show ?thesis
    using pra_free_exact [OF some(1) _ some(4)] some(2,3) al x small_machine_mem by auto
qed

text \<open>Claim C1: over any sequence of allocations, aligned allocations, releases, divisions and
  client writes, the free memory and the blocks that are out partition the same memory: nothing
  is lost, nothing is handed out twice and no two blocks overlap.\<close>

theorem pra_run_partition:
  assumes "pra_inv s B" and "pra_step\<^sup>*\<^sup>* (s, B) (s', B')"
  shows "pra_inv s' B' \<and> free_mem s' \<union> blocks_mem B' = free_mem s \<union> blocks_mem B \<and>
    free_mem s' \<inter> blocks_mem B' = {} \<and>
    (\<forall>(a, n) \<in> B'. \<forall>(b, m) \<in> B'. (a, n) \<noteq> (b, m) \<longrightarrow> span a n \<inter> span b m = {})"
proof -
  have inv: "pra_inv s' B'" and mem: "free_mem s' \<union> blocks_mem B' = free_mem s \<union> blocks_mem B"
    using pra_run_inv [OF assms(2)] assms(1) by auto
  show ?thesis using inv mem pra_inv_disjoint [OF inv] by blast
qed

theorem pra_run_partition_witness:
  "\<exists>r s' B'. pra_step\<^sup>*\<^sup>* (small_machine, {}) (s', B') \<and> B' = {(r, 4 * page_size)} \<and>
     free_mem s' \<union> span r (4 * page_size) = span phys_mem (16 * page_size) \<and>
     free_mem s' \<inter> span r (4 * page_size) = {}"
proof -
  obtain r s' where al: "pra_alloc True (4 * page_size) True small_machine = (r, s')" by force
  have req: "request_ok (4 * page_size)" by (simp add: request_ok_def page_size_def)
  have "r \<noteq> None"
    using pra_alloc_None(2) [OF small_machine_inv req, of True s' phys_mem] al small_machine_range by auto
  then obtain x where x: "r = Some x" by auto
  have run: "pra_step\<^sup>*\<^sup>* (small_machine, {}) (s', {(x, 4 * page_size)})"
    using pra_step.alloc [OF req al [unfolded x], of "{}"] by blast
  show ?thesis
    using pra_run_partition [OF small_machine_inv run] run small_machine_mem
    by (intro exI [of _ x] exI [of _ s'] exI [of _ "{(x, 4 * page_size)}"]) (simp add: blocks_mem_def)
qed



text \<open>Claim C35: the bytes that the statistics report for the orders add up to the free memory,
  and the numbers of ranges to the number of free ranges, which is also what \<open>size\<close> returns.\<close>

theorem pra_stats_total:
  assumes "pra_inv s B"
  shows "(\<Sum>order \<le> max_order. snd (pra_stats s order)) = card (free_mem s) \<and>
    (\<Sum>order \<le> max_order. fst (pra_stats s order)) = card (ranges s) \<and> pra_count s = card (ranges s)"
proof -
  have split: "(\<Sum>order \<le> max_order. g order) = g max_order + (\<Sum>order < max_order. g order)" for g :: "nat \<Rightarrow> nat"
    by (simp add: lessThan_Suc_atMost [symmetric])
  have "(\<Sum>order < max_order. snd (pra_stats s order)) = (\<Sum>i < max_order. sum_list (map (psize s) (free_lists s i)))"
    "(\<Sum>order < max_order. fst (pra_stats s order)) = (\<Sum>i < max_order. length (free_lists s i))"
    by (intro sum.cong; simp add: pra_stats_def Let_def)+
  moreover have "card (ranges s) = length (free_huge s) + (\<Sum>i < max_order. length (free_lists s i))"
    using ranges_sum [OF pra_invD(1) [OF assms], of "\<lambda>_. 1"] by (simp add: sum_list_triv)
  moreover have "sum_list (map (\<lambda>i. length (free_lists s i)) [0 ..< max_order]) = (\<Sum>i < max_order. length (free_lists s i))"
    by (simp add: sum_list_distinct_conv_sum_set atLeast0LessThan)
  ultimately show ?thesis
    unfolding split free_mem_card [OF assms] ranges_sum [OF pra_invD(1) [OF assms]] pra_count_def
    by (simp add: pra_stats_def Let_def)
qed

theorem pra_stats_total_witness:
  "(\<Sum>order \<le> max_order. snd (pra_stats small_machine order)) = 65536"
  using pra_stats_total [OF small_machine_inv] by (simp add: small_machine_mem span_def page_size_def)

end
