(* ===== verification/Semaphores.thy ===== *)
theory Semaphores
  imports Prelude
begin

text \<open>
  Counting semaphores (\<open>core/semaphore.cc\<close>), the POSIX layer over them (\<open>libc/sem.cc\<close>) and
  barriers (\<open>libc/pthread_barrier.cc\<close>). Every operation holds a mutex, so it is one atomic step;
  a thread that waits is split at the wait: \<open>semaphore_wait\<close> runs up to it and
  \<open>semaphore_resume\<close> from the moment its condition holds. Threads are numbers.
\<close>

section \<open>Semaphores\<close>

text \<open>
  A waiter is its thread and the units it asks for. \<open>wr.owner\<close> is null exactly when the record
  has been taken off the list by \<open>post\<close>, so the list of records is the whole state.
\<close>

record semaphore =
  sem_val :: nat
  waiters :: "(nat \<times> nat) list"

definition semaphore_init :: "nat \<Rightarrow> semaphore" where
  "semaphore_init val = \<lparr>sem_val = val, waiters = []\<rparr>"

text \<open>The loop of \<open>post_unlocked\<close>: what is left of the value, the waiters that stay and those woken.\<close>

fun post_scan :: "nat \<Rightarrow> (nat \<times> nat) list \<Rightarrow> nat \<times> (nat \<times> nat) list \<times> nat list" where
  "post_scan v [] = (v, [], [])"
| "post_scan v ((owner, units) # ws) =
     (if v = 0 then (v, (owner, units) # ws, [])
      else if units \<le> v then
        (case post_scan (v - units) ws of (v', rest, woken) \<Rightarrow> (v', rest, owner # woken))
      else
        (case post_scan v ws of (v', rest, woken) \<Rightarrow> (v', (owner, units) # rest, woken)))"

definition semaphore_post :: "nat \<Rightarrow> semaphore \<Rightarrow> nat list \<times> semaphore" where
  "semaphore_post units s =
     (case post_scan ((sem_val s + units) mod 2 ^ 32) (waiters s) of
        (v, rest, woken) \<Rightarrow> (woken, \<lparr>sem_val = v, waiters = rest\<rparr>))"

text \<open>\<open>Some True\<close>: the units were taken at once; \<open>None\<close>: the caller waits.\<close>

definition semaphore_wait :: "nat \<Rightarrow> nat \<Rightarrow> semaphore \<Rightarrow> bool option \<times> semaphore" where
  "semaphore_wait t units s =
     (if units \<le> sem_val s then (Some True, s\<lparr>sem_val := sem_val s - units\<rparr>)
      else (None, s\<lparr>waiters := waiters s @ [(t, units)]\<rparr>))"

text \<open>The rest of \<open>wait\<close>, run when the record was taken off the list or the timer expired.\<close>

definition semaphore_resume :: "nat \<Rightarrow> bool \<Rightarrow> semaphore \<Rightarrow> bool option \<times> semaphore" where
  "semaphore_resume t expired s =
     (case find (\<lambda>w. fst w = t) (waiters s) of
        None \<Rightarrow> (Some True, s)
      | Some w \<Rightarrow>
          if expired then (Some False, s\<lparr>waiters := remove1 w (waiters s)\<rparr>) else (None, s))"

definition semaphore_trywait :: "nat \<Rightarrow> semaphore \<Rightarrow> bool \<times> semaphore" where
  "semaphore_trywait units s =
     (if units \<le> sem_val s then (True, s\<lparr>sem_val := sem_val s - units\<rparr>) else (False, s))"

section \<open>POSIX semaphores\<close>

datatype errno = EINVAL | ETIMEDOUT | EAGAIN | EEXIST | ENOENT

record posix_semaphore =
  sem :: semaphore
  references :: int
  named :: bool

definition add_reference :: "posix_semaphore \<Rightarrow> posix_semaphore" where
  "add_reference p = p\<lparr>references := references p + 1\<rparr>"

definition remove_reference :: "posix_semaphore \<Rightarrow> posix_semaphore" where
  "remove_reference p = p\<lparr>references := references p - 1\<rparr>"

definition not_referenced :: "posix_semaphore \<Rightarrow> bool" where
  "not_referenced p \<longleftrightarrow> references p \<le> 0"

definition unlink_sem :: "posix_semaphore \<Rightarrow> posix_semaphore" where
  "unlink_sem p = p\<lparr>named := False\<rparr>"

text \<open>
  The libc state: the semaphore behind each \<open>sem_t\<close> (None once its destructor ran) and the table
  of names. \<open>next_addr\<close> is the address the next \<open>new\<close> returns.
\<close>

record sem_store =
  sems :: "nat \<Rightarrow> posix_semaphore option"
  named_semaphores :: "(string \<times> nat) list"
  next_addr :: nat

definition sem_init :: "nat \<Rightarrow> nat \<Rightarrow> sem_store \<Rightarrow> sem_store" where
  "sem_init a val st =
     st\<lparr>sems := (sems st)(a \<mapsto> \<lparr>sem = semaphore_init val, references = 1, named = False\<rparr>)\<rparr>"

definition sem_destroy :: "nat \<Rightarrow> sem_store \<Rightarrow> sem_store" where
  "sem_destroy a st = st\<lparr>sems := (sems st)(a := None)\<rparr>"

text \<open>The operations on a live semaphore; \<open>None\<close> is the dereference of a dead one.\<close>

definition with_sem :: "nat \<Rightarrow> (semaphore \<Rightarrow> 'r \<times> semaphore) \<Rightarrow> sem_store \<Rightarrow> ('r \<times> sem_store) option" where
  "with_sem a f st =
     (case sems st a of
        None \<Rightarrow> None
      | Some p \<Rightarrow>
          (case f (sem p) of (r, s) \<Rightarrow> Some (r, st\<lparr>sems := (sems st)(a \<mapsto> p\<lparr>sem := s\<rparr>)\<rparr>)))"

definition sem_post :: "nat \<Rightarrow> sem_store \<Rightarrow> (nat list \<times> sem_store) option" where
  "sem_post a = with_sem a (semaphore_post 1)"

definition sem_wait :: "nat \<Rightarrow> nat \<Rightarrow> sem_store \<Rightarrow> (bool option \<times> sem_store) option" where
  "sem_wait t a = with_sem a (semaphore_wait t 1)"

text \<open>The deadline in nanoseconds with the outcome of the wait so far, or the error.\<close>

definition sem_timedwait ::
  "nat \<Rightarrow> nat \<Rightarrow> int \<Rightarrow> int \<Rightarrow> sem_store \<Rightarrow> (errno + int \<times> bool option \<times> sem_store) option" where
  "sem_timedwait t a tv_sec tv_nsec st =
     (if tv_sec < 0 \<or> tv_nsec < 0 \<or> 1000000000 < tv_nsec then Some (Inl EINVAL)
      else map_option (\<lambda>(r, st'). Inr (tv_sec * 1000000000 + tv_nsec, r, st'))
             (with_sem a (semaphore_wait t 1) st))"

definition sem_timedwait_resume ::
  "nat \<Rightarrow> nat \<Rightarrow> bool \<Rightarrow> sem_store \<Rightarrow> (errno + bool option \<times> sem_store) option" where
  "sem_timedwait_resume t a expired st =
     map_option (\<lambda>(r, st'). if r = Some False then Inl ETIMEDOUT else Inr (r, st'))
       (with_sem a (semaphore_resume t expired) st)"

definition sem_trywait :: "nat \<Rightarrow> sem_store \<Rightarrow> (errno + sem_store) option" where
  "sem_trywait a st =
     map_option (\<lambda>(ok, st'). if ok then Inr st' else Inl EAGAIN) (with_sem a (semaphore_trywait 1) st)"

definition sem_value_max :: nat where
  "sem_value_max = 0x7fffffff"

text \<open>\<open>sem_open\<close> with the flags it looks at and the initial value it reads from the arguments.\<close>

definition sem_open ::
  "string \<Rightarrow> bool \<Rightarrow> bool \<Rightarrow> nat \<Rightarrow> sem_store \<Rightarrow> (errno + nat \<times> sem_store) option" where
  "sem_open name o_creat o_excl value st =
     (case map_of (named_semaphores st) name of
        Some a \<Rightarrow>
          if o_excl \<and> o_creat then Some (Inl EEXIST)
          else
            (case sems st a of
               None \<Rightarrow> None
             | Some p \<Rightarrow> Some (Inr (a, st\<lparr>sems := (sems st)(a \<mapsto> add_reference p)\<rparr>)))
      | None \<Rightarrow>
          if o_creat then
            (if sem_value_max < value then Some (Inl EINVAL)
             else
               (let a = next_addr st in
                  Some (Inr (a, st\<lparr>sems := (sems st)(a \<mapsto>
                     \<lparr>sem = semaphore_init value, references = 1, named = True\<rparr>),
                     named_semaphores := (name, a) # named_semaphores st, next_addr := a + 1\<rparr>))))
          else Some (Inl ENOENT))"

definition sem_unlink :: "string \<Rightarrow> sem_store \<Rightarrow> (errno + sem_store) option" where
  "sem_unlink name st =
     (case map_of (named_semaphores st) name of
        None \<Rightarrow> Some (Inl ENOENT)
      | Some a \<Rightarrow>
          (case sems st a of
             None \<Rightarrow> None
           | Some p \<Rightarrow>
               let st1 = st\<lparr>sems := (sems st)(a \<mapsto> unlink_sem p)\<rparr>;
                   st2 = (if not_referenced (unlink_sem p) then sem_destroy a st1 else st1) in
                 Some (Inr (st2\<lparr>named_semaphores :=
                   filter (\<lambda>e. fst e \<noteq> name) (named_semaphores st2)\<rparr>))))"

definition sem_close :: "nat \<Rightarrow> sem_store \<Rightarrow> sem_store option" where
  "sem_close a st =
     (case sems st a of
        None \<Rightarrow> None
      | Some p \<Rightarrow>
          let p' = remove_reference p;
              st1 = st\<lparr>sems := (sems st)(a \<mapsto> p')\<rparr> in
            Some (if \<not> named p' \<and> not_referenced p' then sem_destroy a st1 else st1))"


section \<open>Barriers\<close>

text \<open>
  \<open>cv\<close> is the queue of threads parked in the wait queue. A thread inside \<open>pthread_barrier_wait\<close>
  is in the first loop (\<open>Prev\<close>, the previous round has not drained) or in the second (\<open>Round\<close>).
\<close>

datatype bphase = Prev | Round | Destroying

datatype bresult = Blocked bphase | Returned int

record barrier =
  count :: nat
  state :: int
  live :: bool
  cv :: "nat list"

definition int_max :: nat where
  "int_max = 2 ^ 31 - 1"

definition einval :: int where
  "einval = 22"

definition serial_thread :: int where
  "serial_thread = - 1"

definition pthread_barrier_init :: "nat \<Rightarrow> int + barrier" where
  "pthread_barrier_init n =
     (if n = 0 \<or> int_max \<le> n then Inl einval
      else Inr \<lparr>count = n, state = 0, live = True, cv = []\<rparr>)"

definition cv_wait :: "nat \<Rightarrow> barrier \<Rightarrow> barrier" where
  "cv_wait t b = b\<lparr>cv := cv b @ [t]\<rparr>"

definition cv_wake_all :: "barrier \<Rightarrow> barrier" where
  "cv_wake_all b = b\<lparr>cv := []\<rparr>"

text \<open>The second loop and what follows it.\<close>

definition barrier_round :: "nat \<Rightarrow> barrier \<Rightarrow> bresult \<times> barrier" where
  "barrier_round t b =
     (if 0 < state b then (Blocked Round, cv_wait t b)
      else
        (let b1 = b\<lparr>state := state b + 1\<rparr> in
           (Returned 0, if state b1 = 0 then cv_wake_all b1 else b1)))"

text \<open>The first loop and what follows it.\<close>

definition barrier_entry :: "nat \<Rightarrow> barrier \<Rightarrow> bresult \<times> barrier" where
  "barrier_entry t b =
     (if state b < 0 then (Blocked Prev, cv_wait t b)
      else
        (let b1 = b\<lparr>state := state b + 1\<rparr> in
           if state b1 = int (count b1)
           then (Returned serial_thread, cv_wake_all (b1\<lparr>state := - int (count b1) + 1\<rparr>))
           else barrier_round t b1))"

definition pthread_barrier_wait :: "nat \<Rightarrow> barrier \<Rightarrow> bresult \<times> barrier" where
  "pthread_barrier_wait t b =
     (if count b = 0 \<or> \<not> live b then (Returned einval, b) else barrier_entry t b)"

definition barrier_destroy_loop :: "nat \<Rightarrow> barrier \<Rightarrow> bresult \<times> barrier" where
  "barrier_destroy_loop t b =
     (if state b < 0 then (Blocked Destroying, cv_wait t b) else (Returned 0, b\<lparr>live := False\<rparr>))"

definition pthread_barrier_destroy :: "nat \<Rightarrow> barrier \<Rightarrow> bresult \<times> barrier" where
  "pthread_barrier_destroy t b =
     (if count b = 0 \<or> \<not> live b then (Returned einval, b) else barrier_destroy_loop t b)"

text \<open>What a woken thread runs.\<close>

fun barrier_resume :: "bphase \<Rightarrow> nat \<Rightarrow> barrier \<Rightarrow> bresult \<times> barrier" where
  "barrier_resume Prev t b = barrier_entry t b"
| "barrier_resume Round t b = barrier_round t b"
| "barrier_resume Destroying t b = barrier_destroy_loop t b"

section \<open>Waiters are served\<close>

text \<open>
  Runs of one semaphore: its state with the units posted and the units handed out so far. A
  thread that waits does not call it again before its wait returned.
\<close>

inductive sem_step :: "semaphore \<times> nat \<times> nat \<Rightarrow> semaphore \<times> nat \<times> nat \<Rightarrow> bool" where
  post: "semaphore_post u s = (woken, s') \<Longrightarrow> sem_val s + u < 2 ^ 32 \<Longrightarrow>
    sem_step (s, p, g) (s', p + u, g + sum_list (map (\<lambda>t. the (map_of (waiters s) t)) woken))"
| wait: "semaphore_wait t u s = (r, s') \<Longrightarrow> t \<notin> fst ` set (waiters s) \<Longrightarrow>
    sem_step (s, p, g) (s', p, g + (if r = Some True then u else 0))"
| resume: "semaphore_resume t expired s = (r, s') \<Longrightarrow> sem_step (s, p, g) (s', p, g)"
| trywait: "semaphore_trywait u s = (ok, s') \<Longrightarrow> sem_step (s, p, g) (s', p, g + (if ok then u else 0))"

definition sem_inv :: "nat \<Rightarrow> semaphore \<times> nat \<times> nat \<Rightarrow> bool" where
  "sem_inv v = (\<lambda>(s, p, g). sem_val s + g = v + p \<and> distinct (map fst (waiters s)) \<and>
     (\<forall>(t, u) \<in> set (waiters s). sem_val s < u))"

lemma post_scan_spec:
  assumes "post_scan v ws = (v', rest, woken)" and "distinct (map fst ws)" and "\<forall>(t, u) \<in> set ws. 0 < u"
  shows "v' + sum_list (map (\<lambda>t. the (map_of ws t)) woken) = v \<and> v' \<le> v \<and>
    (\<forall>(t, u) \<in> set rest. v' < u) \<and> set rest \<subseteq> set ws \<and> distinct (map fst rest) \<and>
    set woken \<subseteq> fst ` set ws \<and> set woken \<inter> fst ` set rest = {} \<and> fst ` set ws = set woken \<union> fst ` set rest"
  using assms
proof (induction v ws arbitrary: v' rest woken rule: post_scan.induct)
  case (1 v)
  then show ?case by simp
next
  case (2 v t u ws)
  have upd: "map (\<lambda>x. the (map_of ((t, u) # ws) x)) w = map (\<lambda>x. the (map_of ws x)) w"
    if "set w \<subseteq> fst ` set ws" for w using that 2(4) by auto
  consider "v = 0" | "v \<noteq> 0" "u \<le> v" | "v \<noteq> 0" "\<not> u \<le> v" by linarith
  then show ?case
  proof cases
    case 1
    then show ?thesis using 2(3-5) by auto
  next
    case 2
    obtain k where k: "post_scan (v - u) ws = (v', rest, k)" "woken = t # k"
      using \<open>post_scan v ((t, u) # ws) = _\<close> 2 by (auto split: prod.splits)
    note ih = "2.IH"(1) [OF 2 k(1)]
    have "set k \<subseteq> fst ` set ws" using ih "2.prems"(2,3) by auto
    note e = upd [OF this]
    have "sum_list (map (\<lambda>x. the (map_of ((t, u) # ws) x)) woken) = u + sum_list (map (\<lambda>x. the (map_of ws x)) k)"
      unfolding k(2) list.map e by simp
    then show ?thesis using ih "2.prems"(2,3) 2 k(2) by (auto simp del: map_of.simps)
  next
    case 3
    obtain r where r: "post_scan v ws = (v', r, woken)" "rest = (t, u) # r"
      using \<open>post_scan v ((t, u) # ws) = _\<close> 3 by (auto split: prod.splits)
    note ih = "2.IH"(2) [OF 3 r(1)]
    have w: "set woken \<subseteq> fst ` set ws" using ih "2.prems"(2,3) by auto
    show ?thesis unfolding upd [OF w] using ih "2.prems"(2,3) 3 r(2) by auto
  qed
qed


lemma map_fst_remove1: "distinct (map fst ws) \<Longrightarrow> distinct (map fst (remove1 w ws))"
proof (induction ws)
  case (Cons x ws)
  then show ?case using set_remove1_subset [of w ws] by (auto simp: image_iff subset_iff)
qed simp

lemma sem_step_inv:
  assumes "sem_step x y" and "sem_inv v x"
  shows "sem_inv v y"
  using assms
proof (induction rule: sem_step.induct)
  case (post u s woken s' p g)
  obtain v' rest where sc: "post_scan (sem_val s + u) (waiters s) = (v', rest, woken)"
    and s': "s' = \<lparr>sem_val = v', waiters = rest\<rparr>"
    using post(1,2) by (auto simp: semaphore_post_def split: prod.splits)
  have d: "distinct (map fst (waiters s))" and pos: "\<forall>(t, u) \<in> set (waiters s). 0 < u"
    using post(3) by (auto simp: sem_inv_def)
  note sp = post_scan_spec [OF sc d pos]
  then show ?case using post(3) by (simp add: sem_inv_def s')
next
  case (wait t u s r s' p g)
  then show ?case by (fastforce simp: sem_inv_def semaphore_wait_def split: if_splits)
next
  case (resume t expired s r s' p g)
  then show ?case
    by (auto simp: sem_inv_def semaphore_resume_def map_fst_remove1 split: if_splits option.splits
        dest!: subsetD [OF set_remove1_subset])
next
  case (trywait u s ok s' p g)
  then show ?case by (fastforce simp: sem_inv_def semaphore_trywait_def split: if_splits)
qed




section \<open>Lifetime of named semaphores\<close>

text \<open>
  \<open>h a\<close> is the number of handles that \<open>sem_open\<close> returned for the semaphore at \<open>a\<close> and that were
  not closed. A program closes and uses only handles it holds.
\<close>

inductive sem_user :: "sem_store \<times> (nat \<Rightarrow> nat) \<Rightarrow> sem_store \<times> (nat \<Rightarrow> nat) \<Rightarrow> bool" where
  opened: "sem_open name cr ex value st = Some (Inr (a, st')) \<Longrightarrow> sem_user (st, h) (st', h(a := h a + 1))"
| unlinked: "sem_unlink name st = Some (Inr st') \<Longrightarrow> sem_user (st, h) (st', h)"
| closed: "0 < h a \<Longrightarrow> sem_close a st = Some st' \<Longrightarrow> sem_user (st, h) (st', h(a := h a - 1))"
| used: "0 < h a \<Longrightarrow> with_sem a (\<lambda>s. ((), f s)) st = Some (r, st') \<Longrightarrow> sem_user (st, h) (st', h)"

definition sem_store_init :: sem_store where
  "sem_store_init = \<lparr>sems = (\<lambda>_. None), named_semaphores = [], next_addr = 0\<rparr>"

definition store_inv :: "sem_store \<times> (nat \<Rightarrow> nat) \<Rightarrow> bool" where
  "store_inv = (\<lambda>(st, h).
     (\<forall>a. sems st a \<noteq> None \<longleftrightarrow> 0 < h a \<or> a \<in> snd ` set (named_semaphores st)) \<and>
     (\<forall>a p. sems st a = Some p \<longrightarrow> references p = int (h a) \<and> (named p \<longleftrightarrow> a \<in> snd ` set (named_semaphores st))) \<and>
     distinct (map fst (named_semaphores st)) \<and> distinct (map snd (named_semaphores st)) \<and>
     (\<forall>a \<ge> next_addr st. sems st a = None))"

lemma store_invD:
  assumes "store_inv (st, h)"
  shows "sems st a \<noteq> None \<longleftrightarrow> 0 < h a \<or> a \<in> snd ` set (named_semaphores st)"
    and "sems st a = Some p \<Longrightarrow> references p = int (h a) \<and> (named p \<longleftrightarrow> a \<in> snd ` set (named_semaphores st))"
    and "distinct (map fst (named_semaphores st))" and "distinct (map snd (named_semaphores st))"
    and "next_addr st \<le> a \<Longrightarrow> sems st a = None"
  using assms by (auto simp: store_inv_def)

lemma table_live:
  assumes "store_inv (st, h)" and "map_of (named_semaphores st) name = Some a"
  shows "\<exists>p. sems st a = Some p \<and> named p \<and> references p = int (h a)"
proof -
  have "a \<in> snd ` set (named_semaphores st)" using map_of_SomeD [OF assms(2)] by force
  then show ?thesis using store_invD(1,2) [OF assms(1), of a] by auto
qed

lemma table_without:
  assumes "distinct (map fst l)" and "distinct (map snd l)" and "map_of l name = Some a"
  shows "snd ` set (filter (\<lambda>e. fst e \<noteq> name) l) = snd ` set l - {a}"
    and "distinct (map fst (filter (\<lambda>e. fst e \<noteq> name) l))" and "distinct (map snd (filter (\<lambda>e. fst e \<noteq> name) l))"
proof -
  have a: "(name, a) \<in> set l" using assms(3) by (rule map_of_SomeD)
  have "fst e \<noteq> name \<longleftrightarrow> snd e \<noteq> a" if "e \<in> set l" for e
  proof -
    have inj: "inj_on fst (set l)" "inj_on snd (set l)" using assms(1,2) by (simp_all add: distinct_map)
    show ?thesis using inj_onD [OF inj(1) _ that a] inj_onD [OF inj(2) _ that a] by (cases e) auto
  qed
  then show "snd ` set (filter (\<lambda>e. fst e \<noteq> name) l) = snd ` set l - {a}" by auto
  show "distinct (map fst (filter (\<lambda>e. fst e \<noteq> name) l))" "distinct (map snd (filter (\<lambda>e. fst e \<noteq> name) l))"
    using assms(1,2) by (simp_all add: distinct_map_filter)
qed


lemma sem_user_inv:
  assumes "sem_user x y" and "store_inv x"
  shows "store_inv y"
  using assms
proof (induction rule: sem_user.induct)
  case (opened name cr ex v st a st' h)
  note inv = store_invD [OF opened(2)]
  show ?case
  proof (cases "map_of (named_semaphores st) name")
    case None
    then have name: "name \<notin> fst ` set (named_semaphores st)" by (simp add: map_of_eq_None_iff)
    from None have a: "a = next_addr st"
      and st': "st' = st\<lparr>sems := (sems st)(a \<mapsto> \<lparr>sem = semaphore_init v, references = 1, named = True\<rparr>),
        named_semaphores := (name, a) # named_semaphores st, next_addr := a + 1\<rparr>"
      using opened(1) by (auto simp: sem_open_def Let_def split: if_splits)
    have "sems st a = None" using inv(5) a by simp
    then have "h a = 0" "a \<notin> snd ` set (named_semaphores st)" using inv(1) [of a] by auto
    then show ?thesis using inv name unfolding st' by (auto simp: store_inv_def a)
  next
    case (Some b)
    obtain p where p: "sems st b = Some p" "named p" "references p = int (h b)" using table_live [OF opened(2) Some] by blast
    then have "a = b" "st' = st\<lparr>sems := (sems st)(b \<mapsto> add_reference p)\<rparr>"
      using opened(1) Some by (auto simp: sem_open_def split: if_splits)
    moreover have "b \<in> snd ` set (named_semaphores st)" using map_of_SomeD [OF Some] by force
    ultimately show ?thesis using inv p by (auto simp: store_inv_def add_reference_def)
  qed
next
  case (unlinked name st st' h)
  note inv = store_invD [OF unlinked(2)]
  obtain a where a: "map_of (named_semaphores st) name = Some a"
    using unlinked(1) by (auto simp: sem_unlink_def split: option.splits)
  obtain p where p: "sems st a = Some p" "named p" "references p = int (h a)" using table_live [OF unlinked(2) a] by blast
  have st': "st' = st\<lparr>sems := (sems st)(a := if h a = 0 then None else Some (unlink_sem p)),
      named_semaphores := filter (\<lambda>e. fst e \<noteq> name) (named_semaphores st)\<rparr>"
    using unlinked(1) a p by (auto simp: sem_unlink_def Let_def not_referenced_def sem_destroy_def unlink_sem_def)
  have "\<forall>b. next_addr st \<le> b \<longrightarrow> b \<noteq> a" using inv(5) p(1) by auto
  then show ?case
    using inv p(3) table_without [OF inv(3,4) a] unfolding st' by (auto simp: store_inv_def unlink_sem_def)
next
  case (closed h a st st')
  note inv = store_invD [OF closed(3)]
  obtain p where p: "sems st a = Some p" using inv(1) [of a] closed(1) by auto
  note r = inv(2) [OF p]
  have st': "st' = st\<lparr>sems := (sems st)(a := if \<not> named p \<and> h a = 1 then None else Some (remove_reference p))\<rparr>"
    using closed(1,2) p conjunct1 [OF r] by (auto simp: sem_close_def Let_def not_referenced_def remove_reference_def sem_destroy_def)
  have "\<forall>b. next_addr st \<le> b \<longrightarrow> b \<noteq> a" using inv(5) p(1) by auto
  then show ?case using inv r closed(1) unfolding st' by (auto simp: store_inv_def remove_reference_def)
next
  case (used h a f st r st')
  note inv = store_invD [OF used(3)]
  obtain p s where p: "sems st a = Some p" and st': "st' = st\<lparr>sems := (sems st)(a \<mapsto> p\<lparr>sem := s\<rparr>)\<rparr>"
    using used(2) by (auto simp: with_sem_def split: option.splits prod.splits)
  have "\<forall>b. next_addr st \<le> b \<longrightarrow> b \<noteq> a" using inv(5) p(1) by auto
  then show ?case using inv inv(2) [OF p] p inv(1) [of a] unfolding st' by (auto simp: store_inv_def)
qed


lemma sem_user_run_inv:
  assumes "sem_user\<^sup>*\<^sup>* (sem_store_init, \<lambda>_. 0) x"
  shows "store_inv x"
proof -
  have "store_inv (sem_store_init, \<lambda>_. 0)" by (simp add: store_inv_def sem_store_init_def)
  with assms show ?thesis by (induction rule: rtranclp_induct) (auto dest: sem_user_inv)
qed

text \<open>Claim C24: a named semaphore is alive exactly while it has a name or an open handle. So no
  sequence of opens, unlinks and closes of held handles uses a destroyed semaphore: every such
  call is defined; and once the name and the last handle are gone it has been destroyed.\<close>

theorem named_semaphore_lifetime:
  assumes "sem_user\<^sup>*\<^sup>* (sem_store_init, \<lambda>_. 0) (st, h)"
  shows "(\<forall>a. sems st a \<noteq> None \<longleftrightarrow> 0 < h a \<or> a \<in> snd ` set (named_semaphores st)) \<and>
    (\<forall>name cr ex v. sem_open name cr ex v st \<noteq> None) \<and> (\<forall>name. sem_unlink name st \<noteq> None) \<and>
    (\<forall>a t. 0 < h a \<longrightarrow> sem_close a st \<noteq> None \<and> sem_wait t a st \<noteq> None \<and> sem_post a st \<noteq> None)"
proof -
  have inv: "store_inv (st, h)" by (rule sem_user_run_inv [OF assms])
  have "sem_open name cr ex v st \<noteq> None" "sem_unlink name st \<noteq> None" for name cr ex v
    using table_live [OF inv, of name] by (auto simp: sem_open_def sem_unlink_def Let_def split: option.split)
  moreover have "sem_close a st \<noteq> None \<and> sem_wait t a st \<noteq> None \<and> sem_post a st \<noteq> None" if "0 < h a" for a t
    using store_invD(1) [OF inv, of a] that
    by (auto simp: sem_close_def sem_wait_def sem_post_def with_sem_def Let_def split: prod.split)
  ultimately show ?thesis using store_invD(1) [OF inv] by blast
qed

theorem named_semaphore_lifetime_witness:
  "\<exists>st h. sem_user\<^sup>*\<^sup>* (sem_store_init, \<lambda>_. 0) (st, h) \<and> 0 < h 0 \<and> sem_close 0 st \<noteq> None"
proof -
  obtain st where st: "sem_open ''/s'' True True 1 sem_store_init = Some (Inr (0, st))"
    by (simp add: sem_open_def sem_store_init_def sem_value_max_def Let_def)
  have "sem_user\<^sup>*\<^sup>* (sem_store_init, \<lambda>_. 0) (st, (\<lambda>_. 0)(0 := 1))"
    using sem_user.opened [OF st, of "\<lambda>_. 0"] by simp
  from named_semaphore_lifetime [OF this] this show ?thesis
    by (intro exI [of _ st] exI [of _ "(\<lambda>_. 0)(0 := 1)"]) simp
qed

section \<open>Rounds of a barrier\<close>

text \<open>
  The barrier, where each thread inside \<open>pthread_barrier_wait\<close> is, and three counters: threads
  that arrived (were counted in), threads that returned, and serial-thread results.
\<close>

record barrier_run =
  bar :: barrier
  phase :: "nat \<Rightarrow> bphase option"
  arrived :: nat
  returned :: nat
  serials :: nat

definition barrier_outcome :: "nat \<Rightarrow> bresult \<times> barrier \<Rightarrow> barrier_run \<Rightarrow> barrier_run" where
  "barrier_outcome t rb x =
     (case rb of
        (Blocked ph, b) \<Rightarrow> x\<lparr>bar := b, phase := (phase x)(t \<mapsto> ph),
          arrived := arrived x + (if phase x t \<noteq> Some Round \<and> ph = Round then 1 else 0)\<rparr>
      | (Returned r, b) \<Rightarrow> x\<lparr>bar := b, phase := (phase x)(t := None),
          arrived := arrived x + (if phase x t \<noteq> Some Round then 1 else 0),
          returned := returned x + 1, serials := serials x + (if r = serial_thread then 1 else 0)\<rparr>)"

inductive barrier_step :: "barrier_run \<Rightarrow> barrier_run \<Rightarrow> bool" where
  call: "phase x t = None \<Longrightarrow> barrier_step x (barrier_outcome t (pthread_barrier_wait t (bar x)) x)"
| resume: "phase x t = Some ph \<Longrightarrow> t \<notin> set (cv (bar x)) \<Longrightarrow>
    barrier_step x (barrier_outcome t (barrier_resume ph t (bar x)) x)"

definition barrier_start :: "barrier \<Rightarrow> barrier_run" where
  "barrier_start b = \<lparr>bar = b, phase = (\<lambda>_. None), arrived = 0, returned = 0, serials = 0\<rparr>"

definition in_round :: "barrier_run \<Rightarrow> nat set" where
  "in_round x = {t. phase x t = Some Round}"

text \<open>Threads waiting for the next round leave no trace in the counters.\<close>

definition barrier_inv :: "nat \<Rightarrow> barrier_run \<Rightarrow> bool" where
  "barrier_inv n x \<longleftrightarrow> (let b = bar x in
     0 < n \<and> count b = n \<and> live b \<and> - int n < state b \<and> state b < int n \<and>
     finite (in_round x) \<and> int (card (in_round x)) = \<bar>state b\<bar> \<and>
     (\<forall>t. phase x t \<noteq> Some Destroying) \<and> (\<forall>t \<in> set (cv b). phase x t \<noteq> None) \<and>
     (\<forall>t \<in> set (cv b). phase x t = Some Round \<longrightarrow> 0 < state b) \<and>
     (\<forall>t \<in> set (cv b). phase x t = Some Prev \<longrightarrow> state b < 0) \<and>
     int (arrived x) = int n * int (serials x) + max 0 (state b) \<and>
     int (returned x) = int n * int (serials x) + min 0 (state b))"


lemma barrier_invD:
  assumes "barrier_inv n x"
  shows "0 < n" "count (bar x) = n" "live (bar x)" "- int n < state (bar x)" "state (bar x) < int n"
    "finite (in_round x)" "int (card (in_round x)) = \<bar>state (bar x)\<bar>" "phase x t \<noteq> Some Destroying"
    "t \<in> set (cv (bar x)) \<Longrightarrow> phase x t \<noteq> None"
    "t \<in> set (cv (bar x)) \<Longrightarrow> phase x t = Some Round \<Longrightarrow> 0 < state (bar x)"
    "t \<in> set (cv (bar x)) \<Longrightarrow> phase x t = Some Prev \<Longrightarrow> state (bar x) < 0"
    "int (arrived x) = int n * int (serials x) + max 0 (state (bar x))"
    "int (returned x) = int n * int (serials x) + min 0 (state (bar x))"
  using assms by (auto simp: barrier_inv_def Let_def)

lemma barrier_entry_inv:
  assumes inv: "barrier_inv n x" and ph: "phase x t \<noteq> Some Round" and cv: "t \<notin> set (cv (bar x))"
  shows "barrier_inv n (barrier_outcome t (barrier_entry t (bar x)) x)"
proof -
  note i = barrier_invD [OF inv]
  have t: "t \<notin> in_round x" using ph by (simp add: in_round_def)
  consider (prev) "state (bar x) < 0" | (last) "0 \<le> state (bar x)" "state (bar x) + 1 = int n"
    | (join) "0 \<le> state (bar x)" "state (bar x) + 1 \<noteq> int n" by linarith
  then show ?thesis
  proof cases
    case prev
    have "in_round (barrier_outcome t (barrier_entry t (bar x)) x) = in_round x"
      using prev t by (auto simp: barrier_entry_def barrier_outcome_def in_round_def)
    then show ?thesis
      using i prev cv ph by (auto simp: barrier_inv_def Let_def barrier_entry_def barrier_outcome_def cv_wait_def)
  next
    case last
    have "in_round (barrier_outcome t (barrier_entry t (bar x)) x) = in_round x"
      using last i(2) t by (auto simp: barrier_entry_def Let_def barrier_outcome_def in_round_def)
    then show ?thesis
      using i last ph by (auto simp: barrier_inv_def Let_def barrier_entry_def barrier_outcome_def cv_wake_all_def
          serial_thread_def algebra_simps)
  next
    case join
    have "in_round (barrier_outcome t (barrier_entry t (bar x)) x) = insert t (in_round x)"
      using join i(2) t by (auto simp: barrier_entry_def barrier_round_def Let_def barrier_outcome_def in_round_def)
    then show ?thesis
      using i join ph t by (auto simp: barrier_inv_def Let_def barrier_entry_def barrier_round_def barrier_outcome_def cv_wait_def)
  qed
qed

lemma barrier_round_inv:
  assumes inv: "barrier_inv n x" and ph: "phase x t = Some Round" and cv: "t \<notin> set (cv (bar x))"
  shows "barrier_inv n (barrier_outcome t (barrier_round t (bar x)) x)"
proof -
  note i = barrier_invD [OF inv]
  have t: "t \<in> in_round x" using ph by (simp add: in_round_def)
  then have "card (in_round x) \<noteq> 0" using i(6) by auto
  then have "state (bar x) \<noteq> 0" using i(7) by auto
  then consider (wait) "0 < state (bar x)" | (leave) "state (bar x) < 0" by linarith
  then show ?thesis
  proof cases
    case wait
    have "in_round (barrier_outcome t (barrier_round t (bar x)) x) = in_round x"
      using wait t ph by (auto simp: barrier_round_def barrier_outcome_def in_round_def)
    then show ?thesis
      using i wait ph by (auto simp: barrier_inv_def Let_def barrier_round_def barrier_outcome_def cv_wait_def)
  next
    case leave
    have "in_round (barrier_outcome t (barrier_round t (bar x)) x) = in_round x - {t}"
      using leave by (auto simp: barrier_round_def barrier_outcome_def in_round_def Let_def)
    moreover have "int (card (in_round x - {t})) = \<bar>state (bar x) + 1\<bar>"
      using i(6,7) t leave by (simp add: card_Diff_singleton)
    ultimately show ?thesis
      using i leave ph cv
      by (auto simp: barrier_inv_def Let_def barrier_round_def barrier_outcome_def cv_wake_all_def serial_thread_def)
  qed
qed


lemma barrier_step_inv:
  assumes "barrier_step x y" and "barrier_inv n x"
  shows "barrier_inv n y"
  using assms
proof (induction rule: barrier_step.induct)
  case (call x t)
  note i = barrier_invD [OF call(2)]
  have "t \<notin> set (cv (bar x))" using i(9) [of t] call(1) by auto
  then have "barrier_inv n (barrier_outcome t (barrier_entry t (bar x)) x)"
    using barrier_entry_inv [OF call(2)] call(1) by simp
  then show ?case using i(1-3) by (simp add: pthread_barrier_wait_def)
next
  case (resume x t ph)
  then show ?case
    using barrier_invD(8) [OF resume(3), of t] barrier_entry_inv [OF resume(3)] barrier_round_inv [OF resume(3)]
    by (cases ph) simp_all
qed

lemma barrier_run_inv:
  assumes "pthread_barrier_init n = Inr b" and "barrier_step\<^sup>*\<^sup>* (barrier_start b) x"
  shows "barrier_inv n x"
proof -
  have "barrier_inv n (barrier_start b)"
    using assms(1) by (auto simp: pthread_barrier_init_def barrier_inv_def barrier_start_def in_round_def split: if_splits)
  with assms(2) show ?thesis by (induction rule: rtranclp_induct) (auto dest: barrier_step_inv)
qed

text \<open>Claim C12: a barrier lets nobody through before its round is complete, whatever the order of
  arrivals, wake-ups and re-entries: at any time the threads that returned are at most those of
  the completed rounds and at least those of all but the last one, and every completed round has
  exactly one serial thread. The counter stays strictly between minus and plus the count, so it
  cannot overflow.\<close>

theorem barrier_rounds:
  assumes "pthread_barrier_init n = Inr b" and "barrier_step\<^sup>*\<^sup>* (barrier_start b) x"
  shows "serials x = arrived x div n \<and> returned x \<le> n * serials x \<and> n * serials x < returned x + n \<and>
    \<bar>state (bar x)\<bar> < int n"
proof -
  note i = barrier_invD [OF barrier_run_inv [OF assms]]
  have "int (arrived x) div int n = int (serials x)"
    using i(1,4,5,12) by (simp add: add.commute [of "int n * _"])
  then have "serials x = arrived x div n" by (simp flip: of_nat_div)
  moreover have "int (returned x) \<le> int (n * serials x)" "int (n * serials x) < int (returned x + n)"
    using i(4,5,13) by (auto simp: min_def)
  ultimately show ?thesis using i(4,5) by (simp only: of_nat_le_iff of_nat_less_iff) simp
qed

theorem barrier_rounds_witness:
  "\<exists>b x. pthread_barrier_init 2 = Inr b \<and> barrier_step\<^sup>*\<^sup>* (barrier_start b) x \<and> arrived x = 1 \<and>
     serials x = 0 \<and> returned x = 0"
proof -
  obtain b where b: "pthread_barrier_init 2 = Inr b" "state b = 0" "count b = 2" "live b"
    by (simp add: pthread_barrier_init_def int_max_def)
  let ?x = "barrier_outcome 5 (pthread_barrier_wait 5 b) (barrier_start b)"
  have run: "barrier_step\<^sup>*\<^sup>* (barrier_start b) ?x"
    using barrier_step.call [of "barrier_start b" 5] by (auto simp: barrier_start_def)
  have "arrived ?x = 1"
    using b by (simp add: pthread_barrier_wait_def barrier_entry_def barrier_round_def barrier_outcome_def barrier_start_def Let_def)
  then show ?thesis using barrier_rounds [OF b(1) run] b(1) run by (intro exI [of _ b] exI [of _ ?x]) simp
qed

text \<open>Claim C14: no wake-up of a barrier is lost: whenever every thread inside is parked, all of
  them belong to the current round, which still lacks arrivals.\<close>

theorem barrier_never_stuck:
  assumes "pthread_barrier_init n = Inr b" and "barrier_step\<^sup>*\<^sup>* (barrier_start b) x"
    and "\<forall>t. phase x t \<noteq> None \<longrightarrow> t \<in> set (cv (bar x))"
  shows "(\<forall>t. phase x t \<noteq> None \<longrightarrow> phase x t = Some Round) \<and> card {t. phase x t \<noteq> None} < n \<and>
    card {t. phase x t \<noteq> None} = arrived x mod n"
proof -
  have inv: "barrier_inv n x" by (rule barrier_run_inv [OF assms(1,2)])
  note i = barrier_invD [OF inv]
  have nonneg: "0 \<le> state (bar x)"
  proof (rule ccontr)
    assume neg: "\<not> 0 \<le> state (bar x)"
    then have "in_round x \<noteq> {}" using i(7) by auto
    then obtain t where "phase x t = Some Round" by (auto simp: in_round_def)
    then show False using i(10) [of t] assms(3) neg by auto
  qed
  have round: "phase x t = Some Round" if inside: "phase x t \<noteq> None" for t
  proof -
    obtain p where p: "phase x t = Some p" using inside by blast
    then show ?thesis using i(8) [of t] i(11) [of t] assms(3) nonneg by (cases p) auto
  qed
  then have "{t. phase x t \<noteq> None} = in_round x" by (auto simp: in_round_def)
  moreover have "int (arrived x) mod int n = state (bar x)" using i(1,5,12) nonneg by simp
  then have "int (arrived x mod n) = int (card (in_round x))" using i(7) nonneg by (simp add: zmod_int)
  ultimately show ?thesis using round i(1) by (metis mod_less_divisor of_nat_eq_iff)
qed

theorem barrier_never_stuck_witness:
  "\<exists>b x. pthread_barrier_init 3 = Inr b \<and> barrier_step\<^sup>*\<^sup>* (barrier_start b) x \<and> phase x 5 = Some Round \<and>
     card {t. phase x t \<noteq> None} < 3"
proof -
  obtain b where b: "pthread_barrier_init 3 = Inr b" "b = \<lparr>count = 3, state = 0, live = True, cv = []\<rparr>"
    by (simp add: pthread_barrier_init_def int_max_def)
  let ?x = "barrier_outcome 5 (pthread_barrier_wait 5 b) (barrier_start b)"
  have run: "barrier_step\<^sup>*\<^sup>* (barrier_start b) ?x"
    using barrier_step.call [of "barrier_start b" 5] by (auto simp: barrier_start_def)
  have "cv (bar ?x) = [5]" "phase ?x = (\<lambda>_. None)(5 \<mapsto> Round)"
    using b by (simp_all add: pthread_barrier_wait_def barrier_entry_def barrier_round_def barrier_outcome_def
        barrier_start_def Let_def cv_wait_def)
  then have parked: "\<forall>t. phase ?x t \<noteq> None \<longrightarrow> t \<in> set (cv (bar ?x))" "phase ?x 5 = Some Round" by simp_all
  from barrier_never_stuck [OF b(1) run parked(1)] have "card {t. phase ?x t \<noteq> None} < 3" by blast
  with b(1) run parked(2) show ?thesis by blast
qed

end
