(* ===== verification/LfMutex.thy ===== *)
theory LfMutex
  imports Prelude
begin

text \<open>
  The lock-free recursive mutex of \<open>core/lfmutex.cc\<close>, as threads that interleave at every atomic
  access. The wait queue is the multiple-producer single-consumer queue, here a list with atomic
  \<open>push\<close>, \<open>pop\<close> and \<open>empty\<close>; that there is only one consumer at a time is proved, not assumed.
  Threads are numbers; a queued wait record is named by its thread.
\<close>

section \<open>State\<close>

text \<open>
  Where a thread is in \<open>lock\<close>, \<open>send_lock\<close>, \<open>send_lock_unless_already_waiting\<close>, \<open>try_lock\<close> and
  \<open>unlock\<close>. Each constructor is the point just before one atomic access; \<open>h\<close> is the local copy of
  the handoff token and \<open>o\<close> the popped wait record.
\<close>

datatype lpc = LInc | LOwn0 | LRec | LRec2 | LPush | LLoad | LEmpty nat | LCas nat | LPop | LWake nat
  | LWait | LOwn1

datatype spc = SInc | SWake0 | SPush | SLoad | SEmpty nat | SCas nat | SPop | SWake nat

datatype xpc = XInc | XScan | XPush

datatype tpc = TCas | TOwn0 | TRec | TLoad | THcas nat | TInc | TOwn1

datatype upc = UStart | UOwner | UDec | UPop | UWake nat | USeq | UStore nat | UEmpty nat | UCas nat

text \<open>
  \<open>Parked\<close> is a thread sleeping on a wait record that belongs to a condition variable, \<open>Sent\<close> the
  same once somebody started to send it the lock. From the moment the lock counts it, it is an
  ordinary waiter (\<open>L LWait\<close>). In \<open>X w dup pc\<close> the flag says that \<open>w\<close> was already queued when the
  call began. \<open>Abort\<close> is a failed assertion.
\<close>

datatype pc = Idle | Parked | Sent | Abort | L lpc | S nat spc | X nat bool xpc | T tpc | U upc

text \<open>
  The fields of the class, the wait records already woken, and the program counters. \<open>hold\<close> (the
  threads between a successful acquisition and the last \<open>unlock\<close>) and \<open>leaked\<close> (increments of
  \<open>count\<close> that belong to no thread) are ghosts that no step reads.
\<close>

record lfmutex =
  count :: int
  depth :: nat
  owner :: "nat option"
  waitqueue :: "nat list"
  handoff :: nat
  sequence :: nat
  woken :: "nat set"
  pcs :: "nat \<Rightarrow> pc"
  hold :: "nat \<Rightarrow> bool"
  leaked :: nat

definition lfmutex_init :: lfmutex where
  "lfmutex_init = \<lparr>count = 0, depth = 0, owner = None, waitqueue = [], handoff = 0, sequence = 0,
     woken = {}, pcs = (\<lambda>_. Idle), hold = (\<lambda>_. False), leaked = 0\<rparr>"

definition goto :: "nat \<Rightarrow> pc \<Rightarrow> lfmutex \<Rightarrow> lfmutex" where
  "goto t p m = m\<lparr>pcs := (pcs m)(t := p)\<rparr>"

section \<open>Operations\<close>

text \<open>\<open>owner.store(current); depth = 1\<close>, also the body of \<open>receive_lock\<close>.\<close>

definition receive_lock :: "nat \<Rightarrow> lfmutex \<Rightarrow> lfmutex" where
  "receive_lock t m = goto t Idle (m\<lparr>owner := Some t, depth := 1, hold := (hold m)(t := True)\<rparr>)"

definition wake_record :: "nat \<Rightarrow> lfmutex \<Rightarrow> lfmutex" where
  "wake_record w m = m\<lparr>woken := insert w (woken m)\<rparr>"

fun lock_step :: "nat \<Rightarrow> lpc \<Rightarrow> lfmutex \<Rightarrow> lfmutex" where
  "lock_step t LInc m =
     goto t (L (if count m = 0 then LOwn0 else LRec)) (m\<lparr>count := count m + 1\<rparr>)"
| "lock_step t LOwn0 m = receive_lock t m"
| "lock_step t LRec m = goto t (L (if owner m = Some t then LRec2 else LPush)) m"
| "lock_step t LRec2 m = goto t Idle (m\<lparr>count := count m - 1, depth := depth m + 1\<rparr>)"
| "lock_step t LPush m = goto t (L LLoad) (m\<lparr>waitqueue := waitqueue m @ [t]\<rparr>)"
| "lock_step t LLoad m = goto t (L (if handoff m \<noteq> 0 then LEmpty (handoff m) else LWait)) m"
| "lock_step t (LEmpty h) m = goto t (L (if waitqueue m \<noteq> [] then LCas h else LWait)) m"
| "lock_step t (LCas h) m =
     (if handoff m = h then goto t (L LPop) (m\<lparr>handoff := 0\<rparr>) else goto t (L LWait) m)"
| "lock_step t LPop m =
     (case waitqueue m of
        [] \<Rightarrow> goto t Abort m
      | w # ws \<Rightarrow> goto t (L (if w \<noteq> t then LWake w else LOwn1)) (m\<lparr>waitqueue := ws\<rparr>))"
| "lock_step t (LWake w) m =
     (if t \<in> woken m then goto t Abort m else goto t (L LWait) (wake_record w m))"
| "lock_step t LWait m =
     (if t \<in> woken m then goto t (L LOwn1) (m\<lparr>woken := woken m - {t}\<rparr>) else m)"
| "lock_step t LOwn1 m = receive_lock t m"

text \<open>\<open>send_lock\<close> of thread \<open>t\<close> for the record of \<open>w\<close>.\<close>

fun send_lock_step :: "nat \<Rightarrow> nat \<Rightarrow> spc \<Rightarrow> lfmutex \<Rightarrow> lfmutex" where
  "send_lock_step t w SInc m =
     goto t (S w (if count m = 0 then SWake0 else SPush)) (goto w (L LWait) (m\<lparr>count := count m + 1\<rparr>))"
| "send_lock_step t w SWake0 m = goto t Idle (wake_record w m)"
| "send_lock_step t w SPush m = goto t (S w SLoad) (m\<lparr>waitqueue := waitqueue m @ [w]\<rparr>)"
| "send_lock_step t w SLoad m =
     goto t (if handoff m \<noteq> 0 then S w (SEmpty (handoff m)) else Idle) m"
| "send_lock_step t w (SEmpty h) m = goto t (if waitqueue m \<noteq> [] then S w (SCas h) else Idle) m"
| "send_lock_step t w (SCas h) m =
     (if handoff m = h then goto t (S w SPop) (m\<lparr>handoff := 0\<rparr>) else goto t Idle m)"
| "send_lock_step t w SPop m =
     (case waitqueue m of
        [] \<Rightarrow> goto t Abort m
      | x # xs \<Rightarrow> goto t (S w (SWake x)) (m\<lparr>waitqueue := xs\<rparr>))"
| "send_lock_step t w (SWake x) m = goto t Idle (wake_record x m)"

text \<open>
  \<open>send_lock_unless_already_waiting\<close>. The caller holds the lock. An increment for a thread that is
  already queued is recorded as leaked.
\<close>

fun send_lock_unless_step :: "nat \<Rightarrow> nat \<Rightarrow> bool \<Rightarrow> xpc \<Rightarrow> lfmutex \<Rightarrow> lfmutex" where
  "send_lock_unless_step t w dup XInc m =
     (if owner m \<noteq> Some t then goto t Abort m
      else
        (let m1 = m\<lparr>count := count m + 1\<rparr> in
           goto t (X w dup XScan)
             (if dup then m1\<lparr>leaked := leaked m1 + 1\<rparr> else goto w (L LWait) m1)))"
| "send_lock_unless_step t w dup XScan m =
     goto t (if w \<in> set (waitqueue m) then Idle else X w dup XPush) m"
| "send_lock_unless_step t w dup XPush m = goto t Idle (m\<lparr>waitqueue := waitqueue m @ [w]\<rparr>)"

fun try_lock_step :: "nat \<Rightarrow> tpc \<Rightarrow> lfmutex \<Rightarrow> lfmutex" where
  "try_lock_step t TCas m =
     (if count m = 0 then goto t (T TOwn0) (m\<lparr>count := 1\<rparr>) else goto t (T TRec) m)"
| "try_lock_step t TOwn0 m = receive_lock t m"
| "try_lock_step t TRec m =
     (if owner m = Some t then goto t Idle (m\<lparr>depth := depth m + 1\<rparr>) else goto t (T TLoad) m)"
| "try_lock_step t TLoad m = goto t (if handoff m \<noteq> 0 then T (THcas (handoff m)) else Idle) m"
| "try_lock_step t (THcas h) m =
     (if handoff m = h then goto t (T TInc) (m\<lparr>handoff := 0\<rparr>) else goto t Idle m)"
| "try_lock_step t TInc m = goto t (T TOwn1) (m\<lparr>count := count m + 1\<rparr>)"
| "try_lock_step t TOwn1 m = receive_lock t m"

text \<open>\<open>++sequence\<close> at 32 bits, skipping 0.\<close>

definition next_sequence :: "nat \<Rightarrow> nat" where
  "next_sequence n = (let k = (n + 1) mod 2 ^ 32 in if k = 0 then 1 else k)"

fun unlock_step :: "nat \<Rightarrow> upc \<Rightarrow> lfmutex \<Rightarrow> lfmutex" where
  "unlock_step t UStart m =
     (if owner m \<noteq> Some t \<or> depth m = 0 then goto t Abort m
      else if depth m \<noteq> 1 then goto t Idle (m\<lparr>depth := depth m - 1\<rparr>)
      else goto t (U UOwner) (m\<lparr>depth := 0, hold := (hold m)(t := False)\<rparr>))"
| "unlock_step t UOwner m = goto t (U UDec) (m\<lparr>owner := None\<rparr>)"
| "unlock_step t UDec m =
     goto t (if count m = 1 then Idle else U UPop) (m\<lparr>count := count m - 1\<rparr>)"
| "unlock_step t UPop m =
     (case waitqueue m of
        [] \<Rightarrow> goto t (U USeq) m
      | w # ws \<Rightarrow> goto t (if w = t then Abort else U (UWake w)) (m\<lparr>waitqueue := ws\<rparr>))"
| "unlock_step t (UWake w) m = goto t Idle (wake_record w m)"
| "unlock_step t USeq m =
     goto t (U (UStore (next_sequence (sequence m)))) (m\<lparr>sequence := next_sequence (sequence m)\<rparr>)"
| "unlock_step t (UStore h) m = goto t (U (UEmpty h)) (m\<lparr>handoff := h\<rparr>)"
| "unlock_step t (UEmpty h) m = goto t (if waitqueue m = [] then Idle else U (UCas h)) m"
| "unlock_step t (UCas h) m =
     (if handoff m = h then goto t (U UPop) (m\<lparr>handoff := 0\<rparr>) else goto t Idle m)"

definition owned :: "nat \<Rightarrow> lfmutex \<Rightarrow> bool" where
  "owned t m \<longleftrightarrow> owner m = Some t"

text \<open>One step of thread \<open>t\<close>; a thread outside the mutex, or asleep, does not move.\<close>

definition mutex_step :: "nat \<Rightarrow> lfmutex \<Rightarrow> lfmutex" where
  "mutex_step t m =
     (case pcs m t of
        L p \<Rightarrow> lock_step t p m
      | S w p \<Rightarrow> send_lock_step t w p m
      | X w dup p \<Rightarrow> send_lock_unless_step t w dup p m
      | T p \<Rightarrow> try_lock_step t p m
      | U p \<Rightarrow> unlock_step t p m
      | _ \<Rightarrow> m)"

text \<open>
  What the callers may do: call an operation when in none, \<open>unlock\<close> and
  \<open>send_lock_unless_already_waiting\<close> only when holding the lock, park when not holding it.
\<close>

inductive mutex_call :: "lfmutex \<Rightarrow> lfmutex \<Rightarrow> bool" where
  lock: "pcs m t = Idle \<Longrightarrow> mutex_call m (goto t (L LInc) m)"
| try_lock: "pcs m t = Idle \<Longrightarrow> mutex_call m (goto t (T TCas) m)"
| unlock: "pcs m t = Idle \<Longrightarrow> hold m t \<Longrightarrow> mutex_call m (goto t (U UStart) m)"
| park: "pcs m t = Idle \<Longrightarrow> \<not> hold m t \<Longrightarrow> mutex_call m (goto t Parked m)"
| unpark: "pcs m t = Parked \<Longrightarrow> mutex_call m (goto t Idle m)"
| send_lock: "pcs m t = Idle \<Longrightarrow> pcs m w = Parked \<Longrightarrow> mutex_call m (goto t (S w SInc) (goto w Sent m))"
| send_unless: "pcs m t = Idle \<Longrightarrow> hold m t \<Longrightarrow> pcs m w = Parked \<Longrightarrow>
    mutex_call m (goto t (X w False XInc) (goto w Sent m))"
| send_dup: "pcs m t = Idle \<Longrightarrow> hold m t \<Longrightarrow> w \<in> set (waitqueue m) \<Longrightarrow>
    mutex_call m (goto t (X w True XInc) m)"

inductive mutex_run :: "lfmutex \<Rightarrow> bool" where
  init: "mutex_run lfmutex_init"
| call: "mutex_run m \<Longrightarrow> mutex_call m m' \<Longrightarrow> mutex_run m'"
| step: "mutex_run m \<Longrightarrow> mutex_run (mutex_step t m)"


section \<open>The protocol\<close>

text \<open>
  The right to run, release or pass on the lock is one token. It is absent when the mutex is free,
  with a thread, on its way from a thread to the waiter it is waking, or in the handoff word.
\<close>

datatype token = Free | At nat | Passing nat nat | InHandoff

fun attempts :: "pc \<Rightarrow> bool" where
  "attempts (L p) \<longleftrightarrow> p \<noteq> LInc"
| "attempts _ \<longleftrightarrow> False"

fun owns :: "pc \<Rightarrow> bool" where
  "owns (U p) \<longleftrightarrow> p = UOwner \<or> p = UDec"
| "owns (T p) \<longleftrightarrow> p = TOwn0 \<or> p = TOwn1"
| "owns _ \<longleftrightarrow> False"

fun wakes :: "pc \<Rightarrow> nat option" where
  "wakes (L (LWake w)) = Some w"
| "wakes (U (UWake w)) = Some w"
| "wakes (S v (SWake w)) = Some w"
| "wakes (S w SWake0) = Some w"
| "wakes _ = None"

fun has_token :: "pc \<Rightarrow> bool" where
  "has_token (L p) \<longleftrightarrow> p = LOwn0 \<or> p = LPop \<or> p = LOwn1"
| "has_token (S w p) \<longleftrightarrow> p = SPop"
| "has_token (T p) \<longleftrightarrow> p = TOwn0 \<or> p = TInc \<or> p = TOwn1"
| "has_token (U p) \<longleftrightarrow> (case p of UOwner \<Rightarrow> True | UDec \<Rightarrow> True | UPop \<Rightarrow> True | USeq \<Rightarrow> True | UStore _ \<Rightarrow> True | _ \<Rightarrow> False)"
| "has_token Abort \<longleftrightarrow> True"
| "has_token _ \<longleftrightarrow> False"

text \<open>A thread that carries the token but is not counted itself.\<close>

fun releases :: "pc \<Rightarrow> bool" where
  "releases (S w p) \<longleftrightarrow> p = SPop"
| "releases (T p) \<longleftrightarrow> p = TInc"
| "releases (U p) \<longleftrightarrow> (case p of UPop \<Rightarrow> True | USeq \<Rightarrow> True | UStore _ \<Rightarrow> True | _ \<Rightarrow> False)"
| "releases Abort \<longleftrightarrow> True"
| "releases _ \<longleftrightarrow> False"

fun sleeps :: "pc \<Rightarrow> bool" where
  "sleeps (L p) \<longleftrightarrow> (case p of LLoad \<Rightarrow> True | LEmpty _ \<Rightarrow> True | LCas _ \<Rightarrow> True | LWait \<Rightarrow> True | _ \<Rightarrow> False)"
| "sleeps _ \<longleftrightarrow> False"

fun picks :: "pc \<Rightarrow> bool" where
  "picks (L p) \<longleftrightarrow> (case p of LPop \<Rightarrow> True | LWake _ \<Rightarrow> True | _ \<Rightarrow> False)"
| "picks _ \<longleftrightarrow> False"

fun may_hold :: "pc \<Rightarrow> bool" where
  "may_hold Idle \<longleftrightarrow> True"
| "may_hold (L p) \<longleftrightarrow> p = LInc \<or> p = LRec \<or> p = LRec2"
| "may_hold (T p) \<longleftrightarrow> p = TCas \<or> p = TRec"
| "may_hold (S w p) \<longleftrightarrow> (case p of SInc \<Rightarrow> True | SPush \<Rightarrow> True | SLoad \<Rightarrow> True | SEmpty _ \<Rightarrow> True | SCas _ \<Rightarrow> True | _ \<Rightarrow> False)"
| "may_hold (X w d p) \<longleftrightarrow> True"
| "may_hold (U p) \<longleftrightarrow> p = UStart"
| "may_hold _ \<longleftrightarrow> False"

fun must_hold :: "pc \<Rightarrow> bool" where
  "must_hold (L p) \<longleftrightarrow> p = LRec2"
| "must_hold (X w d p) \<longleftrightarrow> True"
| "must_hold (U p) \<longleftrightarrow> p = UStart"
| "must_hold _ \<longleftrightarrow> False"

text \<open>The thread a sender is working for, until its record is queued.\<close>

fun sends :: "pc \<Rightarrow> nat option" where
  "sends (S w p) = (if p = SInc \<or> p = SPush then Some w else None)"
| "sends (X w d p) = (if d then None else Some w)"
| "sends _ = None"

fun uncounted :: "pc \<Rightarrow> bool" where
  "uncounted (S w p) \<longleftrightarrow> p = SInc"
| "uncounted (X w d p) \<longleftrightarrow> p = XInc"
| "uncounted _ \<longleftrightarrow> False"

fun dups :: "pc \<Rightarrow> nat option" where
  "dups (X w d p) = (if d then Some w else None)"
| "dups _ = None"

text \<open>The local copy of the handoff word.\<close>

fun copies :: "pc \<Rightarrow> nat option" where
  "copies (L p) = (case p of LEmpty h \<Rightarrow> Some h | LCas h \<Rightarrow> Some h | _ \<Rightarrow> None)"
| "copies (S w p) = (case p of SEmpty h \<Rightarrow> Some h | SCas h \<Rightarrow> Some h | _ \<Rightarrow> None)"
| "copies (T p) = (case p of THcas h \<Rightarrow> Some h | _ \<Rightarrow> None)"
| "copies (U p) = (case p of UStore h \<Rightarrow> Some h | UEmpty h \<Rightarrow> Some h | UCas h \<Rightarrow> Some h | _ \<Rightarrow> None)"
| "copies _ = None"

text \<open>
  What is true of thread \<open>t\<close> at \<open>p\<close>: \<open>h\<close>, \<open>k\<close>, \<open>q\<close> say that it holds the lock, was woken, is queued;
  \<open>d\<close> is the thread sending it the lock.
\<close>

definition thread_ok :: "token \<Rightarrow> nat \<Rightarrow> pc \<Rightarrow> bool \<Rightarrow> bool \<Rightarrow> bool \<Rightarrow> nat option \<Rightarrow> bool" where
  "thread_ok tok t p h k q d \<longleftrightarrow>
     (has_token p \<or> h \<or> k \<longleftrightarrow> tok = At t) \<and> (\<forall>w. wakes p = Some w \<longleftrightarrow> tok = Passing t w) \<and>
     (h \<longrightarrow> may_hold p \<and> \<not> k) \<and> (must_hold p \<longrightarrow> h) \<and>
     (q \<longrightarrow> (sleeps p \<or> picks p) \<and> \<not> k \<and> d = None) \<and> (k \<longrightarrow> sleeps p \<and> d = None) \<and>
     (picks p \<longrightarrow> q) \<and> (sleeps p \<longrightarrow> q \<or> k \<or> d \<noteq> None \<or> (\<exists>u. tok = Passing u t)) \<and>
     (d \<noteq> None \<longrightarrow> p = Sent \<or> p = L LWait) \<and> (p = Sent \<longrightarrow> d \<noteq> None) \<and>
     (\<forall>u. tok = Passing u t \<longrightarrow> sleeps p \<and> \<not> q \<and> d = None) \<and>
     copies p \<noteq> Some 0 \<and> (\<forall>w. p \<noteq> X w True XPush)"

definition threads_ok :: "token \<Rightarrow> (nat \<Rightarrow> nat option) \<Rightarrow> lfmutex \<Rightarrow> bool" where
  "threads_ok tok pend m \<longleftrightarrow>
     (\<forall>t. thread_ok tok t (pcs m t) (hold m t) (t \<in> woken m) (t \<in> set (waitqueue m)) (pend t))"

definition sends_ok :: "(nat \<Rightarrow> nat option) \<Rightarrow> lfmutex \<Rightarrow> bool" where
  "sends_ok pend m \<longleftrightarrow> (\<forall>t w. pend w = Some t \<longleftrightarrow> sends (pcs m t) = Some w) \<and>
     (\<forall>t w. pend w = Some t \<longrightarrow> (pcs m w = Sent \<longleftrightarrow> uncounted (pcs m t))) \<and>
     (\<forall>t w. dups (pcs m t) = Some w \<longrightarrow> w \<in> set (waitqueue m))"

definition fields_ok :: "token \<Rightarrow> lfmutex \<Rightarrow> bool" where
  "fields_ok tok m \<longleftrightarrow> distinct (waitqueue m) \<and> (handoff m \<noteq> 0 \<longleftrightarrow> tok = InHandoff) \<and>
     (\<forall>t. owner m = Some t \<longleftrightarrow> hold m t \<or> pcs m t = U UOwner) \<and> (\<forall>t. hold m t \<longrightarrow> 0 < depth m)"

definition attempting :: "lfmutex \<Rightarrow> nat set" where
  "attempting m = {t. attempts (pcs m t)}"

definition owning :: "lfmutex \<Rightarrow> nat set" where
  "owning m = {t. hold m t \<or> owns (pcs m t)}"

definition count_ok :: "token \<Rightarrow> lfmutex \<Rightarrow> bool" where
  "count_ok tok m \<longleftrightarrow> finite (attempting m) \<and> finite (owning m) \<and>
     count m = int (card (attempting m) + card (owning m) + leaked m) \<and>
     (tok = InHandoff \<or> (\<exists>t. releases (pcs m t)) \<longrightarrow> attempting m \<noteq> {} \<or> 0 < leaked m) \<and>
     (tok = Free \<longrightarrow> count m = 0)"

definition mutex_inv :: "token \<Rightarrow> (nat \<Rightarrow> nat option) \<Rightarrow> lfmutex \<Rightarrow> bool" where
  "mutex_inv tok pend m \<longleftrightarrow> threads_ok tok pend m \<and> sends_ok pend m \<and> fields_ok tok m \<and> count_ok tok m"

lemma mutex_invD:
  assumes "mutex_inv tok pend m"
  shows "thread_ok tok t (pcs m t) (hold m t) (t \<in> woken m) (t \<in> set (waitqueue m)) (pend t)"
    and "sends_ok pend m" and "fields_ok tok m" and "count_ok tok m"
  using assms by (simp_all add: mutex_inv_def threads_ok_def)

text \<open>A step touches only the threads in \<open>I\<close>; the token concerns nobody else.\<close>

definition concerns :: "token \<Rightarrow> nat set" where
  "concerns tok = (case tok of At t \<Rightarrow> {t} | Passing t w \<Rightarrow> {t, w} | _ \<Rightarrow> {})"

lemma thread_ok_other:
  assumes "thread_ok tok x p h k q d" and "x \<notin> concerns tok" and "x \<notin> concerns tok'"
  shows "thread_ok tok' x p h k q d"
  using assms unfolding thread_ok_def concerns_def by (auto split: token.splits)

lemma threads_okI:
  assumes inv: "mutex_inv tok pend m"
    and rest: "\<And>x. x \<notin> I \<Longrightarrow> pcs m' x = pcs m x \<and> hold m' x = hold m x \<and> (x \<in> woken m' \<longleftrightarrow> x \<in> woken m) \<and>
      (x \<in> set (waitqueue m') \<longleftrightarrow> x \<in> set (waitqueue m)) \<and> pend' x = pend x"
    and tok: "tok' = tok \<or> concerns tok \<union> concerns tok' \<subseteq> I"
    and moved: "\<And>x. x \<in> I \<Longrightarrow> thread_ok tok' x (pcs m' x) (hold m' x) (x \<in> woken m') (x \<in> set (waitqueue m')) (pend' x)"
  shows "threads_ok tok' pend' m'"
  unfolding threads_ok_def
proof
  fix x
  show "thread_ok tok' x (pcs m' x) (hold m' x) (x \<in> woken m') (x \<in> set (waitqueue m')) (pend' x)"
  proof (cases "x \<in> I")
    case False
    have "thread_ok tok' x (pcs m x) (hold m x) (x \<in> woken m) (x \<in> set (waitqueue m)) (pend x)"
      using mutex_invD(1) [OF inv, of x] tok False thread_ok_other [of tok x _ _ _ _ _ tok'] by blast
    then show ?thesis using rest [OF False] by simp
  qed (rule moved)
qed


section \<open>Frame lemmas\<close>

lemma goto_simps [simp]:
  "pcs (goto t p m) = (pcs m)(t := p)" "hold (goto t p m) = hold m" "woken (goto t p m) = woken m"
  "waitqueue (goto t p m) = waitqueue m" "handoff (goto t p m) = handoff m" "owner (goto t p m) = owner m"
  "depth (goto t p m) = depth m" "count (goto t p m) = count m" "leaked (goto t p m) = leaked m"
  by (simp_all add: goto_def)

lemma attempting_simps [simp]:
  "attempting (goto t p m) = (if attempts p then insert t (attempting m) else attempting m - {t})"
  "attempting (m\<lparr>count := c\<rparr>) = attempting m" "attempting (m\<lparr>waitqueue := l\<rparr>) = attempting m"
  "attempting (m\<lparr>handoff := n\<rparr>) = attempting m" "attempting (m\<lparr>woken := k\<rparr>) = attempting m"
  "attempting (m\<lparr>depth := d\<rparr>) = attempting m" "attempting (m\<lparr>sequence := n\<rparr>) = attempting m"
  "attempting (m\<lparr>owner := o'\<rparr>) = attempting m" "attempting (m\<lparr>hold := g\<rparr>) = attempting m"
  "attempting (m\<lparr>leaked := n\<rparr>) = attempting m"
  by (auto simp: attempting_def)

lemma owning_simps [simp]:
  "owning (goto t p m) = (if hold m t \<or> owns p then insert t (owning m) else owning m - {t})"
  "owning (m\<lparr>count := c\<rparr>) = owning m" "owning (m\<lparr>waitqueue := l\<rparr>) = owning m"
  "owning (m\<lparr>handoff := n\<rparr>) = owning m" "owning (m\<lparr>woken := k\<rparr>) = owning m"
  "owning (m\<lparr>depth := d\<rparr>) = owning m" "owning (m\<lparr>sequence := n\<rparr>) = owning m"
  "owning (m\<lparr>owner := o'\<rparr>) = owning m" "owning (m\<lparr>leaked := n\<rparr>) = owning m"
  by (auto simp: owning_def)

lemma in_attempting [simp]: "t \<in> attempting m \<longleftrightarrow> attempts (pcs m t)"
  by (simp add: attempting_def)

lemma in_owning [simp]: "t \<in> owning m \<longleftrightarrow> hold m t \<or> owns (pcs m t)"
  by (simp add: owning_def)

lemma sends_ok_goto:
  assumes "sends_ok pend m" and "sends p = sends (pcs m t)" and "uncounted p \<longleftrightarrow> uncounted (pcs m t)"
    and "dups p = None \<or> dups p = dups (pcs m t)" and "p = Sent \<longleftrightarrow> pcs m t = Sent"
  shows "sends_ok pend (goto t p m)"
  using assms unfolding sends_ok_def by auto

lemma sends_ok_fields [simp]:
  "sends_ok pend (m\<lparr>count := c\<rparr>) = sends_ok pend m" "sends_ok pend (m\<lparr>handoff := n\<rparr>) = sends_ok pend m"
  "sends_ok pend (m\<lparr>woken := k\<rparr>) = sends_ok pend m" "sends_ok pend (m\<lparr>depth := d\<rparr>) = sends_ok pend m"
  "sends_ok pend (m\<lparr>sequence := n\<rparr>) = sends_ok pend m" "sends_ok pend (m\<lparr>owner := o'\<rparr>) = sends_ok pend m"
  "sends_ok pend (m\<lparr>hold := g\<rparr>) = sends_ok pend m" "sends_ok pend (m\<lparr>leaked := n\<rparr>) = sends_ok pend m"
  by (simp_all add: sends_ok_def)

lemma fields_ok_goto:
  assumes "fields_ok tok m" and "p \<noteq> U UOwner" and "pcs m t \<noteq> U UOwner"
  shows "fields_ok tok (goto t p m)"
  using assms unfolding fields_ok_def by auto

lemma fields_ok_fields [simp]:
  "fields_ok tok (m\<lparr>count := c\<rparr>) = fields_ok tok m" "fields_ok tok (m\<lparr>woken := k\<rparr>) = fields_ok tok m"
  "fields_ok tok (m\<lparr>sequence := n\<rparr>) = fields_ok tok m" "fields_ok tok (m\<lparr>leaked := n\<rparr>) = fields_ok tok m"
  by (simp_all add: fields_ok_def)

text \<open>Moving a thread without touching anything else.\<close>

lemma mutex_inv_goto:
  assumes inv: "mutex_inv tok pend m"
    and ok: "thread_ok tok t p (hold m t) (t \<in> woken m) (t \<in> set (waitqueue m)) (pend t)"
    and same: "sends p = sends (pcs m t)" "uncounted p \<longleftrightarrow> uncounted (pcs m t)"
      "dups p = None \<or> dups p = dups (pcs m t)" "p = Sent \<longleftrightarrow> pcs m t = Sent"
      "p \<noteq> U UOwner" "pcs m t \<noteq> U UOwner" "attempts p \<longleftrightarrow> attempts (pcs m t)" "owns p \<longleftrightarrow> owns (pcs m t)"
      "releases p \<Longrightarrow> releases (pcs m t)"
  shows "mutex_inv tok pend (goto t p m)"
proof -
  have "threads_ok tok pend (goto t p m)"
    by (rule threads_okI [OF inv, where I = "{t}"]) (use ok in auto)
  moreover have "attempting (goto t p m) = attempting m" "owning (goto t p m) = owning m"
    using same(7,8) by auto
  then have "count_ok tok (goto t p m)"
    using mutex_invD(4) [OF inv] same(9) unfolding count_ok_def by (auto split: if_splits)
  ultimately show ?thesis
    using sends_ok_goto [OF mutex_invD(2) [OF inv] same(1-4)] fields_ok_goto [OF mutex_invD(3) [OF inv] same(5,6)]
    by (simp add: mutex_inv_def)
qed

lemma free_if_zero:
  assumes inv: "mutex_inv tok pend m" and zero: "count m = 0"
  shows "tok = Free"
proof -
  note c = mutex_invD(4) [OF inv] and th = mutex_invD(1) [OF inv]
  have none: "\<not> attempts (pcs m t)" "\<not> hold m t" "\<not> owns (pcs m t)" "\<not> releases (pcs m t)" "tok \<noteq> InHandoff" for t
  proof -
    have "finite (attempting m)" "finite (owning m)"
      and "int (card (attempting m) + card (owning m) + leaked m) = 0"
      using c zero by (simp_all only: count_ok_def)
    moreover have "card (attempting m) = 0" "card (owning m) = 0" "leaked m = 0" using calculation(3) by linarith+
    ultimately have "attempting m = {}" "owning m = {}" "leaked m = 0" by simp_all
    then show "\<not> attempts (pcs m t)" "\<not> hold m t" "\<not> owns (pcs m t)" "\<not> releases (pcs m t)" "tok \<noteq> InHandoff"
      using c unfolding count_ok_def by (auto simp: attempting_def owning_def)
  qed
  have sl: "\<not> sleeps (pcs m t)" for t using none(1) [of t] by (cases "pcs m t") (auto split: lpc.splits)
  show ?thesis
  proof (cases tok)
    case (At t)
    then have "has_token (pcs m t)" using th [of t] none(2) [of t] sl [of t] unfolding thread_ok_def by blast
    then show ?thesis using none(1,3,4) [of t] by (cases "pcs m t") (auto split: lpc.splits upc.splits)
  next
    case (Passing t w)
    then show ?thesis using th [of w] sl [of w] unfolding thread_ok_def by blast
  qed (use none in auto)
qed


section \<open>Every step keeps the invariant\<close>

text \<open>Consequences of the invariant for the thread that moves.\<close>

lemma thread_okD:
  assumes "thread_ok tok t p h k q d"
  shows "has_token p \<or> h \<or> k \<longleftrightarrow> tok = At t" and "wakes p = Some w \<longleftrightarrow> tok = Passing t w"
    and "h \<Longrightarrow> may_hold p \<and> \<not> k" and "must_hold p \<Longrightarrow> h"
    and "q \<Longrightarrow> (sleeps p \<or> picks p) \<and> \<not> k \<and> d = None" and "k \<Longrightarrow> sleeps p \<and> d = None" and "picks p \<Longrightarrow> q"
    and "sleeps p \<Longrightarrow> q \<or> k \<or> d \<noteq> None \<or> (\<exists>u. tok = Passing u t)"
    and "p \<noteq> Sent \<Longrightarrow> p \<noteq> L LWait \<Longrightarrow> d = None" and "p = Sent \<Longrightarrow> d \<noteq> None"
    and "tok = Passing u t \<Longrightarrow> sleeps p \<and> \<not> q \<and> d = None"
    and "copies p \<noteq> Some 0" and "p \<noteq> X w True XPush"
  using assms unfolding thread_ok_def by blast+

lemma token_at: "mutex_inv tok pend m \<Longrightarrow> has_token (pcs m t) \<or> hold m t \<or> t \<in> woken m \<Longrightarrow> tok = At t"
  using thread_okD(1) [OF mutex_invD(1)] by blast

lemma token_passing: "mutex_inv tok pend m \<Longrightarrow> wakes (pcs m t) = Some w \<Longrightarrow> tok = Passing t w"
  using thread_okD(2) [OF mutex_invD(1)] by blast

lemma token_elsewhere:
  assumes "mutex_inv tok pend m" and "tok \<noteq> At x"
  shows "\<not> has_token (pcs m x)" and "\<not> hold m x" and "x \<notin> woken m"
  using thread_okD(1) [OF mutex_invD(1) [OF assms(1)], of x] assms(2) by blast+

lemma no_token_pc: "\<not> has_token p \<Longrightarrow> \<not> releases p \<and> p \<noteq> U UOwner"
  by (cases p) (simp_all split: upc.splits)

text \<open>Taking the lock: the thread with the token becomes the holder.\<close>

lemma fields_ok_tok: "fields_ok tok m \<Longrightarrow> (tok' = InHandoff \<longleftrightarrow> tok = InHandoff) \<Longrightarrow> fields_ok tok' m"
  by (simp add: fields_ok_def)

lemma int_card_Diff: "finite A \<Longrightarrow> t \<in> A \<Longrightarrow> int (card (A - {t})) = int (card A) - 1"
  by (metis One_nat_def Suc_leI card_Diff_singleton card_gt_0_iff empty_iff of_nat_1 of_nat_diff)

lemma count_okD:
  assumes "count_ok tok m"
  shows "finite (attempting m)" and "finite (owning m)"
    and "count m = int (card (attempting m)) + int (card (owning m)) + int (leaked m)"
    and "tok = InHandoff \<Longrightarrow> attempting m \<noteq> {} \<or> 0 < leaked m"
    and "releases (pcs m t) \<Longrightarrow> attempting m \<noteq> {} \<or> 0 < leaked m" and "tok = Free \<Longrightarrow> count m = 0"
  using assms by (auto simp: count_ok_def)

lemma count_okI:
  assumes "finite (attempting m)" and "finite (owning m)"
    and "count m = int (card (attempting m)) + int (card (owning m)) + int (leaked m)"
    and "tok = InHandoff \<Longrightarrow> attempting m \<noteq> {} \<or> 0 < leaked m"
    and "\<And>t. releases (pcs m t) \<Longrightarrow> attempting m \<noteq> {} \<or> 0 < leaked m" and "tok = Free \<Longrightarrow> count m = 0"
  shows "count_ok tok m"
  using assms unfolding count_ok_def by auto

lemma receive_lock_inv:
  assumes inv: "mutex_inv tok pend m" and p: "pcs m t \<in> {L LOwn0, L LOwn1, T TOwn0, T TOwn1}"
  shows "mutex_inv tok pend (receive_lock t m)"
proof -
  note th = mutex_invD(1) [OF inv, of t]
  have tok: "tok = At t" by (rule token_at [OF inv]) (use p in auto)
  have nh: "\<not> hold m t" "t \<notin> woken m" "t \<notin> set (waitqueue m)" "pend t = None"
    using thread_okD(3,5,6,9) [OF th] p by auto
  have other: "\<not> hold m x" "pcs m x \<noteq> U UOwner" "\<not> releases (pcs m x)" if "x \<noteq> t" for x
    using token_elsewhere [OF inv, of x] no_token_pc [of "pcs m x"] tok that by auto
  have "threads_ok tok pend (receive_lock t m)"
    by (rule threads_okI [OF inv, where I = "{t}"]) (use tok nh in \<open>auto simp: receive_lock_def thread_ok_def\<close>)
  moreover have "sends_ok pend (receive_lock t m)"
    unfolding receive_lock_def by (rule sends_ok_goto) (use mutex_invD(2) [OF inv] p in auto)
  moreover have "fields_ok tok (receive_lock t m)"
    using mutex_invD(3) [OF inv] tok other by (auto simp: fields_ok_def receive_lock_def)
  moreover have "count_ok tok (receive_lock t m)"
  proof -
    have A: "attempting (receive_lock t m) = attempting m - {t}" by (simp add: receive_lock_def)
    have H: "owning (receive_lock t m) = insert t (owning m)" by (auto simp: receive_lock_def owning_def)
    have "card (attempting m - {t}) + card (insert t (owning m)) = card (attempting m) + card (owning m)"
    proof (cases "attempts (pcs m t)")
      case True
      then have "t \<in> attempting m" "t \<notin> owning m" using p nh(1) by auto
      moreover have "finite (attempting m)" "finite (owning m)" using mutex_invD(4) [OF inv] by (simp_all add: count_ok_def)
      moreover have "0 < card (attempting m)" using calculation by (auto simp: card_gt_0_iff)
      ultimately show ?thesis by (simp add: card_Diff_singleton)
    next
      case False
      then have "t \<notin> attempting m" "t \<in> owning m" using p by auto
      then show ?thesis by (simp add: insert_absorb)
    qed
    moreover have "\<not> (\<exists>x. releases (pcs (receive_lock t m) x))" using other(3) by (auto simp: receive_lock_def)
    ultimately show ?thesis
      using mutex_invD(4) [OF inv] tok unfolding count_ok_def A H by (auto simp: receive_lock_def)
  qed
  ultimately show ?thesis by (simp add: mutex_inv_def)
qed



lemma card_pred: "finite A \<Longrightarrow> t \<in> A \<Longrightarrow> int (card A - Suc 0) = int (card A) - 1"
  by (metis One_nat_def Suc_leI card_gt_0_iff empty_iff of_nat_1 of_nat_diff)

text \<open>A thread enters the count.\<close>

lemma count_ok_enter:
  assumes c: "count_ok tok m" and p: "\<not> attempts (pcs m t)" "attempts p" "owns p \<longleftrightarrow> owns (pcs m t)" "\<not> releases p"
    and tok: "tok' \<noteq> Free" "tok' = InHandoff \<Longrightarrow> tok = InHandoff"
  shows "count_ok tok' (goto t p (m\<lparr>count := count m + 1\<rparr>))"
proof -
  have own: "owning (goto t p (m\<lparr>count := count m + 1\<rparr>)) = owning m" using p(3) by auto
  show ?thesis
    by (rule count_okI) (use count_okD [OF c] p tok own in \<open>auto simp: card_insert_if split: if_splits\<close>)
qed

lemma lock_inc_inv:
  assumes inv: "mutex_inv tok pend m" and p: "pcs m t = L LInc"
  shows "\<exists>tok' pend'. mutex_inv tok' pend' (lock_step t LInc m)"
proof (cases "count m = 0")
  case True
  let ?m = "goto t (L LOwn0) (m\<lparr>count := count m + 1\<rparr>)"
  have tok: "tok = Free" by (rule free_if_zero [OF inv True])
  note th = mutex_invD(1) [OF inv, of t, unfolded p]
  have "threads_ok (At t) pend ?m"
    by (rule threads_okI [OF inv, where I = "{t}"])
      (use th tok in \<open>auto simp: thread_ok_def concerns_def\<close>)
  moreover have "sends_ok pend ?m" by (rule sends_ok_goto) (use mutex_invD(2) [OF inv] p in auto)
  moreover have "fields_ok (At t) ?m"
    by (rule fields_ok_goto) (use fields_ok_tok [OF mutex_invD(3) [OF inv], of "At t"] tok p in auto)
  moreover have "count_ok (At t) ?m" by (rule count_ok_enter [OF mutex_invD(4) [OF inv]]) (use p in auto)
  ultimately show ?thesis using True by (auto simp: mutex_inv_def)
next
  case False
  let ?m = "goto t (L LRec) (m\<lparr>count := count m + 1\<rparr>)"
  note th = mutex_invD(1) [OF inv, of t, unfolded p]
  have tok: "tok \<noteq> Free" using count_okD(6) [OF mutex_invD(4) [OF inv]] False by auto
  have "threads_ok tok pend ?m"
    by (rule threads_okI [OF inv, where I = "{t}"]) (use th in \<open>auto simp: thread_ok_def\<close>)
  moreover have "sends_ok pend ?m" by (rule sends_ok_goto) (use mutex_invD(2) [OF inv] p in auto)
  moreover have "fields_ok tok ?m" by (rule fields_ok_goto) (use mutex_invD(3) [OF inv] p in auto)
  moreover have "count_ok tok ?m" by (rule count_ok_enter [OF mutex_invD(4) [OF inv]]) (use p tok in auto)
  ultimately show ?thesis using False by (auto simp: mutex_inv_def)
qed

lemma lock_rec_inv:
  assumes inv: "mutex_inv tok pend m" and p: "pcs m t = L LRec"
  shows "mutex_inv tok pend (lock_step t LRec m)"
proof -
  note th = mutex_invD(1) [OF inv, of t, unfolded p]
  have own: "owner m = Some t \<longleftrightarrow> hold m t" using mutex_invD(3) [OF inv] p by (auto simp: fields_ok_def)
  show ?thesis
    unfolding lock_step.simps by (rule mutex_inv_goto [OF inv]) (use th own p in \<open>auto simp: thread_ok_def\<close>)
qed

lemma lock_rec2_inv:
  assumes inv: "mutex_inv tok pend m" and p: "pcs m t = L LRec2"
  shows "mutex_inv tok pend (lock_step t LRec2 m)"
proof -
  let ?m = "goto t Idle (m\<lparr>count := count m - 1, depth := depth m + 1\<rparr>)"
  note th = mutex_invD(1) [OF inv, of t, unfolded p] and c = count_okD [OF mutex_invD(4) [OF inv]]
  have tok: "tok = At t" "hold m t" using thread_okD(1,4) [OF th] by auto
  have "threads_ok tok pend ?m"
    by (rule threads_okI [OF inv, where I = "{t}"]) (use th tok in \<open>auto simp: thread_ok_def\<close>)
  moreover have "sends_ok pend ?m" by (rule sends_ok_goto) (use mutex_invD(2) [OF inv] p in auto)
  moreover have "fields_ok tok ?m" using mutex_invD(3) [OF inv] p by (auto simp: fields_ok_def)
  moreover have "\<not> releases (pcs m x)" if "x \<noteq> t" for x
    using token_elsewhere(1) [OF inv, of x] no_token_pc tok that by auto
  then have "count_ok tok ?m"
    by (intro count_okI) (use c tok p card_pred [OF c(1), of t] in \<open>auto simp: insert_absorb split: if_splits\<close>)
  ultimately show ?thesis by (simp add: mutex_inv_def)
qed

lemma sends_ok_push: "sends_ok pend m \<Longrightarrow> sends_ok pend (m\<lparr>waitqueue := waitqueue m @ [x]\<rparr>)"
  unfolding sends_ok_def by auto

lemma lock_push_inv:
  assumes inv: "mutex_inv tok pend m" and p: "pcs m t = L LPush"
  shows "mutex_inv tok pend (lock_step t LPush m)"
proof -
  let ?m = "goto t (L LLoad) (m\<lparr>waitqueue := waitqueue m @ [t]\<rparr>)"
  note th = mutex_invD(1) [OF inv, of t, unfolded p] and c = count_okD [OF mutex_invD(4) [OF inv]]
  have nq: "t \<notin> set (waitqueue m)" using thread_okD(5) [OF th] by auto
  have "threads_ok tok pend ?m"
    by (rule threads_okI [OF inv, where I = "{t}"]) (use th nq in \<open>auto simp: thread_ok_def\<close>)
  moreover have "sends_ok pend ?m"
    by (rule sends_ok_goto [OF sends_ok_push [OF mutex_invD(2) [OF inv]]]) (use p in auto)
  moreover have "fields_ok tok ?m" using mutex_invD(3) [OF inv] p nq by (auto simp: fields_ok_def)
  moreover have "count_ok tok ?m"
    by (intro count_okI) (use c p in \<open>auto simp: insert_absorb split: if_splits\<close>)
  ultimately show ?thesis by (simp add: mutex_inv_def)
qed

lemma lock_load_inv:
  assumes inv: "mutex_inv tok pend m" and p: "pcs m t = L LLoad"
  shows "mutex_inv tok pend (lock_step t LLoad m)"
  unfolding lock_step.simps
  by (rule mutex_inv_goto [OF inv]) (use mutex_invD(1) [OF inv, of t, unfolded p] p in \<open>auto simp: thread_ok_def\<close>)

lemma lock_empty_inv:
  assumes inv: "mutex_inv tok pend m" and p: "pcs m t = L (LEmpty h)"
  shows "mutex_inv tok pend (lock_step t (LEmpty h) m)"
  unfolding lock_step.simps
  by (rule mutex_inv_goto [OF inv]) (use mutex_invD(1) [OF inv, of t, unfolded p] p in \<open>auto simp: thread_ok_def\<close>)

text \<open>Taking the handoff: the token comes back from the handoff word.\<close>

lemma take_handoff_inv:
  assumes inv: "mutex_inv tok pend m" and taken: "handoff m \<noteq> 0"
    and ok: "thread_ok (At t) t p (hold m t) (t \<in> woken m) (t \<in> set (waitqueue m)) (pend t)"
    and same: "sends p = sends (pcs m t)" "uncounted p \<longleftrightarrow> uncounted (pcs m t)"
      "dups p = None \<or> dups p = dups (pcs m t)" "p = Sent \<longleftrightarrow> pcs m t = Sent"
      "p \<noteq> U UOwner" "pcs m t \<noteq> U UOwner" "attempts p \<longleftrightarrow> attempts (pcs m t)" "owns p \<longleftrightarrow> owns (pcs m t)"
  shows "mutex_inv (At t) pend (goto t p (m\<lparr>handoff := 0\<rparr>))"
proof -
  let ?m = "goto t p (m\<lparr>handoff := 0\<rparr>)"
  have tok: "tok = InHandoff" using mutex_invD(3) [OF inv] taken by (simp add: fields_ok_def)
  note c = count_okD [OF mutex_invD(4) [OF inv]]
  have "threads_ok (At t) pend ?m"
    by (rule threads_okI [OF inv, where I = "{t}"]) (use ok tok in \<open>auto simp: concerns_def\<close>)
  moreover have "sends_ok pend ?m" by (rule sends_ok_goto) (use mutex_invD(2) [OF inv] same in auto)
  moreover have "fields_ok (At t) ?m" using mutex_invD(3) [OF inv] same by (auto simp: fields_ok_def)
  moreover have A: "attempting ?m = attempting m" "owning ?m = owning m" using same(7,8) by auto
  have "count_ok (At t) ?m" by (rule count_okI) (use c tok in \<open>simp_all only: A\<close>, simp_all)
  ultimately show ?thesis by (simp add: mutex_inv_def)
qed

text \<open>While the token is in the handoff word, every waiter is in the queue or being sent the lock.\<close>

lemma waiter_queued:
  assumes inv: "mutex_inv tok pend m" and "handoff m \<noteq> 0" and "sleeps (pcs m t)" and "pcs m t \<noteq> L LWait"
  shows "t \<in> set (waitqueue m)"
proof -
  have tok: "tok = InHandoff" using mutex_invD(3) [OF inv] assms(2) by (simp add: fields_ok_def)
  note th = mutex_invD(1) [OF inv, of t]
  have "pcs m t \<noteq> Sent" using assms(3) by auto
  then show ?thesis using thread_okD(8) [OF th assms(3)] thread_okD(9) [OF th _ assms(4)] token_elsewhere(3) [OF inv, of t] tok by auto
qed

lemma lock_cas_inv:
  assumes inv: "mutex_inv tok pend m" and p: "pcs m t = L (LCas h)"
  shows "\<exists>tok' pend'. mutex_inv tok' pend' (lock_step t (LCas h) m)"
proof (cases "handoff m = h")
  case False
  have "mutex_inv tok pend (goto t (L LWait) m)"
    by (rule mutex_inv_goto [OF inv]) (use mutex_invD(1) [OF inv, of t, unfolded p] p in \<open>auto simp: thread_ok_def\<close>)
  then show ?thesis using False by auto
next
  case True
  note th = mutex_invD(1) [OF inv, of t, unfolded p]
  have h: "handoff m \<noteq> 0" using thread_okD(12) [OF th] True by auto
  then have tok: "tok = InHandoff" using mutex_invD(3) [OF inv] by (simp add: fields_ok_def)
  have q: "t \<in> set (waitqueue m)" by (rule waiter_queued [OF inv h]) (use p in auto)
  have "mutex_inv (At t) pend (goto t (L LPop) (m\<lparr>handoff := 0\<rparr>))"
    by (rule take_handoff_inv [OF inv h]) (use th tok q p in \<open>auto simp: thread_ok_def\<close>)
  then show ?thesis using True by auto
qed

text \<open>Popping a waiter. Only the thread with the token pops, so no call relies on the popped one being queued.\<close>

lemma sends_ok_pop:
  assumes inv: "mutex_inv (At t) pend m" and q: "waitqueue m = x # xs" and t: "dups (pcs m t) = None"
  shows "sends_ok pend (m\<lparr>waitqueue := xs\<rparr>)"
proof -
  have "dups (pcs m u) = None" for u
  proof (cases "u = t")
    case False
    then have "\<not> must_hold (pcs m u)"
      using thread_okD(4) [OF mutex_invD(1) [OF inv, of u]] token_elsewhere(2) [OF inv, of u] by auto
    then show ?thesis by (cases "pcs m u") auto
  qed (use t in simp)
  then show ?thesis using mutex_invD(2) [OF inv] by (simp add: sends_ok_def)
qed

lemma picks_token: "picks p \<Longrightarrow> has_token p \<or> wakes p \<noteq> None"
  by (cases p) (auto split: lpc.splits)

lemma picks_attempts: "picks p \<Longrightarrow> attempts p"
  by (cases p) (auto split: lpc.splits)

lemma sleeps_not_picks: "sleeps p \<Longrightarrow> \<not> picks p"
  by (cases p) (auto split: lpc.splits)

lemma wakes_pc:
  assumes "wakes p = Some w"
  shows "\<not> sleeps p \<and> sends p = None \<and> \<not> uncounted p \<and> p \<noteq> Sent \<and> p \<noteq> U UOwner \<and> \<not> owns p \<and> p \<noteq> L LWait"
  using assms by (cases p rule: wakes.cases) simp_all

lemma pop_inv:
  assumes inv: "mutex_inv tok pend m" and tok: "tok = At t" and q: "waitqueue m = x # xs" and xt: "x \<noteq> t"
    and p': "wakes p = Some x" "\<not> has_token p" "\<not> must_hold p" "sends p = None" "\<not> uncounted p" "dups p = None"
      "p \<noteq> Sent" "copies p = None" "\<not> sleeps p" "picks p \<longleftrightarrow> picks (pcs m t)" "\<not> releases p"
    and p: "has_token (pcs m t)" "sends (pcs m t) = None" "\<not> uncounted (pcs m t)" "dups (pcs m t) = None"
      "pcs m t \<noteq> U UOwner" "attempts p \<longleftrightarrow> attempts (pcs m t)" "owns p \<longleftrightarrow> owns (pcs m t)"
      "\<not> hold m t" "\<not> sleeps (pcs m t)" "pcs m t \<noteq> Sent" "\<And>w. p \<noteq> X w True XPush"
  shows "mutex_inv (Passing t x) pend (goto t p (m\<lparr>waitqueue := xs\<rparr>))"
proof -
  let ?m = "goto t p (m\<lparr>waitqueue := xs\<rparr>)"
  note inv' = inv [unfolded tok] and c = count_okD [OF mutex_invD(4) [OF inv]]
  have d: "distinct (x # xs)" using mutex_invD(3) [OF inv] q by (simp add: fields_ok_def)
  note tx = mutex_invD(1) [OF inv', of x] and tt = mutex_invD(1) [OF inv', of t]
  have nw: "x \<notin> woken m" "\<not> hold m x" "\<not> has_token (pcs m x)" using token_elsewhere [OF inv', of x] xt by auto
  have "wakes (pcs m x) = None" using thread_okD(2) [OF tx] by auto
  then have sl: "sleeps (pcs m x)" "pend x = None"
    using thread_okD(5) [OF tx] q nw(3) picks_token [of "pcs m x"] by auto
  have "threads_ok (Passing t x) pend ?m"
  proof (rule threads_okI [OF inv', where I = "{t, x}"])
    fix y assume "y \<in> {t, x}"
    then consider "y = t" | "y = x" by blast
    then show "thread_ok (Passing t x) y (pcs ?m y) (hold ?m y) (y \<in> woken ?m) (y \<in> set (waitqueue ?m)) (pend y)"
    proof cases
      case 1
      have "pcs m t \<noteq> L LWait" using p(1) by auto
      then have "pend t = None" "t \<notin> woken m" "t \<in> set xs \<longleftrightarrow> picks p"
        using thread_okD(5,6,7,9) [OF tt] p p' q xt by auto
      then show ?thesis using 1 p p' xt by (simp add: thread_ok_def)
    next
      case 2
      then show ?thesis using tx nw sl d xt q sleeps_not_picks [OF sl(1)] by (auto simp: thread_ok_def)
    qed
  qed (use q in \<open>auto simp: concerns_def\<close>)
  moreover have "sends_ok pend ?m"
    by (rule sends_ok_goto [OF sends_ok_pop [OF inv' q p(4)]]) (use p p' in auto)
  moreover have "fields_ok (Passing t x) ?m" using mutex_invD(3) [OF inv'] p p' d by (auto simp: fields_ok_def)
  moreover have A: "attempting ?m = attempting m" "owning ?m = owning m" using p by auto
  have "count_ok (Passing t x) ?m" by (rule count_okI) (use c p' in \<open>simp_all only: A\<close>, auto split: if_splits)
  ultimately show ?thesis by (simp add: mutex_inv_def)
qed

text \<open>Waking the popped waiter: the token moves to it.\<close>

lemma wake_inv:
  assumes inv: "mutex_inv tok pend m" and w: "wakes (pcs m t) = Some w"
    and ok: "p = Idle \<and> \<not> attempts (pcs m t) \<or> p = L LWait \<and> picks (pcs m t)"
  shows "mutex_inv (At w) pend (goto t p (wake_record w m))"
proof -
  let ?m = "goto t p (wake_record w m)"
  have tok: "tok = Passing t w" by (rule token_passing [OF inv w])
  note inv' = inv [unfolded tok] and c = count_okD [OF mutex_invD(4) [OF inv]]
  note tw = mutex_invD(1) [OF inv', of w] and tt = mutex_invD(1) [OF inv', of t]
  have sl: "sleeps (pcs m w)" "w \<notin> set (waitqueue m)" "pend w = None" using thread_okD(11) [OF tw] by auto
  have nt: "\<not> hold m x" "x \<notin> woken m" "\<not> has_token (pcs m x)" for x using token_elsewhere [OF inv', of x] by auto
  have tw': "w \<noteq> t" using sl(1) w by (cases "pcs m t"; auto split: lpc.splits)
  have pt: "\<not> sleeps (pcs m t)" "sends (pcs m t) = None" "\<not> uncounted (pcs m t)" "pcs m t \<noteq> Sent"
    "pcs m t \<noteq> U UOwner" "\<not> owns (pcs m t)" "pcs m t \<noteq> L LWait"
    using wakes_pc [OF w] by simp_all
  have "threads_ok (At w) pend ?m"
  proof (rule threads_okI [OF inv', where I = "{t, w}"])
    fix y assume "y \<in> {t, w}"
    then consider "y = t" | "y = w" by blast
    then show "thread_ok (At w) y (pcs ?m y) (hold ?m y) (y \<in> woken ?m) (y \<in> set (waitqueue ?m)) (pend y)"
    proof cases
      case 1
      have "pend t = None" "t \<in> set (waitqueue m) \<longleftrightarrow> picks (pcs m t)"
        using thread_okD(5,7,9) [OF tt] pt by auto
      then show ?thesis using 1 nt [of t] tw' ok picks_attempts by (auto simp: thread_ok_def wake_record_def)
    next
      case 2
      then show ?thesis using tw nt [of w] sl tw' by (auto simp: thread_ok_def wake_record_def)
    qed
  qed (auto simp: concerns_def wake_record_def)
  moreover have "sends_ok pend ?m"
    by (rule sends_ok_goto) (use mutex_invD(2) [OF inv] pt ok in \<open>auto simp: wake_record_def\<close>)
  moreover have "fields_ok (At w) ?m"
    using mutex_invD(3) [OF inv'] pt ok by (auto simp: fields_ok_def wake_record_def)
  moreover have A: "attempting ?m = attempting m" "owning ?m = owning m"
    using ok pt(6) nt picks_attempts [of "pcs m t"] by (auto simp: wake_record_def)
  have "\<not> releases (pcs m x)" for x using no_token_pc [OF nt(3)] by blast
  then have "count_ok (At w) ?m"
    by (intro count_okI) (use c ok in \<open>simp_all only: A\<close>, auto simp: wake_record_def split: if_splits)
  ultimately show ?thesis by (simp add: mutex_inv_def)
qed

lemma lock_pop_inv:
  assumes inv: "mutex_inv tok pend m" and p: "pcs m t = L LPop"
  shows "\<exists>tok' pend'. mutex_inv tok' pend' (lock_step t LPop m)"
proof -
  note th = mutex_invD(1) [OF inv, of t, unfolded p]
  have tok: "tok = At t" "t \<in> set (waitqueue m)" "\<not> hold m t" "t \<notin> woken m" "pend t = None"
    using thread_okD(1,3,5,6,7,9) [OF th] by auto
  then obtain x xs where q: "waitqueue m = x # xs" by (cases "waitqueue m") auto
  show ?thesis
  proof (cases "x = t")
    case False
    have "mutex_inv (Passing t x) pend (goto t (L (LWake x)) (m\<lparr>waitqueue := xs\<rparr>))"
      by (rule pop_inv [OF inv tok(1) q False]) (use p tok(3) in auto)
    then show ?thesis using q False by auto
  next
    case True
    let ?m = "goto t (L LOwn1) (m\<lparr>waitqueue := xs\<rparr>)"
    note c = count_okD [OF mutex_invD(4) [OF inv]]
    have d: "distinct (x # xs)" using mutex_invD(3) [OF inv] q by (simp add: fields_ok_def)
    have "threads_ok (At t) pend ?m"
      by (rule threads_okI [OF inv, where I = "{t}"]) (use tok q True d in \<open>auto simp: thread_ok_def concerns_def\<close>)
    moreover have "sends_ok pend ?m"
      by (rule sends_ok_goto [OF sends_ok_pop [OF inv [unfolded tok(1)] q]]) (use p in auto)
    moreover have "fields_ok (At t) ?m" using mutex_invD(3) [OF inv] p d tok(1) by (auto simp: fields_ok_def)
    moreover have A: "attempting ?m = attempting m" "owning ?m = owning m" using p tok(3) by auto
    have "count_ok (At t) ?m"
      by (intro count_okI) (use c in \<open>simp_all only: A\<close>, auto split: if_splits)
    ultimately have "mutex_inv (At t) pend ?m" by (simp add: mutex_inv_def)
    then show ?thesis using q True by auto
  qed
qed

lemma lock_wake_inv:
  assumes inv: "mutex_inv tok pend m" and p: "pcs m t = L (LWake w)"
  shows "\<exists>tok' pend'. mutex_inv tok' pend' (lock_step t (LWake w) m)"
proof -
  have "tok = Passing t w" by (rule token_passing [OF inv]) (simp add: p)
  then have "t \<notin> woken m" using token_elsewhere(3) [OF inv, of t] by simp
  moreover have "mutex_inv (At w) pend (goto t (L LWait) (wake_record w m))"
    by (rule wake_inv [OF inv]) (simp_all add: p)
  ultimately show ?thesis by auto
qed

lemma lock_wait_inv:
  assumes inv: "mutex_inv tok pend m" and p: "pcs m t = L LWait"
  shows "mutex_inv tok pend (lock_step t LWait m)"
proof (cases "t \<in> woken m")
  case True
  let ?m = "goto t (L LOwn1) (m\<lparr>woken := woken m - {t}\<rparr>)"
  note th = mutex_invD(1) [OF inv, of t, unfolded p] and c = count_okD [OF mutex_invD(4) [OF inv]]
  have tok: "tok = At t" by (rule token_at [OF inv]) (simp add: True)
  have h: "\<not> hold m t" "t \<notin> set (waitqueue m)" "pend t = None" using thread_okD(3,5,6) [OF th] True by auto
  have "threads_ok tok pend ?m"
    by (rule threads_okI [OF inv, where I = "{t}"]) (use tok h in \<open>auto simp: thread_ok_def\<close>)
  moreover have "sends_ok pend ?m" by (rule sends_ok_goto) (use mutex_invD(2) [OF inv] p in auto)
  moreover have "fields_ok tok ?m" by (rule fields_ok_goto) (use mutex_invD(3) [OF inv] p in auto)
  moreover have A: "attempting ?m = attempting m" "owning ?m = owning m" using p h by auto
  have "count_ok tok ?m" by (intro count_okI) (use c in \<open>simp_all only: A\<close>, auto split: if_splits)
  ultimately show ?thesis using True by (simp add: mutex_inv_def)
qed (use inv in simp)

lemma lock_step_inv:
  assumes inv: "mutex_inv tok pend m" and p: "pcs m t = L p"
  shows "\<exists>tok' pend'. mutex_inv tok' pend' (lock_step t p m)"
proof (cases p)
  case LInc
  then show ?thesis using lock_inc_inv [OF inv] p by simp
next
  case LOwn0
  then show ?thesis using receive_lock_inv [OF inv, of t] p by auto
next
  case LRec
  then show ?thesis using lock_rec_inv [OF inv, of t] p by blast
next
  case LRec2
  then show ?thesis using lock_rec2_inv [OF inv, of t] p by blast
next
  case LPush
  then show ?thesis using lock_push_inv [OF inv, of t] p by blast
next
  case LLoad
  then show ?thesis using lock_load_inv [OF inv, of t] p by blast
next
  case (LEmpty h)
  then show ?thesis using lock_empty_inv [OF inv, of t] p by blast
next
  case (LCas h)
  then show ?thesis using lock_cas_inv [OF inv, of t] p by blast
next
  case LPop
  then show ?thesis using lock_pop_inv [OF inv, of t] p by blast
next
  case (LWake w)
  then show ?thesis using lock_wake_inv [OF inv, of t] p by blast
next
  case LWait
  then show ?thesis using lock_wait_inv [OF inv, of t] p by blast
next
  case LOwn1
  then show ?thesis using receive_lock_inv [OF inv, of t] p by auto
qed


text \<open>Sending the lock: the parked thread becomes a waiter, first counted, then queued.\<close>

lemma sending:
  assumes inv: "mutex_inv tok pend m" and p: "sends (pcs m t) = Some w"
  shows "pend w = Some t" and "w \<noteq> t" and "w \<notin> set (waitqueue m)" and "w \<notin> woken m" and "\<not> hold m w"
    and "pcs m w = (if uncounted (pcs m t) then Sent else L LWait)"
proof -
  show pend: "pend w = Some t" using mutex_invD(2) [OF inv] p by (simp add: sends_ok_def)
  note tw = mutex_invD(1) [OF inv, of w]
  show "w \<notin> set (waitqueue m)" "w \<notin> woken m" using thread_okD(5,6) [OF tw] pend by auto
  have pw: "pcs m w = Sent \<or> pcs m w = L LWait" using thread_okD(9) [OF tw] pend by auto
  then show "\<not> hold m w" using thread_okD(3) [OF tw] by auto
  show "w \<noteq> t" using pw p by auto
  show "pcs m w = (if uncounted (pcs m t) then Sent else L LWait)"
    using pw mutex_invD(2) [OF inv] pend by (auto simp: sends_ok_def)
qed

lemma sends_ok_count:
  assumes s: "sends_ok pend m" and p: "sends (pcs m t) = Some w" and w: "w \<noteq> t" "sends (pcs m w) = None" "dups (pcs m w) = None"
    and p': "\<not> uncounted p" "p \<noteq> Sent" "dups p = None" "pcs m t \<noteq> Sent"
    and k: "sends p = Some w \<and> pend' = pend \<or> sends p = None \<and> pend' = pend(w := None)"
  shows "sends_ok pend' (goto t p (goto w (L LWait) m))"
proof -
  have pend: "pend w = Some t" and all: "\<And>u v. pend v = Some u \<longleftrightarrow> sends (pcs m u) = Some v" using s p by (auto simp: sends_ok_def)
  have uniq: "u = t" if "sends (pcs m u) = Some w" for u using that pend unfolding all [symmetric] by simp
  show ?thesis using s p w p' k pend unfolding sends_ok_def by (auto split: if_splits dest: uniq)
qed

lemma send_inc_inv:
  assumes inv: "mutex_inv tok pend m" and p: "pcs m t = S w SInc"
  shows "\<exists>tok' pend'. mutex_inv tok' pend' (send_lock_step t w SInc m)"
proof -
  have st: "sends (pcs m t) = Some w" by (simp add: p)
  note sd = sending [OF inv st] and c = count_okD [OF mutex_invD(4) [OF inv]]
  note tt = mutex_invD(1) [OF inv, of t, unfolded p] and tw = mutex_invD(1) [OF inv, of w]
  have pw: "pcs m w = Sent" using sd(6) p by simp
  show ?thesis
  proof (cases "count m = 0")
    case True
    let ?m = "goto t (S w SWake0) (goto w (L LWait) (m\<lparr>count := count m + 1\<rparr>))" let ?pend = "pend(w := None)"
    have tok: "tok = Free" by (rule free_if_zero [OF inv True])
    have "threads_ok (Passing t w) ?pend ?m"
      by (rule threads_okI [OF inv, where I = "{t, w}"])
        (use tt tw tok sd pw in \<open>auto simp: thread_ok_def concerns_def\<close>)
    moreover have "sends_ok ?pend ?m" by (rule sends_ok_count) (use mutex_invD(2) [OF inv] p sd pw in auto)
    moreover have "fields_ok (Passing t w) ?m"
      using mutex_invD(3) [OF inv] tok p pw by (auto simp: fields_ok_def)
    moreover have "count_ok (Passing t w) ?m"
      by (rule count_okI) (use c p pw sd in \<open>auto simp: card_insert_if split: if_splits\<close>)
    ultimately show ?thesis using True by (auto simp: mutex_inv_def)
  next
    case False
    let ?m = "goto t (S w SPush) (goto w (L LWait) (m\<lparr>count := count m + 1\<rparr>))"
    have "threads_ok tok pend ?m"
      by (rule threads_okI [OF inv, where I = "{t, w}"])
        (use tt tw sd pw in \<open>auto simp: thread_ok_def\<close>)
    moreover have "sends_ok pend ?m" by (rule sends_ok_count) (use mutex_invD(2) [OF inv] p sd pw in auto)
    moreover have "fields_ok tok ?m"
      using mutex_invD(3) [OF inv] p pw by (auto simp: fields_ok_def)
    moreover have "count_ok tok ?m"
      by (rule count_okI) (use c False p pw sd in \<open>auto simp: card_insert_if insert_absorb split: if_splits\<close>)
    ultimately show ?thesis using False by (auto simp: mutex_inv_def)
  qed
qed

lemma enqueue_inv:
  assumes inv: "mutex_inv tok pend m" and s: "sends (pcs m t) = Some w" and u: "\<not> uncounted (pcs m t)"
    and p: "p = Idle \<or> p = S w SLoad"
  shows "mutex_inv tok (pend(w := None)) (goto t p (m\<lparr>waitqueue := waitqueue m @ [w]\<rparr>))"
proof -
  let ?m = "goto t p (m\<lparr>waitqueue := waitqueue m @ [w]\<rparr>)"
  note sd = sending [OF inv s] and c = count_okD [OF mutex_invD(4) [OF inv]]
  note tt = mutex_invD(1) [OF inv, of t] and tw = mutex_invD(1) [OF inv, of w]
  have pw: "pcs m w = L LWait" using sd(6) u by simp
  have pt: "\<not> has_token (pcs m t)" "wakes (pcs m t) = None" "\<not> picks (pcs m t)" "\<not> sleeps (pcs m t)" "pcs m t \<noteq> Sent"
    "pcs m t \<noteq> U UOwner" "\<not> attempts (pcs m t)" "\<not> owns (pcs m t)"
    using s u by (cases "pcs m t"; auto split: if_splits)+
  have "pcs m t \<noteq> L LWait" using pt(7) by auto
  then have "pend t = None" "t \<notin> set (waitqueue m)" "t \<notin> woken m"
    using thread_okD(5,6,9) [OF tt] pt by auto
  then have "threads_ok tok (pend(w := None)) ?m"
    by (intro threads_okI [OF inv, where I = "{t, w}"])
      (use tt tw sd pw p pt in \<open>auto simp: thread_ok_def\<close>)
  moreover have "sends_ok (pend(w := None)) ?m"
  proof -
    have all: "\<And>u v. pend v = Some u \<longleftrightarrow> sends (pcs m u) = Some v" using mutex_invD(2) [OF inv] by (auto simp: sends_ok_def)
    have uniq: "u = t" if "sends (pcs m u) = Some w" for u using that sd(1) unfolding all [symmetric] by simp
    show ?thesis using mutex_invD(2) [OF inv] s u p sd pw pt unfolding sends_ok_def by (auto dest: uniq)
  qed
  moreover have "fields_ok tok ?m" using mutex_invD(3) [OF inv] p pt sd by (auto simp: fields_ok_def)
  moreover have A: "attempting ?m = attempting m" "owning ?m = owning m" using p pt by auto
  have "count_ok tok ?m" by (intro count_okI) (use c p in \<open>simp_all only: A\<close>, auto split: if_splits)
  ultimately show ?thesis by (simp add: mutex_inv_def)
qed


lemma send_lock_step_inv:
  assumes inv: "mutex_inv tok pend m" and p: "pcs m t = S w p"
  shows "\<exists>tok' pend'. mutex_inv tok' pend' (send_lock_step t w p m)"
proof (cases p)
  case SInc
  then show ?thesis using send_inc_inv [OF inv, of t w] p by blast
next
  case SWake0
  then have "mutex_inv (At w) pend (goto t Idle (wake_record w m))" by (intro wake_inv [OF inv]) (simp_all add: p)
  then show ?thesis using SWake0 by auto
next
  case SPush
  then have "mutex_inv tok (pend(w := None)) (goto t (S w SLoad) (m\<lparr>waitqueue := waitqueue m @ [w]\<rparr>))"
    by (intro enqueue_inv [OF inv]) (simp_all add: p)
  then show ?thesis using SPush by auto
next
  case SLoad
  have "mutex_inv tok pend (send_lock_step t w SLoad m)" unfolding send_lock_step.simps
    by (rule mutex_inv_goto [OF inv]) (use mutex_invD(1) [OF inv, of t] p SLoad in \<open>auto simp: thread_ok_def split: if_splits\<close>)
  then show ?thesis using SLoad by blast
next
  case (SEmpty h)
  have "mutex_inv tok pend (send_lock_step t w (SEmpty h) m)" unfolding send_lock_step.simps
    by (rule mutex_inv_goto [OF inv]) (use mutex_invD(1) [OF inv, of t] p SEmpty in \<open>auto simp: thread_ok_def split: if_splits\<close>)
  then show ?thesis using SEmpty by blast
next
  case (SCas h)
  note th = mutex_invD(1) [OF inv, of t, unfolded p SCas]
  show ?thesis
  proof (cases "handoff m = h")
    case True
    have h: "handoff m \<noteq> 0" using thread_okD(12) [OF th] True by auto
    then have tok: "tok = InHandoff" using mutex_invD(3) [OF inv] by (simp add: fields_ok_def)
    have "mutex_inv (At t) pend (goto t (S w SPop) (m\<lparr>handoff := 0\<rparr>))"
      by (rule take_handoff_inv [OF inv h]) (use th tok p SCas in \<open>auto simp: thread_ok_def\<close>)
    then show ?thesis using True SCas by auto
  next
    case False
    have "mutex_inv tok pend (goto t Idle m)"
      by (rule mutex_inv_goto [OF inv]) (use th p SCas in \<open>auto simp: thread_ok_def\<close>)
    then show ?thesis using False SCas by auto
  qed
next
  case SPop
  note th = mutex_invD(1) [OF inv, of t, unfolded p SPop]
  have tok: "tok = At t" "\<not> hold m t" "t \<notin> set (waitqueue m)" using thread_okD(1,3,5) [OF th] by auto
  show ?thesis
  proof (cases "waitqueue m")
    case Nil
    have "mutex_inv tok pend (goto t Abort m)"
      by (rule mutex_inv_goto [OF inv]) (use th p SPop tok in \<open>auto simp: thread_ok_def\<close>)
    then show ?thesis using Nil SPop by auto
  next
    case (Cons x xs)
    then have xt: "x \<noteq> t" using tok(3) by auto
    have "mutex_inv (Passing t x) pend (goto t (S w (SWake x)) (m\<lparr>waitqueue := xs\<rparr>))"
      by (rule pop_inv [OF inv tok(1) Cons xt]) (use p SPop tok in auto)
    then show ?thesis using Cons SPop by auto
  qed
next
  case (SWake x)
  then have "mutex_inv (At x) pend (goto t Idle (wake_record x m))" by (intro wake_inv [OF inv]) (simp_all add: p)
  then show ?thesis using SWake by auto
qed

lemma sends_ok_dups: "sends_ok pend m \<Longrightarrow> dups (pcs m t) = Some w \<Longrightarrow> w \<in> set (waitqueue m)"
  unfolding sends_ok_def by blast

lemma sends_ok_goto_none:
  assumes "sends_ok pend m" and "sends p = None" and "sends (pcs m t) = None"
    and "dups p = None \<or> dups p = dups (pcs m t)" and "p \<noteq> Sent" and "pcs m t \<noteq> Sent"
  shows "sends_ok pend (goto t p m)"
  using assms unfolding sends_ok_def by auto

lemma x_inc_inv:
  assumes inv: "mutex_inv tok pend m" and p: "pcs m t = X w dup XInc"
  shows "mutex_inv tok pend (send_lock_unless_step t w dup XInc m)"
proof -
  note tt = mutex_invD(1) [OF inv, of t, unfolded p] and c = count_okD [OF mutex_invD(4) [OF inv]]
  have h: "hold m t" "tok = At t" using thread_okD(1,4) [OF tt] by auto
  then have own: "owner m = Some t" using mutex_invD(3) [OF inv] by (simp add: fields_ok_def)
  show ?thesis
  proof (cases dup)
    case True
    let ?m = "goto t (X w True XScan) (m\<lparr>count := count m + 1, leaked := leaked m + 1\<rparr>)"
    have "threads_ok tok pend ?m"
      by (rule threads_okI [OF inv, where I = "{t}"]) (use tt h in \<open>auto simp: thread_ok_def True\<close>)
    moreover have "sends_ok pend ?m"
      by (rule sends_ok_goto_none) (use mutex_invD(2) [OF inv] p in \<open>auto simp: True\<close>)
    moreover have "fields_ok tok ?m" by (rule fields_ok_goto) (use mutex_invD(3) [OF inv] p in auto)
    moreover have "count_ok tok ?m"
      by (rule count_okI) (use c p h in \<open>auto simp: insert_absorb split: if_splits\<close>)
    ultimately show ?thesis using True own by (simp add: mutex_inv_def)
  next
    case False
    let ?m = "goto t (X w False XScan) (goto w (L LWait) (m\<lparr>count := count m + 1\<rparr>))"
    have st: "sends (pcs m t) = Some w" by (simp add: p False)
    note sd = sending [OF inv st] and tw = mutex_invD(1) [OF inv, of w]
    have pw: "pcs m w = Sent" using sd(6) p by simp
    have "threads_ok tok pend ?m"
      by (rule threads_okI [OF inv, where I = "{t, w}"]) (use tt tw sd pw h in \<open>auto simp: thread_ok_def False\<close>)
    moreover have "sends_ok pend ?m" by (rule sends_ok_count) (use mutex_invD(2) [OF inv] p sd pw False in auto)
    moreover have "fields_ok tok ?m" using mutex_invD(3) [OF inv] p pw by (auto simp: fields_ok_def)
    moreover have "count_ok tok ?m"
      by (rule count_okI) (use c p pw sd h in \<open>auto simp: card_insert_if insert_absorb split: if_splits\<close>)
    ultimately show ?thesis using False own by (simp add: mutex_inv_def)
  qed
qed

lemma send_lock_unless_step_inv:
  assumes inv: "mutex_inv tok pend m" and p: "pcs m t = X w dup p"
  shows "\<exists>tok' pend'. mutex_inv tok' pend' (send_lock_unless_step t w dup p m)"
proof (cases p)
  case XInc
  then show ?thesis using x_inc_inv [OF inv, of t w dup] p by blast
next
  case XScan
  note tt = mutex_invD(1) [OF inv, of t, unfolded p XScan]
  have "w \<in> set (waitqueue m) \<longleftrightarrow> dup"
    using sends_ok_dups [OF mutex_invD(2) [OF inv], of t w] sending(3) [OF inv, of t w] p XScan by (cases dup) auto
  then have "mutex_inv tok pend (send_lock_unless_step t w dup XScan m)" unfolding send_lock_unless_step.simps
    by (intro mutex_inv_goto [OF inv]) (use tt p XScan in \<open>auto simp: thread_ok_def split: if_splits\<close>)
  then show ?thesis using XScan by blast
next
  case XPush
  have "\<not> dup" using thread_okD(13) [OF mutex_invD(1) [OF inv, of t]] p XPush by (cases dup) auto
  then have "mutex_inv tok (pend(w := None)) (goto t Idle (m\<lparr>waitqueue := waitqueue m @ [w]\<rparr>))"
    by (intro enqueue_inv [OF inv]) (simp_all add: p XPush)
  then show ?thesis using XPush by auto
qed


lemma others_own_nothing:
  assumes inv: "mutex_inv tok pend m" and tok: "\<And>x. tok = At x \<Longrightarrow> x = t" and x: "x \<noteq> t"
  shows "\<not> hold m x" and "\<not> owns (pcs m x)" and "\<not> releases (pcs m x)" and "pcs m x \<noteq> U UOwner"
proof -
  have n: "\<not> has_token (pcs m x)" "\<not> hold m x" using token_elsewhere [OF inv, of x] tok x by blast+
  then show "\<not> hold m x" "\<not> releases (pcs m x)" "pcs m x \<noteq> U UOwner" using no_token_pc by auto
  show "\<not> owns (pcs m x)" using n(1) by (cases "pcs m x") auto
qed

lemma fields_okD:
  assumes "fields_ok tok m"
  shows "distinct (waitqueue m)" and "handoff m \<noteq> 0 \<longleftrightarrow> tok = InHandoff"
    and "owner m = Some t \<longleftrightarrow> hold m t \<or> pcs m t = U UOwner" and "hold m t \<Longrightarrow> 0 < depth m"
  using assms unfolding fields_ok_def by blast+

lemma try_cas_inv:
  assumes inv: "mutex_inv tok pend m" and p: "pcs m t = T TCas"
  shows "\<exists>tok' pend'. mutex_inv tok' pend' (try_lock_step t TCas m)"
proof (cases "count m = 0")
  case True
  let ?m = "goto t (T TOwn0) (m\<lparr>count := 1\<rparr>)"
  have tok: "tok = Free" by (rule free_if_zero [OF inv True])
  note th = mutex_invD(1) [OF inv, of t, unfolded p] and c = count_okD [OF mutex_invD(4) [OF inv]]
  have h: "\<not> hold m t" using token_elsewhere(2) [OF inv] tok by auto
  have "threads_ok (At t) pend ?m"
    by (rule threads_okI [OF inv, where I = "{t}"]) (use th tok in \<open>auto simp: thread_ok_def concerns_def\<close>)
  moreover have "sends_ok pend ?m" by (rule sends_ok_goto) (use mutex_invD(2) [OF inv] p in auto)
  moreover have "fields_ok (At t) ?m"
    by (rule fields_ok_goto) (use fields_ok_tok [OF mutex_invD(3) [OF inv], of "At t"] tok p in auto)
  moreover have "count_ok (At t) ?m"
    by (rule count_okI) (use c p h True in \<open>auto simp: card_insert_if split: if_splits\<close>)
  ultimately show ?thesis using True by (auto simp: mutex_inv_def)
next
  case False
  have "mutex_inv tok pend (goto t (T TRec) m)"
    by (rule mutex_inv_goto [OF inv]) (use mutex_invD(1) [OF inv, of t] p in \<open>auto simp: thread_ok_def\<close>)
  then show ?thesis using False by auto
qed

lemma try_rec_inv:
  assumes inv: "mutex_inv tok pend m" and p: "pcs m t = T TRec"
  shows "mutex_inv tok pend (try_lock_step t TRec m)"
proof (cases "owner m = Some t")
  case True
  let ?m = "goto t Idle (m\<lparr>depth := depth m + 1\<rparr>)"
  note th = mutex_invD(1) [OF inv, of t, unfolded p] and c = count_okD [OF mutex_invD(4) [OF inv]]
  have h: "hold m t" using True fields_okD(3) [OF mutex_invD(3) [OF inv]] p by auto
  have "threads_ok tok pend ?m"
    by (rule threads_okI [OF inv, where I = "{t}"]) (use th h in \<open>auto simp: thread_ok_def\<close>)
  moreover have "sends_ok pend ?m" by (rule sends_ok_goto) (use mutex_invD(2) [OF inv] p in auto)
  moreover have "fields_ok tok ?m" using mutex_invD(3) [OF inv] p by (auto simp: fields_ok_def)
  moreover have A: "attempting ?m = attempting m" "owning ?m = owning m" using p h by auto
  have "count_ok tok ?m" by (intro count_okI) (use c in \<open>simp_all only: A\<close>, auto split: if_splits)
  ultimately show ?thesis using True by (simp add: mutex_inv_def)
next
  case False
  then have h: "\<not> hold m t" using fields_okD(3) [OF mutex_invD(3) [OF inv]] by auto
  have "mutex_inv tok pend (goto t (T TLoad) m)"
    by (rule mutex_inv_goto [OF inv]) (use mutex_invD(1) [OF inv, of t] p h in \<open>auto simp: thread_ok_def\<close>)
  then show ?thesis using False by auto
qed

lemma try_inc_inv:
  assumes inv: "mutex_inv tok pend m" and p: "pcs m t = T TInc"
  shows "mutex_inv tok pend (try_lock_step t TInc m)"
proof -
  let ?m = "goto t (T TOwn1) (m\<lparr>count := count m + 1\<rparr>)"
  note th = mutex_invD(1) [OF inv, of t, unfolded p] and c = count_okD [OF mutex_invD(4) [OF inv]]
  have tok: "tok = At t" "\<not> hold m t" using thread_okD(1,3) [OF th] by auto
  have "threads_ok tok pend ?m"
    by (rule threads_okI [OF inv, where I = "{t}"]) (use th tok in \<open>auto simp: thread_ok_def\<close>)
  moreover have "sends_ok pend ?m" by (rule sends_ok_goto) (use mutex_invD(2) [OF inv] p in auto)
  moreover have "fields_ok tok ?m" by (rule fields_ok_goto) (use mutex_invD(3) [OF inv] p in auto)
  moreover have "count_ok tok ?m"
    by (rule count_okI) (use c p tok in \<open>auto simp: card_insert_if split: if_splits\<close>)
  ultimately show ?thesis by (simp add: mutex_inv_def)
qed

lemma try_lock_step_inv:
  assumes inv: "mutex_inv tok pend m" and p: "pcs m t = T p"
  shows "\<exists>tok' pend'. mutex_inv tok' pend' (try_lock_step t p m)"
proof (cases p)
  case TCas
  then show ?thesis using try_cas_inv [OF inv, of t] p by blast
next
  case TOwn0
  then show ?thesis using receive_lock_inv [OF inv, of t] p by auto
next
  case TRec
  then show ?thesis using try_rec_inv [OF inv, of t] p by blast
next
  case TLoad
  have "mutex_inv tok pend (try_lock_step t TLoad m)" unfolding try_lock_step.simps
    by (rule mutex_inv_goto [OF inv]) (use mutex_invD(1) [OF inv, of t] p TLoad in \<open>auto simp: thread_ok_def split: if_splits\<close>)
  then show ?thesis using TLoad by blast
next
  case (THcas h)
  note th = mutex_invD(1) [OF inv, of t, unfolded p THcas]
  show ?thesis
  proof (cases "handoff m = h")
    case True
    have h: "handoff m \<noteq> 0" using thread_okD(12) [OF th] True by auto
    then have tok: "tok = InHandoff" using mutex_invD(3) [OF inv] by (simp add: fields_ok_def)
    have "mutex_inv (At t) pend (goto t (T TInc) (m\<lparr>handoff := 0\<rparr>))"
      by (rule take_handoff_inv [OF inv h]) (use th tok p THcas in \<open>auto simp: thread_ok_def\<close>)
    then show ?thesis using True THcas by auto
  next
    case False
    have "mutex_inv tok pend (goto t Idle m)"
      by (rule mutex_inv_goto [OF inv]) (use th p THcas in \<open>auto simp: thread_ok_def\<close>)
    then show ?thesis using False THcas by auto
  qed
next
  case TInc
  then show ?thesis using try_inc_inv [OF inv, of t] p by blast
next
  case TOwn1
  then show ?thesis using receive_lock_inv [OF inv, of t] p by auto
qed




lemma fields_okI:
  assumes "distinct (waitqueue m)" and "handoff m \<noteq> 0 \<longleftrightarrow> tok = InHandoff"
    and "\<And>t. owner m = Some t \<longleftrightarrow> hold m t \<or> pcs m t = U UOwner" and "\<And>t. hold m t \<Longrightarrow> 0 < depth m"
  shows "fields_ok tok m"
  using assms unfolding fields_ok_def by blast

lemma unlock_start_inv:
  assumes inv: "mutex_inv tok pend m" and p: "pcs m t = U UStart"
  shows "mutex_inv tok pend (unlock_step t UStart m)"
proof -
  note th = mutex_invD(1) [OF inv, of t, unfolded p] and c = count_okD [OF mutex_invD(4) [OF inv]]
    and f = fields_okD [OF mutex_invD(3) [OF inv]]
  have h: "hold m t" "tok = At t" using thread_okD(1,4) [OF th] by auto
  then have own: "owner m = Some t" "0 < depth m" using f(3,4) by auto
  note oth = others_own_nothing [OF inv, of t]
  show ?thesis
  proof (cases "depth m = 1")
    case False
    let ?m = "goto t Idle (m\<lparr>depth := depth m - 1\<rparr>)"
    have "threads_ok tok pend ?m"
      by (rule threads_okI [OF inv, where I = "{t}"]) (use th h in \<open>auto simp: thread_ok_def\<close>)
    moreover have "sends_ok pend ?m" by (rule sends_ok_goto) (use mutex_invD(2) [OF inv] p in auto)
    moreover have "fields_ok tok ?m" using mutex_invD(3) [OF inv] p False own by (auto simp: fields_ok_def)
    moreover have A: "attempting ?m = attempting m" "owning ?m = owning m" using p h by auto
    have "count_ok tok ?m" by (intro count_okI) (use c in \<open>simp_all only: A\<close>, auto split: if_splits)
    ultimately show ?thesis using False own by (simp add: mutex_inv_def)
  next
    case True
    let ?m = "goto t (U UOwner) (m\<lparr>depth := 0, hold := (hold m)(t := False)\<rparr>)"
    have "threads_ok tok pend ?m"
      by (rule threads_okI [OF inv, where I = "{t}"]) (use th h in \<open>auto simp: thread_ok_def\<close>)
    moreover have "sends_ok pend ?m" by (rule sends_ok_goto) (use mutex_invD(2) [OF inv] p in auto)
    moreover have "fields_ok tok ?m"
    proof (rule fields_okI)
      fix x show "owner ?m = Some x \<longleftrightarrow> hold ?m x \<or> pcs ?m x = U UOwner"
        using oth(1,4) [of x] own(1) h(2) by (cases "x = t") simp_all
      show "0 < depth ?m" if "hold ?m x" using that oth(1) [of x] h(2) by (cases "x = t") simp_all
    qed (use f(1,2) in simp_all)
    moreover have A: "attempting ?m = attempting m" "owning ?m = owning m" using p h by (auto simp: owning_def)
    have "count_ok tok ?m" by (intro count_okI) (use c in \<open>simp_all only: A\<close>, auto split: if_splits)
    ultimately show ?thesis using True own by (simp add: mutex_inv_def)
  qed
qed

lemma unlock_owner_inv:
  assumes inv: "mutex_inv tok pend m" and p: "pcs m t = U UOwner"
  shows "mutex_inv tok pend (unlock_step t UOwner m)"
proof -
  let ?m = "goto t (U UDec) (m\<lparr>owner := None\<rparr>)"
  note th = mutex_invD(1) [OF inv, of t, unfolded p] and c = count_okD [OF mutex_invD(4) [OF inv]]
  have h: "\<not> hold m t" "tok = At t" using thread_okD(1,3) [OF th] by auto
  note oth = others_own_nothing [OF inv, of t]
  have "threads_ok tok pend ?m"
    by (rule threads_okI [OF inv, where I = "{t}"]) (use th h in \<open>auto simp: thread_ok_def\<close>)
  moreover have "sends_ok pend ?m" by (rule sends_ok_goto) (use mutex_invD(2) [OF inv] p in auto)
  moreover have "fields_ok tok ?m"
  proof (rule fields_okI)
    fix x show "owner ?m = Some x \<longleftrightarrow> hold ?m x \<or> pcs ?m x = U UOwner"
      using oth(1,4) [of x] h by (cases "x = t") simp_all
    show "0 < depth ?m" if "hold ?m x" using that oth(1) [of x] h by (cases "x = t") simp_all
  qed (use fields_okD(1,2) [OF mutex_invD(3) [OF inv]] in simp_all)
  moreover have A: "attempting ?m = attempting m" "owning ?m = owning m" using p h by auto
  have "count_ok tok ?m" by (intro count_okI) (use c in \<open>simp_all only: A\<close>, auto split: if_splits)
  ultimately show ?thesis by (simp add: mutex_inv_def)
qed

lemma unlock_dec_inv:
  assumes inv: "mutex_inv tok pend m" and p: "pcs m t = U UDec"
  shows "\<exists>tok' pend'. mutex_inv tok' pend' (unlock_step t UDec m)"
proof -
  note th = mutex_invD(1) [OF inv, of t, unfolded p] and c = count_okD [OF mutex_invD(4) [OF inv]]
  have h: "\<not> hold m t" "tok = At t" using thread_okD(1,3) [OF th] by auto
  note oth = others_own_nothing [OF inv, of t]
  have H: "owning m = {t}" using oth(1,2) h p by (auto simp: owning_def)
  then have cnt: "count m = 1 + int (card (attempting m)) + int (leaked m)" using c(3) by simp
  have nr: "\<not> releases (pcs m x)" for x using oth(3) [of x] h p by (cases "x = t") auto
  show ?thesis
  proof (cases "count m = 1")
    case True
    let ?m = "goto t Idle (m\<lparr>count := count m - 1\<rparr>)"
    have "threads_ok Free pend ?m"
      by (rule threads_okI [OF inv, where I = "{t}"]) (use th h in \<open>auto simp: thread_ok_def concerns_def\<close>)
    moreover have "sends_ok pend ?m" by (rule sends_ok_goto) (use mutex_invD(2) [OF inv] p in auto)
    moreover have "fields_ok Free ?m"
      by (rule fields_ok_goto) (use fields_ok_tok [OF mutex_invD(3) [OF inv], of Free] h p in auto)
    moreover have "count_ok Free ?m"
      by (rule count_okI) (use c(1) cnt True H h nr p in \<open>auto split: if_splits\<close>)
    ultimately show ?thesis using True by (auto simp: mutex_inv_def)
  next
    case False
    let ?m = "goto t (U UPop) (m\<lparr>count := count m - 1\<rparr>)"
    have "threads_ok tok pend ?m"
      by (rule threads_okI [OF inv, where I = "{t}"]) (use th h in \<open>auto simp: thread_ok_def\<close>)
    moreover have "sends_ok pend ?m" by (rule sends_ok_goto) (use mutex_invD(2) [OF inv] p in auto)
    moreover have "fields_ok tok ?m" by (rule fields_ok_goto) (use mutex_invD(3) [OF inv] p in auto)
    moreover have "attempting m \<noteq> {} \<or> 0 < leaked m" using cnt False by auto
    then have "count_ok tok ?m"
      by (intro count_okI) (use c(1) cnt H h p in \<open>auto split: if_splits\<close>)
    ultimately show ?thesis using False by (auto simp: mutex_inv_def)
  qed
qed

lemma unlock_store_inv:
  assumes inv: "mutex_inv tok pend m" and p: "pcs m t = U (UStore h)"
  shows "mutex_inv InHandoff pend (unlock_step t (UStore h) m)"
proof -
  let ?m = "goto t (U (UEmpty h)) (m\<lparr>handoff := h\<rparr>)"
  note th = mutex_invD(1) [OF inv, of t, unfolded p] and c = count_okD [OF mutex_invD(4) [OF inv]]
  have h: "\<not> hold m t" "tok = At t" "h \<noteq> 0" using thread_okD(1,3,12) [OF th] by auto
  have some: "attempting m \<noteq> {} \<or> 0 < leaked m" by (rule c(5) [of t]) (simp add: p)
  have "threads_ok InHandoff pend ?m"
    by (rule threads_okI [OF inv, where I = "{t}"]) (use th h in \<open>auto simp: thread_ok_def concerns_def\<close>)
  moreover have "sends_ok pend ?m" by (rule sends_ok_goto) (use mutex_invD(2) [OF inv] p in auto)
  moreover have "fields_ok InHandoff ?m" using mutex_invD(3) [OF inv] p h by (auto simp: fields_ok_def)
  moreover have A: "attempting ?m = attempting m" "owning ?m = owning m" using p h by auto
  have "count_ok InHandoff ?m" by (intro count_okI) (use c some in \<open>simp_all only: A\<close>, auto split: if_splits)
  ultimately show ?thesis by (simp add: mutex_inv_def)
qed



lemma mutex_inv_sequence: "mutex_inv tok pend (m\<lparr>sequence := n\<rparr>) \<longleftrightarrow> mutex_inv tok pend m"
  by (simp add: mutex_inv_def threads_ok_def sends_ok_def fields_ok_def count_ok_def)

lemma unlock_step_inv:
  assumes inv: "mutex_inv tok pend m" and p: "pcs m t = U p"
  shows "\<exists>tok' pend'. mutex_inv tok' pend' (unlock_step t p m)"
proof (cases p)
  case UStart
  then show ?thesis using unlock_start_inv [OF inv, of t] p by blast
next
  case UOwner
  then show ?thesis using unlock_owner_inv [OF inv, of t] p by blast
next
  case UDec
  then show ?thesis using unlock_dec_inv [OF inv, of t] p by blast
next
  case UPop
  note th = mutex_invD(1) [OF inv, of t, unfolded p UPop]
  have tok: "tok = At t" "\<not> hold m t" "t \<notin> set (waitqueue m)" using thread_okD(1,3,5) [OF th] by auto
  show ?thesis
  proof (cases "waitqueue m")
    case Nil
    have "mutex_inv tok pend (goto t (U USeq) m)"
      by (rule mutex_inv_goto [OF inv]) (use th p UPop tok in \<open>auto simp: thread_ok_def\<close>)
    then show ?thesis using Nil UPop by auto
  next
    case (Cons x xs)
    then have xt: "x \<noteq> t" using tok(3) by auto
    have "mutex_inv (Passing t x) pend (goto t (U (UWake x)) (m\<lparr>waitqueue := xs\<rparr>))"
      by (rule pop_inv [OF inv tok(1) Cons xt]) (use p UPop tok in auto)
    then show ?thesis using Cons UPop xt by auto
  qed
next
  case (UWake w)
  then have "mutex_inv (At w) pend (goto t Idle (wake_record w m))" by (intro wake_inv [OF inv]) (simp_all add: p)
  then show ?thesis using UWake by auto
next
  case USeq
  let ?h = "next_sequence (sequence m)"
  have "?h \<noteq> 0" by (simp add: next_sequence_def Let_def)
  then have "mutex_inv tok pend (goto t (U (UStore ?h)) (m\<lparr>sequence := ?h\<rparr>))"
    by (intro mutex_inv_goto) (use inv mutex_invD(1) [OF inv, of t] p USeq in \<open>auto simp: thread_ok_def mutex_inv_sequence\<close>)
  then show ?thesis using USeq by auto
next
  case (UStore h)
  then show ?thesis using unlock_store_inv [OF inv, of t] p by blast
next
  case (UEmpty h)
  have "mutex_inv tok pend (unlock_step t (UEmpty h) m)" unfolding unlock_step.simps
    by (rule mutex_inv_goto [OF inv]) (use mutex_invD(1) [OF inv, of t] p UEmpty in \<open>auto simp: thread_ok_def split: if_splits\<close>)
  then show ?thesis using UEmpty by blast
next
  case (UCas h)
  note th = mutex_invD(1) [OF inv, of t, unfolded p UCas]
  show ?thesis
  proof (cases "handoff m = h")
    case True
    have h: "handoff m \<noteq> 0" using thread_okD(12) [OF th] True by auto
    then have tok: "tok = InHandoff" using mutex_invD(3) [OF inv] by (simp add: fields_ok_def)
    have "mutex_inv (At t) pend (goto t (U UPop) (m\<lparr>handoff := 0\<rparr>))"
      by (rule take_handoff_inv [OF inv h]) (use th tok p UCas in \<open>auto simp: thread_ok_def\<close>)
    then show ?thesis using True UCas by auto
  next
    case False
    have "mutex_inv tok pend (goto t Idle m)"
      by (rule mutex_inv_goto [OF inv]) (use th p UCas in \<open>auto simp: thread_ok_def\<close>)
    then show ?thesis using False UCas by auto
  qed
qed

lemma mutex_step_inv:
  assumes "mutex_inv tok pend m"
  shows "\<exists>tok' pend'. mutex_inv tok' pend' (mutex_step t m)"
  using assms lock_step_inv [OF assms, of t] send_lock_step_inv [OF assms, of t] send_lock_unless_step_inv [OF assms, of t]
    try_lock_step_inv [OF assms, of t] unlock_step_inv [OF assms, of t]
  by (auto simp: mutex_step_def split: pc.split)

lemma start_send_inv:
  assumes inv: "mutex_inv tok pend m" and t: "pcs m t = Idle" and w: "pcs m w = Parked"
    and p: "p = S w SInc \<or> p = X w False XInc \<and> hold m t"
  shows "mutex_inv tok (pend(w := Some t)) (goto t p (goto w Sent m))"
proof -
  let ?m = "goto t p (goto w Sent m)"
  note tt = mutex_invD(1) [OF inv, of t, unfolded t] and tw = mutex_invD(1) [OF inv, of w, unfolded w]
    and c = count_okD [OF mutex_invD(4) [OF inv]]
  have wt: "w \<noteq> t" using t w by auto
  have pend: "pend w = None" "pend t = None" using thread_okD(9) [OF tw] thread_okD(9) [OF tt] by auto
  have hw: "\<not> hold m w" using thread_okD(3) [OF tw] by auto
  have "threads_ok tok (pend(w := Some t)) ?m"
    by (rule threads_okI [OF inv, where I = "{t, w}"]) (use tt tw wt pend p in \<open>auto simp: thread_ok_def\<close>)
  moreover have "sends_ok (pend(w := Some t)) ?m"
  proof -
    have all: "\<And>u v. pend v = Some u \<longleftrightarrow> sends (pcs m u) = Some v" using mutex_invD(2) [OF inv] by (auto simp: sends_ok_def)
    have none: "sends (pcs m u) \<noteq> Some w" "sends (pcs m u) \<noteq> Some t" for u unfolding all [symmetric] using pend by simp_all
    show ?thesis using mutex_invD(2) [OF inv] p t w wt none unfolding sends_ok_def by auto
  qed
  moreover have "fields_ok tok ?m"
    by (intro fields_ok_goto) (use mutex_invD(3) [OF inv] p t w wt in auto)
  moreover have A: "attempting ?m = attempting m" "owning ?m = owning m" using p t w wt hw by auto
  have "count_ok tok ?m" by (intro count_okI) (use c p in \<open>simp_all only: A\<close>, auto split: if_splits)
  ultimately show ?thesis by (simp add: mutex_inv_def)
qed

lemma mutex_call_inv:
  assumes "mutex_call m m'" and "mutex_inv tok pend m"
  shows "\<exists>pend'. mutex_inv tok pend' m'"
  using assms
proof (induction rule: mutex_call.induct)
  case (lock m t)
  have "mutex_inv tok pend (goto t (L LInc) m)"
    by (rule mutex_inv_goto [OF lock(2)]) (use mutex_invD(1) [OF lock(2), of t] lock(1) in \<open>auto simp: thread_ok_def\<close>)
  then show ?case by blast
next
  case (try_lock m t)
  have "mutex_inv tok pend (goto t (T TCas) m)"
    by (rule mutex_inv_goto [OF try_lock(2)]) (use mutex_invD(1) [OF try_lock(2), of t] try_lock(1) in \<open>auto simp: thread_ok_def\<close>)
  then show ?case by blast
next
  case (unlock m t)
  have "mutex_inv tok pend (goto t (U UStart) m)"
    by (rule mutex_inv_goto [OF unlock(3)]) (use mutex_invD(1) [OF unlock(3), of t] unlock(1,2) in \<open>auto simp: thread_ok_def\<close>)
  then show ?case by blast
next
  case (park m t)
  have "mutex_inv tok pend (goto t Parked m)"
    by (rule mutex_inv_goto [OF park(3)]) (use mutex_invD(1) [OF park(3), of t] park(1,2) in \<open>auto simp: thread_ok_def\<close>)
  then show ?case by blast
next
  case (unpark m t)
  have "mutex_inv tok pend (goto t Idle m)"
    by (rule mutex_inv_goto [OF unpark(2)]) (use mutex_invD(1) [OF unpark(2), of t] unpark(1) in \<open>auto simp: thread_ok_def\<close>)
  then show ?case by blast
next
  case (send_lock m t w)
  then show ?case using start_send_inv [of tok pend m t w "S w SInc"] by blast
next
  case (send_unless m t w)
  then show ?case using start_send_inv [of tok pend m t w "X w False XInc"] by blast
next
  case (send_dup m t w)
  let ?m = "goto t (X w True XInc) m"
  note inv = send_dup(4) and c = count_okD [OF mutex_invD(4) [OF send_dup(4)]]
  have "threads_ok tok pend ?m"
    by (rule threads_okI [OF inv, where I = "{t}"])
      (use mutex_invD(1) [OF inv, of t] send_dup(1,2) in \<open>auto simp: thread_ok_def\<close>)
  moreover have "sends_ok pend ?m"
  proof -
    have "pend t = None" using thread_okD(9) [OF mutex_invD(1) [OF inv, of t]] send_dup(1) by auto
    then have "sends (pcs m u) \<noteq> Some t" for u using mutex_invD(2) [OF inv] unfolding sends_ok_def by (metis option.distinct(1))
    then show ?thesis using mutex_invD(2) [OF inv] send_dup(1,3) unfolding sends_ok_def by auto
  qed
  moreover have "fields_ok tok ?m" by (rule fields_ok_goto) (use mutex_invD(3) [OF inv] send_dup(1) in auto)
  moreover have A: "attempting ?m = attempting m" "owning ?m = owning m" using send_dup(1,2) by auto
  have "count_ok tok ?m" by (intro count_okI) (use c in \<open>simp_all only: A\<close>, auto split: if_splits)
  ultimately show ?case by (auto simp: mutex_inv_def)
qed


lemma mutex_run_inv:
  assumes "mutex_run m"
  shows "\<exists>tok pend. mutex_inv tok pend m"
  using assms
proof (induction rule: mutex_run.induct)
  case init
  have "mutex_inv Free (\<lambda>_. None) lfmutex_init"
    by (simp add: mutex_inv_def threads_ok_def thread_ok_def sends_ok_def fields_ok_def count_ok_def
        attempting_def owning_def lfmutex_init_def)
  then show ?case by blast
next
  case (call m m')
  then show ?case using mutex_call_inv by blast
next
  case (step m t)
  then show ?case using mutex_step_inv by blast
qed

section \<open>No wake-up is lost\<close>

text \<open>
  The threads that will look at the handoff word when it holds \<open>h\<close>: about to read it, or holding a
  copy of it on the way to taking it.
\<close>

fun watches :: "nat \<Rightarrow> pc \<Rightarrow> bool" where
  "watches h (L p) \<longleftrightarrow> p = LLoad \<or> p = LEmpty h \<or> p = LCas h"
| "watches h (S w p) \<longleftrightarrow> p = SLoad \<or> p = SEmpty h \<or> p = SCas h"
| "watches h (U p) \<longleftrightarrow> p = UEmpty h \<or> p = UCas h"
| "watches h _ \<longleftrightarrow> False"

definition watch_ok :: "lfmutex \<Rightarrow> bool" where
  "watch_ok m \<longleftrightarrow> (handoff m \<noteq> 0 \<and> waitqueue m \<noteq> [] \<longrightarrow> (\<exists>u. watches (handoff m) (pcs m u)))"

lemma watch_okI:
  assumes w: "watch_ok m" and h: "handoff m' = handoff m"
    and keep: "\<And>u. u \<noteq> t \<Longrightarrow> watches (handoff m) (pcs m u) \<Longrightarrow> watches (handoff m) (pcs m' u)"
    and t: "handoff m \<noteq> 0 \<Longrightarrow> waitqueue m' \<noteq> [] \<Longrightarrow> watches (handoff m) (pcs m' t) \<or>
      waitqueue m \<noteq> [] \<and> \<not> watches (handoff m) (pcs m t)"
  shows "watch_ok m'"
  unfolding watch_ok_def h
proof
  assume "handoff m \<noteq> 0 \<and> waitqueue m' \<noteq> []"
  then consider "watches (handoff m) (pcs m' t)" | "waitqueue m \<noteq> []" "\<not> watches (handoff m) (pcs m t)" "handoff m \<noteq> 0"
    using t by blast
  then show "\<exists>u. watches (handoff m) (pcs m' u)"
  proof cases
    case 2
    then obtain u where u: "watches (handoff m) (pcs m u)" using w by (auto simp: watch_ok_def)
    then have "u \<noteq> t" using 2(2) by auto
    then show ?thesis using keep u by blast
  qed blast
qed

lemma watch_ok_zero: "handoff m = 0 \<Longrightarrow> watch_ok m"
  by (simp add: watch_ok_def)

lemma token_no_handoff:
  assumes "mutex_inv tok pend m" and "has_token (pcs m t) \<or> hold m t"
  shows "handoff m = 0"
  using token_at [OF assms(1), of t] fields_okD(2) [OF mutex_invD(3) [OF assms(1)]] assms(2) by auto

lemma lock_step_watch:
  assumes inv: "mutex_inv tok pend m" and w: "watch_ok m" and p: "pcs m t = L p"
  shows "watch_ok (lock_step t p m)"
proof (cases "p = LPop")
  case True
  then have "handoff m = 0" using token_no_handoff [OF inv, of t] p by simp
  then show ?thesis using True by (auto intro: watch_ok_zero split: list.split)
next
  case False
  have c: "copies (L p) \<noteq> Some 0" using thread_okD(12) [OF mutex_invD(1) [OF inv, of t]] p by simp
  show ?thesis
  proof (cases "\<exists>h. p = LCas h \<and> handoff m = h")
    case True
    then show ?thesis by (auto intro: watch_ok_zero)
  next
    case nocas: False
    show ?thesis
      by (rule watch_okI [OF w, of _ t]) (use p False nocas c in \<open>cases p; auto simp: receive_lock_def wake_record_def split: if_splits\<close>)+
  qed
qed


lemma send_lock_step_watch:
  assumes inv: "mutex_inv tok pend m" and w: "watch_ok m" and p: "pcs m t = S v p"
  shows "watch_ok (send_lock_step t v p m)"
proof (cases "p = SPop \<or> (\<exists>h. p = SCas h \<and> handoff m = h)")
  case True
  have "handoff m = 0" if "p = SPop" using token_no_handoff [OF inv, of t] p that by simp
  then show ?thesis using True by (auto intro: watch_ok_zero split: list.split)
next
  case False
  have c: "copies (S v p) \<noteq> Some 0" using thread_okD(12) [OF mutex_invD(1) [OF inv, of t]] p by simp
  have "pcs m v = Sent" if "p = SInc" using sending(6) [OF inv, of t v] p that by simp
  then show ?thesis
    by (intro watch_okI [OF w, of _ t]) (use p False c in \<open>cases p; auto simp: wake_record_def split: if_splits\<close>)+
qed

lemma send_lock_unless_step_watch:
  assumes inv: "mutex_inv tok pend m" and w: "watch_ok m" and p: "pcs m t = X v dup p"
  shows "watch_ok (send_lock_unless_step t v dup p m)"
proof -
  have "hold m t" using thread_okD(4) [OF mutex_invD(1) [OF inv, of t]] p by simp
  then have "handoff m = 0" using token_no_handoff [OF inv, of t] by simp
  then show ?thesis by (cases p) (auto intro!: watch_ok_zero simp: Let_def)
qed

lemma try_lock_step_watch:
  assumes inv: "mutex_inv tok pend m" and w: "watch_ok m" and p: "pcs m t = T p"
  shows "watch_ok (try_lock_step t p m)"
proof (cases "\<exists>h. p = THcas h \<and> handoff m = h")
  case True
  then show ?thesis by (auto intro: watch_ok_zero)
next
  case False
  then show ?thesis
    by (intro watch_okI [OF w, of _ t]) (use p in \<open>cases p; auto simp: receive_lock_def split: if_splits\<close>)+
qed

lemma unlock_step_watch:
  assumes inv: "mutex_inv tok pend m" and w: "watch_ok m" and p: "pcs m t = U p"
  shows "watch_ok (unlock_step t p m)"
proof -
  consider "p = UPop" | h where "p = UCas h" "handoff m = h" | h where "p = UStore h"
    | "p \<noteq> UPop" "\<not> (\<exists>h. p = UCas h \<and> handoff m = h)" "\<not> (\<exists>h. p = UStore h)" by blast
  then show ?thesis
  proof cases
    case 1
    then have "handoff m = 0" using token_no_handoff [OF inv, of t] p by simp
    then show ?thesis using 1 by (auto intro: watch_ok_zero split: list.split)
  next
    case 2
    then show ?thesis by (auto intro: watch_ok_zero)
  next
    case 3
    then show ?thesis by (auto simp: watch_ok_def)
  next
    case 4
    then show ?thesis
      by (intro watch_okI [OF w, of _ t]) (use p in \<open>cases p; auto simp: wake_record_def split: if_splits\<close>)+
  qed
qed

lemma mutex_call_watch:
  assumes "mutex_call m m'" and "watch_ok m"
  shows "watch_ok m'"
  using assms
proof (induction rule: mutex_call.induct)
  case (lock m t)
  show ?case by (rule watch_okI [OF lock(2), of _ t]) (use lock in auto)
next
  case (try_lock m t)
  show ?case by (rule watch_okI [OF try_lock(2), of _ t]) (use try_lock in auto)
next
  case (unlock m t)
  show ?case by (rule watch_okI [OF unlock(3), of _ t]) (use unlock in auto)
next
  case (park m t)
  show ?case by (rule watch_okI [OF park(3), of _ t]) (use park in auto)
next
  case (unpark m t)
  show ?case by (rule watch_okI [OF unpark(2), of _ t]) (use unpark in auto)
next
  case (send_lock m t w)
  show ?case by (rule watch_okI [OF send_lock(3), of _ t]) (use send_lock in \<open>auto split: if_splits\<close>)
next
  case (send_unless m t w)
  show ?case by (rule watch_okI [OF send_unless(4), of _ t]) (use send_unless in \<open>auto split: if_splits\<close>)
next
  case (send_dup m t w)
  show ?case by (rule watch_okI [OF send_dup(4), of _ t]) (use send_dup in auto)
qed

lemma mutex_run_watch:
  assumes "mutex_run m"
  shows "watch_ok m"
  using assms
proof (induction rule: mutex_run.induct)
  case init
  show ?case by (simp add: watch_ok_def lfmutex_init_def)
next
  case (call m m')
  show ?case
    by (rule mutex_call_watch [OF call(2,3)])
next
  case (step m t)
  obtain tok pend where inv: "mutex_inv tok pend m" using mutex_run_inv [OF step(1)] by blast
  show ?case
    using step(2) lock_step_watch [OF inv step(2), of t] send_lock_step_watch [OF inv step(2), of t]
      send_lock_unless_step_watch [OF inv step(2), of t] try_lock_step_watch [OF inv step(2), of t]
      unlock_step_watch [OF inv step(2), of t]
    by (auto simp: mutex_step_def split: pc.split)
qed


section \<open>Properties\<close>

text \<open>A thread about to pop the wait queue.\<close>

fun pops :: "pc \<Rightarrow> bool" where
  "pops (L p) \<longleftrightarrow> p = LPop"
| "pops (S w p) \<longleftrightarrow> p = SPop"
| "pops (U p) \<longleftrightarrow> p = UPop"
| "pops _ \<longleftrightarrow> False"

lemma pops_token: "pops p \<Longrightarrow> has_token p"
  by (cases p) auto

text \<open>A concrete run: thread 1 holds the lock and thread 2 waits for it.\<close>

lemma mutex_run_steps: "mutex_run m \<Longrightarrow> mutex_run (fold mutex_step ts m)"
  by (induction ts arbitrary: m) (auto intro: mutex_run.step)

definition contended :: lfmutex where
  "contended = fold mutex_step [2, 2, 2, 2] (goto 2 (L LInc) (fold mutex_step [1, 1] (goto 1 (L LInc) lfmutex_init)))"

lemmas mutex_eval = mutex_step_def goto_def receive_lock_def wake_record_def lfmutex_init_def

lemma contended_eq:
  "contended = \<lparr>count = 2, depth = 1, owner = Some 1, waitqueue = [2], handoff = 0, sequence = 0, woken = {},
     pcs = (\<lambda>_. Idle)(1 := Idle, 2 := L LWait), hold = (\<lambda>_. False)(1 := True), leaked = 0\<rparr>"
  by (simp add: contended_def mutex_eval)

lemma contended_run: "mutex_run contended"
proof -
  let ?m = "fold mutex_step [1, 1] (goto 1 (L LInc) lfmutex_init)"
  have "mutex_call lfmutex_init (goto 1 (L LInc) lfmutex_init)" by (rule mutex_call.lock) (simp add: lfmutex_init_def)
  then have run: "mutex_run ?m" by (rule mutex_run_steps [OF mutex_run.call [OF mutex_run.init]])
  have "mutex_call ?m (goto 2 (L LInc) ?m)" by (rule mutex_call.lock) (simp add: mutex_eval)
  then show ?thesis unfolding contended_def by (rule mutex_run_steps [OF mutex_run.call [OF run]])
qed






text \<open>A thread that can take its next step by itself.\<close>

definition runs :: "lfmutex \<Rightarrow> nat \<Rightarrow> bool" where
  "runs m t \<longleftrightarrow> pcs m t \<notin> {Idle, Parked, Sent, Abort} \<and> (pcs m t = L LWait \<longrightarrow> t \<in> woken m)"

lemma token_runs:
  assumes "has_token p \<or> wakes p \<noteq> None \<or> sends p \<noteq> None \<or> watches h p" and "p \<noteq> Abort"
  shows "p \<notin> {Idle, Parked, Sent, Abort} \<and> p \<noteq> L LWait"
  using assms by (cases p) auto



lemma leaked_steps:
  "leaked (lock_step t p m) = leaked m" "leaked (send_lock_step t w q m) = leaked m"
  "leaked m \<le> leaked (send_lock_unless_step t w dup r m)" "leaked (try_lock_step t v m) = leaked m"
  "leaked (unlock_step t u m) = leaked m"
proof -
  show "leaked (lock_step t p m) = leaked m"
    by (cases p) (simp_all add: receive_lock_def wake_record_def split: list.split)
  show "leaked (send_lock_step t w q m) = leaked m" by (cases q) (simp_all add: wake_record_def split: list.split)
  show "leaked m \<le> leaked (send_lock_unless_step t w dup r m)" by (cases r) (simp_all add: Let_def)
  show "leaked (try_lock_step t v m) = leaked m" by (cases v) (simp_all add: receive_lock_def)
  show "leaked (unlock_step t u m) = leaked m" by (cases u) (simp_all add: wake_record_def split: list.split)
qed

lemma leaked_mono: "leaked m \<le> leaked (mutex_step t m)"
  by (simp add: mutex_step_def leaked_steps split: pc.split)




end
