(* ===== verification/LibcEnv.thy ===== *)
theory LibcEnv
  imports Prelude
begin

text \<open>
  The environment of \<open>libc/env/env.cc\<close>. The array \<open>__environ\<close> is the list of its strings, up to
  the terminating null pointer; strings are lists of characters without the terminating zero.
  Whether an allocation succeeds is an argument of the operations that allocate.
\<close>

section \<open>Operations\<close>

datatype env_error = EnvEinval | EnvEnomem

text \<open>\<open>!strncmp(e, name, namelen) && e[namelen] == '='\<close>\<close>

definition env_match :: "string \<Rightarrow> string \<Rightarrow> bool" where
  "env_match name e \<longleftrightarrow>
     take (length name) e = name \<and> length name < length e \<and> e ! length name = CHR ''=''"

fun env_find :: "string \<Rightarrow> string list \<Rightarrow> nat option" where
  "env_find name [] = None"
| "env_find name (e # es) = (if env_match name e then Some 0 else map_option Suc (env_find name es))"

definition getenv :: "string \<Rightarrow> string list \<Rightarrow> string option" where
  "getenv name env =
     (if name = [] then None
      else map_option (\<lambda>i. drop (length name + 1) (env ! i)) (env_find name env))"

text \<open>\<open>None\<close>: the array could not be enlarged. The name is the first \<open>namelen\<close> characters of \<open>str\<close>.\<close>

definition env_insert :: "bool \<Rightarrow> string \<Rightarrow> nat \<Rightarrow> bool \<Rightarrow> string list \<Rightarrow> string list option" where
  "env_insert bigger_ok str namelen overwrite env =
     (case env_find (take namelen str) env of
        Some i \<Rightarrow> Some (if overwrite then env[i := str] else env)
      | None \<Rightarrow> if bigger_ok then Some (env @ [str]) else None)"

definition setenv :: "bool \<Rightarrow> bool \<Rightarrow> string \<Rightarrow> string \<Rightarrow> bool \<Rightarrow> string list \<Rightarrow> env_error + string list" where
  "setenv str_ok bigger_ok name val overwrite env =
     (if name = [] \<or> CHR ''='' \<in> set name then Inl EnvEinval
      else if env_find name env \<noteq> None \<and> \<not> overwrite then Inr env
      else if \<not> str_ok then Inl EnvEnomem
      else
        (case env_insert bigger_ok (name @ CHR ''='' # val) (length name) True env of
           None \<Rightarrow> Inl EnvEnomem
         | Some env' \<Rightarrow> Inr env'))"

text \<open>\<open>strchr(str, '=')\<close>, as an index.\<close>

fun strchr_eq :: "string \<Rightarrow> nat option" where
  "strchr_eq [] = None"
| "strchr_eq (c # cs) = (if c = CHR ''='' then Some 0 else map_option Suc (strchr_eq cs))"

definition putenv :: "bool \<Rightarrow> string \<Rightarrow> string list \<Rightarrow> env_error + string list" where
  "putenv bigger_ok str env =
     (case strchr_eq str of
        None \<Rightarrow> Inl EnvEinval
      | Some n \<Rightarrow>
          if n = 0 then Inl EnvEinval
          else
            (case env_insert bigger_ok str n True env of
               None \<Rightarrow> Inl EnvEnomem
             | Some env' \<Rightarrow> Inr env'))"

text \<open>The loop that shifts the tail of the array over the removed slot.\<close>

definition env_shift :: "nat \<Rightarrow> string list \<Rightarrow> string list" where
  "env_shift i env = take i env @ drop (Suc i) env"

definition unsetenv :: "string \<Rightarrow> string list \<Rightarrow> env_error + string list" where
  "unsetenv name env =
     (if name = [] \<or> CHR ''='' \<in> set name then Inl EnvEinval
      else
        (case env_find name env of
           None \<Rightarrow> Inr env
         | Some i \<Rightarrow> Inr (env_shift i env)))"

section \<open>The environment is a map\<close>

text \<open>Every entry is a name, an equals sign and a value; no two entries have the same name.\<close>

definition entry_name :: "string \<Rightarrow> string" where
  "entry_name e = takeWhile (\<lambda>c. c \<noteq> CHR ''='') e"

definition entry_value :: "string \<Rightarrow> string" where
  "entry_value e = drop (Suc (length (entry_name e))) e"

definition env_ok :: "string list \<Rightarrow> bool" where
  "env_ok env \<longleftrightarrow> (\<forall>e \<in> set env. CHR ''='' \<in> set e \<and> entry_name e \<noteq> []) \<and> distinct (map entry_name env)"

definition env_abs :: "string list \<Rightarrow> string \<Rightarrow> string option" where
  "env_abs env = map_of (map (\<lambda>e. (entry_name e, entry_value e)) env)"

definition valid_name :: "string \<Rightarrow> bool" where
  "valid_name name \<longleftrightarrow> name \<noteq> [] \<and> CHR ''='' \<notin> set name"

lemma env_match_split: "env_match name e \<Longrightarrow> e = name @ CHR ''='' # drop (Suc (length name)) e"
  using id_take_nth_drop [of "length name" e] by (simp add: env_match_def)

lemma entry_name_build: "CHR ''='' \<notin> set name \<Longrightarrow> entry_name (name @ CHR ''='' # v) = name"
  by (subst entry_name_def, subst takeWhile_append2) auto

lemma entry_name_split: "CHR ''='' \<in> set e \<Longrightarrow> e = entry_name e @ CHR ''='' # entry_value e"
  by (induction e) (auto simp: entry_name_def entry_value_def)

lemma env_match_iff:
  assumes "valid_name name"
  shows "env_match name e \<longleftrightarrow> CHR ''='' \<in> set e \<and> entry_name e = name"
proof
  assume m: "env_match name e"
  then have "CHR ''='' \<in> set (name @ CHR ''='' # drop (Suc (length name)) e)" by simp
  then show "CHR ''='' \<in> set e \<and> entry_name e = name"
    using env_match_split [OF m] entry_name_build [of name "drop (Suc (length name)) e"] assms
    by (simp add: valid_name_def)
next
  assume "CHR ''='' \<in> set e \<and> entry_name e = name"
  then have "e = name @ CHR ''='' # entry_value e" using entry_name_split [of e] by simp
  moreover have "env_match name (name @ CHR ''='' # v)" for v by (simp add: env_match_def)
  ultimately show "env_match name e" by metis
qed

lemma env_find_SomeD: "env_find name env = Some i \<Longrightarrow> i < length env \<and> env_match name (env ! i)"
  by (induction env arbitrary: i) (auto split: if_splits)

lemma env_find_NoneD: "env_find name env = None \<Longrightarrow> e \<in> set env \<Longrightarrow> \<not> env_match name e"
  by (induction env) (auto split: if_splits)

lemma env_abs_Cons: "env_abs (e # es) = (env_abs es)(entry_name e \<mapsto> entry_value e)"
  by (simp add: env_abs_def)

lemma env_abs_dom: "env_abs env name = None \<longleftrightarrow> name \<notin> entry_name ` set env"
  by (simp add: env_abs_def map_of_eq_None_iff image_image)

lemma env_abs_nth:
  "distinct (map entry_name env) \<Longrightarrow> i < length env \<Longrightarrow>
   env_abs env (entry_name (env ! i)) = Some (entry_value (env ! i))"
  unfolding env_abs_def by (rule map_of_is_SomeI) (auto simp: comp_def)

lemma env_abs_append: "entry_name e \<notin> entry_name ` set env \<Longrightarrow> env_abs (env @ [e]) = (env_abs env)(entry_name e \<mapsto> entry_value e)"
  by (induction env) (auto simp: env_abs_Cons env_abs_def)

lemma env_abs_update:
  "distinct (map entry_name env) \<Longrightarrow> i < length env \<Longrightarrow> entry_name (env ! i) = entry_name e \<Longrightarrow>
   env_abs (env[i := e]) = (env_abs env)(entry_name e \<mapsto> entry_value e)"
proof (induction env arbitrary: i)
  case (Cons a es)
  show ?case
  proof (cases i)
    case (Suc k)
    then have "entry_name e \<in> entry_name ` set es"
      using Cons.prems by (metis Suc_less_eq image_eqI length_Cons nth_Cons_Suc nth_mem)
    then have "entry_name a \<noteq> entry_name e" using Cons.prems by auto
    then show ?thesis using Cons Suc by (auto simp: env_abs_Cons)
  qed (use Cons.prems in \<open>auto simp: env_abs_Cons\<close>)
qed simp

lemma env_abs_remove:
  "distinct (map entry_name env) \<Longrightarrow> i < length env \<Longrightarrow>
   env_abs (env_shift i env) = (env_abs env)(entry_name (env ! i) := None)"
proof (induction env arbitrary: i)
  case (Cons a es)
  show ?case
  proof (cases i)
    case 0
    have "env_abs es (entry_name a) = None" using Cons.prems by (simp add: env_abs_dom)
    then show ?thesis using 0 by (auto simp: env_shift_def env_abs_Cons)
  next
    case (Suc k)
    then have "entry_name (es ! k) \<in> entry_name ` set es" using Cons.prems by auto
    then have "entry_name a \<noteq> entry_name (es ! k)" using Cons.prems by auto
    moreover have "env_shift (Suc k) (a # es) = a # env_shift k es" by (simp add: env_shift_def)
    ultimately show ?thesis using Cons Suc by (auto simp: env_abs_Cons)
  qed
qed simp

lemma env_find_abs:
  assumes "env_ok env" "valid_name name"
  shows "env_find name env = None \<longleftrightarrow> env_abs env name = None"
proof (cases "env_find name env")
  case None
  then have "\<forall>e \<in> set env. entry_name e \<noteq> name"
    using assms env_find_NoneD [OF None] env_match_iff [OF assms(2)] by (auto simp: env_ok_def)
  then show ?thesis using None by (auto simp: env_abs_dom)
next
  case (Some i)
  then have "i < length env" "entry_name (env ! i) = name"
    using env_find_SomeD [OF Some] env_match_iff [OF assms(2)] by auto
  then show ?thesis using Some assms(1) env_abs_nth [of env i] by (auto simp: env_ok_def)
qed

lemma env_find_Some_ok:
  "env_find name env = Some i \<Longrightarrow> valid_name name \<Longrightarrow> i < length env \<and> entry_name (env ! i) = name"
  using env_find_SomeD [of name env i] env_match_iff [of name "env ! i"] by simp

lemma getenv_abs:
  assumes "env_ok env" "valid_name name"
  shows "getenv name env = env_abs env name"
proof (cases "env_find name env")
  case None
  then show ?thesis using env_find_abs [OF assms] by (simp add: getenv_def)
next
  case (Some i)
  then show ?thesis
    using env_find_Some_ok [OF Some assms(2)] env_abs_nth [of env i] assms
    by (auto simp: getenv_def env_ok_def entry_value_def valid_name_def)
qed

lemma entry_value_build: "CHR ''='' \<notin> set name \<Longrightarrow> entry_value (name @ CHR ''='' # v) = v"
  by (simp add: entry_value_def entry_name_build)

lemma env_ok_put:
  assumes "env_ok env" "CHR ''='' \<in> set e" "valid_name (entry_name e)"
    and "env_insert bigger_ok e (length (entry_name e)) True env = Some env'"
  shows "env_ok env' \<and> env_abs env' = (env_abs env)(entry_name e \<mapsto> entry_value e)"
proof -
  have t: "take (length (entry_name e)) e = entry_name e" by (simp add: entry_name_def takeWhile_eq_take [symmetric])
  show ?thesis
  proof (cases "env_find (entry_name e) env")
    case None
    then have "entry_name e \<notin> entry_name ` set env"
      using env_find_abs [OF assms(1,3)] by (simp add: env_abs_dom)
    then show ?thesis
      using assms None t by (auto simp: env_insert_def env_ok_def env_abs_append valid_name_def split: if_splits)
  next
    case (Some i)
    note n = env_find_Some_ok [OF Some assms(3)]
    have "map entry_name (env[i := e]) = map entry_name env"
      using n by (simp add: map_update list_update_same_conv)
    moreover have "set (env[i := e]) \<subseteq> insert e (set env)" by (rule set_update_subset_insert)
    ultimately have "env_ok (env[i := e])" using assms(1-3) unfolding env_ok_def valid_name_def by auto
    then show ?thesis
      using assms n t Some env_abs_update [of env i e] by (auto simp: env_insert_def env_ok_def)
  qed
qed

lemma env_insert_None:
  "env_ok env \<Longrightarrow> valid_name (entry_name e) \<Longrightarrow>
   env_insert bigger_ok e (length (entry_name e)) True env = None \<longleftrightarrow>
   env_abs env (entry_name e) = None \<and> \<not> bigger_ok"
  using env_find_abs [of env "entry_name e"]
  by (auto simp: env_insert_def entry_name_def takeWhile_eq_take [symmetric] split: option.splits)

lemma strchr_eq_entry: "strchr_eq s = (if CHR ''='' \<in> set s then Some (length (entry_name s)) else None)"
  by (induction s) (auto simp: entry_name_def)

section \<open>Sequences of operations\<close>

datatype env_op =
    Setenv bool bool string string bool
  | Putenv bool string
  | Unsetenv string

definition env_step :: "env_op \<Rightarrow> string list \<Rightarrow> string list" where
  "env_step p env =
     (case (case p of Setenv a b n v ov \<Rightarrow> setenv a b n v ov env | Putenv b s \<Rightarrow> putenv b s env | Unsetenv n \<Rightarrow> unsetenv n env) of
        Inl _ \<Rightarrow> env
      | Inr env' \<Rightarrow> env')"

text \<open>What the same operations do to a map from names to values.\<close>

definition map_put :: "bool \<Rightarrow> string \<Rightarrow> string \<Rightarrow> (string \<Rightarrow> string option) \<Rightarrow> (string \<Rightarrow> string option)" where
  "map_put room n v m = (if m n = None \<and> \<not> room then m else m(n \<mapsto> v))"

fun map_step :: "env_op \<Rightarrow> (string \<Rightarrow> string option) \<Rightarrow> (string \<Rightarrow> string option)" where
  "map_step (Setenv str_ok room n v ov) m =
     (if \<not> valid_name n \<or> (m n \<noteq> None \<and> \<not> ov) \<or> \<not> str_ok then m else map_put room n v m)"
| "map_step (Putenv room s) m =
     (if CHR ''='' \<in> set s \<and> valid_name (entry_name s) then map_put room (entry_name s) (entry_value s) m else m)"
| "map_step (Unsetenv n) m = (if valid_name n then m(n := None) else m)"

lemma entry_name_no_eq: "CHR ''='' \<notin> set (entry_name s)"
  by (auto simp: entry_name_def dest: set_takeWhileD)

lemma env_step_insert:
  assumes "env_ok env" "CHR ''='' \<in> set e" "valid_name (entry_name e)"
  shows "let env' = (case env_insert room e (length (entry_name e)) True env of None \<Rightarrow> env | Some env' \<Rightarrow> env') in
         env_ok env' \<and> env_abs env' = map_put room (entry_name e) (entry_value e) (env_abs env)"
  using env_ok_put [OF assms, of room] env_insert_None [OF assms(1,3), of room] assms(1)
  by (cases "env_insert room e (length (entry_name e)) True env") (auto simp: map_put_def Let_def)

lemma env_ok_shift:
  assumes "env_ok env" "i < length env"
  shows "env_ok (env_shift i env)"
proof -
  have "distinct (map entry_name (env_shift i env))"
    using assms by (auto simp: env_ok_def env_shift_def take_map [symmetric] drop_map [symmetric]
        set_take_disj_set_drop_if_distinct)
  moreover have "set (env_shift i env) \<subseteq> set env"
    by (auto simp: env_shift_def dest: in_set_takeD in_set_dropD)
  ultimately show ?thesis using assms(1) unfolding env_ok_def by blast
qed

lemma setenv_step:
  assumes "env_ok env"
  shows "env_ok (env_step (Setenv a b n v ov) env) \<and> env_abs (env_step (Setenv a b n v ov) env) = map_step (Setenv a b n v ov) (env_abs env)"
proof (cases "valid_name n")
  case True
  define e where "e = n @ CHR ''='' # v"
  have e: "entry_name e = n" "entry_value e = v" "CHR ''='' \<in> set e"
    using True by (auto simp: e_def valid_name_def entry_name_build entry_value_build)
  show ?thesis
    using env_step_insert [OF assms e(3), of b] True assms env_find_abs [OF assms True] e
    by (auto simp: env_step_def setenv_def valid_name_def Let_def e_def [symmetric] split: option.splits)
qed (use assms in \<open>auto simp: env_step_def setenv_def valid_name_def\<close>)

lemma putenv_step:
  assumes "env_ok env"
  shows "env_ok (env_step (Putenv b s) env) \<and> env_abs (env_step (Putenv b s) env) = map_step (Putenv b s) (env_abs env)"
proof (cases "CHR ''='' \<in> set s \<and> valid_name (entry_name s)")
  case True
  then show ?thesis
    using env_step_insert [OF assms, of s b]
    by (auto simp: env_step_def putenv_def strchr_eq_entry valid_name_def Let_def split: option.splits)
next
  case False
  then show ?thesis
    using assms entry_name_no_eq [of s] by (auto simp: env_step_def putenv_def strchr_eq_entry valid_name_def)
qed

lemma unsetenv_step:
  assumes "env_ok env"
  shows "env_ok (env_step (Unsetenv n) env) \<and> env_abs (env_step (Unsetenv n) env) = map_step (Unsetenv n) (env_abs env)"
proof (cases "valid_name n")
  case True
  show ?thesis
  proof (cases "env_find n env")
    case None
    then show ?thesis using True assms env_find_abs [OF assms True]
      by (auto simp: env_step_def unsetenv_def valid_name_def fun_upd_idem)
  next
    case (Some i)
    then show ?thesis
      using True assms env_find_Some_ok [OF Some True] env_ok_shift [OF assms] env_abs_remove [of env i]
      by (auto simp: env_step_def unsetenv_def valid_name_def env_ok_def)
  qed
qed (use assms in \<open>auto simp: env_step_def unsetenv_def valid_name_def\<close>)

lemma env_step_refines: "env_ok env \<Longrightarrow> env_ok (env_step p env) \<and> env_abs (env_step p env) = map_step p (env_abs env)"
  using setenv_step putenv_step unsetenv_step by (cases p) metis+

lemma env_run_sim: "env_ok env \<Longrightarrow> env_ok (fold env_step ps env) \<and> env_abs (fold env_step ps env) = fold map_step ps (env_abs env)"
  by (induction ps arbitrary: env) (simp_all add: env_step_refines)

text \<open>Claim C16: the environment array implements a map. Starting from an array of well formed
  entries with distinct names, after any sequence of \<open>setenv\<close>, \<open>putenv\<close> and \<open>unsetenv\<close> calls,
  valid or not, with any allocation failing, \<open>getenv\<close> of every valid name returns what the same
  operations on a map from names to values give, and the array is still well formed.\<close>

theorem env_implements_map:
  assumes "env_ok env" "valid_name name"
  shows "env_ok (fold env_step ps env) \<and>
         getenv name (fold env_step ps env) = fold map_step ps (env_abs env) name"
  using env_run_sim [OF assms(1)] getenv_abs [OF _ assms(2)] by simp

theorem env_implements_map_witness:
  "env_ok (fold env_step [Setenv True True ''A'' ''1'' False, Putenv True ''B=x=y'', Setenv True False ''C'' ''2'' True,
       Setenv True False ''A'' ''3'' True, Unsetenv ''B''] [''B=0'']) \<and>
   getenv ''A'' (fold env_step [Setenv True True ''A'' ''1'' False, Putenv True ''B=x=y'', Setenv True False ''C'' ''2'' True,
       Setenv True False ''A'' ''3'' True, Unsetenv ''B''] [''B=0'']) = Some ''3''"
proof -
  have "env_ok [''B=0'']" "valid_name ''A''" by (simp_all add: env_ok_def entry_name_def valid_name_def)
  note env_implements_map [OF this, of "[Setenv True True ''A'' ''1'' False, Putenv True ''B=x=y'',
      Setenv True False ''C'' ''2'' True, Setenv True False ''A'' ''3'' True, Unsetenv ''B'']"]
  then show ?thesis
    by (simp add: valid_name_def map_put_def entry_name_def entry_value_def env_abs_def)
qed

end
