(* ===== verification/LibcRandom.thy ===== *)
theory LibcRandom
  imports Prelude
begin

unbundle bit_operations_syntax

text \<open>
  The additive feedback generator of \<open>libc/prng/random.c\<close>. The memory maps the address of a
  state array to its 32-bit words; the first word is the header \<open>x[-1]\<close> of the source, so that
  \<open>x[k]\<close> is word \<open>k + 1\<close> of the array. Two state arrays are the same or do not overlap. An
  access outside an array is the result \<open>None\<close>.
\<close>

section \<open>State\<close>

type_synonym rmem = "nat \<Rightarrow> u32 list"

text \<open>The fields \<open>rand_type\<close>, \<open>rand_deg\<close>, \<open>rand_sep\<close> of \<open>random_data\<close> are the locals \<open>n\<close>, \<open>i\<close>,
  \<open>j\<close> of the source; \<open>state\<close> is the address of the array whose words follow the header.\<close>

record random_data =
  rand_type :: nat
  rand_deg :: nat
  rand_sep :: nat
  state :: nat

definition init_words :: "u32 list" where
  "init_words =
     [0x00000000, 0x5851f42d, 0xc0b18ccf, 0xcbb5f646,
      0xc7033129, 0x30705b04, 0x20fd5db4, 0x9a8b7f78,
      0x502959d8, 0xab894868, 0x6c0356a7, 0x88cdb7ff,
      0xb477d43f, 0x70a3a52b, 0xa8e4baf1, 0xfd8341fc,
      0x8ae16fd9, 0x742d2f7a, 0x0d1f0796, 0x76035e09,
      0x40f7702c, 0x6fa72ca5, 0xaaa84157, 0x58a0df74,
      0xc74a0364, 0xae533cc4, 0x04185faf, 0x6de3b115,
      0x0cab8628, 0xf043bfa4, 0x398150e9, 0x37521657]"

text \<open>The address of the static array is 0.\<close>

definition random_data_init :: random_data where
  "random_data_init = \<lparr> rand_type = 31, rand_deg = 3, rand_sep = 0, state = 0 \<rparr>"

definition decode_state :: "random_data \<Rightarrow> nat \<times> nat \<times> nat \<times> nat" where
  "decode_state s = (rand_type s, rand_deg s, rand_sep s, state s)"

definition encode_state :: "nat \<Rightarrow> nat \<Rightarrow> nat \<Rightarrow> nat \<Rightarrow> random_data" where
  "encode_state n i j x = \<lparr> rand_type = n, rand_deg = i, rand_sep = j, state = x \<rparr>"

definition lcg31 :: "u32 \<Rightarrow> u32" where
  "lcg31 x = (1103515245 * x + 12345) AND 0x7fffffff"

definition lcg64 :: "u64 \<Rightarrow> u64" where
  "lcg64 x = 6364136223846793005 * x + 1"

text \<open>Reading and writing \<open>x[k]\<close>.\<close>

definition get_x :: "rmem \<Rightarrow> nat \<Rightarrow> nat \<Rightarrow> u32 option" where
  "get_x m x k = (if Suc k < length (m x) then Some (m x ! Suc k) else None)"

definition set_x :: "rmem \<Rightarrow> nat \<Rightarrow> nat \<Rightarrow> u32 \<Rightarrow> rmem option" where
  "set_x m x k v = (if Suc k < length (m x) then Some (m(x := (m x)[Suc k := v])) else None)"

section \<open>Operations\<close>

definition savestate :: "random_data \<Rightarrow> rmem \<Rightarrow> (nat \<times> rmem) option" where
  "savestate d m =
     (let (n, i, j, x) = decode_state d in
      if m x = [] then None
      else Some (x, m(x := (m x)[0 := push_bit 16 (word_of_nat n) OR push_bit 8 (word_of_nat i) OR word_of_nat j])))"

definition loadstate :: "nat \<Rightarrow> rmem \<Rightarrow> random_data option" where
  "loadstate st m =
     (case m st of
        [] \<Rightarrow> None
      | h # _ \<Rightarrow>
          Some (encode_state (unat (drop_bit 16 h)) (unat (drop_bit 8 h AND 0xff)) (unat (h AND 0xff)) st))"

text \<open>The loop of \<open>srandom_r\<close> from index \<open>k\<close>, with \<open>r\<close> rounds left.\<close>

fun srandom_fill :: "nat \<Rightarrow> nat \<Rightarrow> nat \<Rightarrow> u64 \<Rightarrow> rmem \<Rightarrow> rmem option" where
  "srandom_fill 0 k x s m = Some m"
| "srandom_fill (Suc r) k x s m =
     (let s = lcg64 s in
      case set_x m x k (ucast (drop_bit 32 s)) of
        None \<Rightarrow> None
      | Some m \<Rightarrow> srandom_fill r (Suc k) x s m)"

definition srandom_r :: "u32 \<Rightarrow> random_data \<Rightarrow> rmem \<Rightarrow> (random_data \<times> rmem) option" where
  "srandom_r seed d m =
     (let (n, i, j, x) = decode_state d;
          s = (ucast seed :: u64) in
      if n = 0 then
        map_option (\<lambda>m. (encode_state n i j x, m)) (set_x m x 0 (ucast s))
      else
        let i = (if n = 31 \<or> n = 7 then 3 else 1);
            j = 0 in
        case srandom_fill n 0 x s m of
          None \<Rightarrow> None
        | Some m \<Rightarrow>
            (case get_x m x 0 of
               None \<Rightarrow> None
             | Some w \<Rightarrow> map_option (\<lambda>m. (encode_state n i j x, m)) (set_x m x 0 (w OR 1))))"

text \<open>The degree \<open>initstate_r\<close> chooses for a buffer of \<open>sz\<close> bytes.\<close>

definition degree_of_size :: "nat \<Rightarrow> nat" where
  "degree_of_size sz =
     (if sz < 32 then 0 else if sz < 64 then 7 else if sz < 128 then 15 else if sz < 256 then 31 else 63)"

text \<open>The left summand is the return of -1 with \<open>EINVAL\<close>.\<close>

definition initstate_r :: "u32 \<Rightarrow> nat \<Rightarrow> nat \<Rightarrow> random_data \<Rightarrow> rmem \<Rightarrow> (unit + random_data \<times> rmem) option" where
  "initstate_r seed st sz d m =
     (if sz < 8 then Some (Inl ())
      else
        let (n, i, j, x) = decode_state d;
            n = degree_of_size sz;
            x = st in
        map_option Inr (srandom_r seed (encode_state n i j x) m))"

text \<open>The first component is the returned pointer, \<open>None\<close> the null pointer.\<close>

definition initstate :: "u32 \<Rightarrow> nat \<Rightarrow> nat \<Rightarrow> random_data \<Rightarrow> rmem \<Rightarrow> (nat option \<times> random_data \<times> rmem) option" where
  "initstate seed st sz d m =
     (if sz < 8 then Some (None, d, m)
      else
        case savestate d m of
          None \<Rightarrow> None
        | Some (old, m) \<Rightarrow>
            (case initstate_r seed st sz d m of
               None \<Rightarrow> None
             | Some (Inl _) \<Rightarrow> Some (None, d, m)
             | Some (Inr (d, m)) \<Rightarrow> Some (Some old, d, m)))"

definition setstate_r :: "nat \<Rightarrow> random_data \<Rightarrow> random_data" where
  "setstate_r st d = (let (n, i, j, x) = decode_state d; x = st in encode_state n i j x)"

definition setstate :: "nat \<Rightarrow> random_data \<Rightarrow> rmem \<Rightarrow> (nat \<times> random_data \<times> rmem) option" where
  "setstate st d m =
     (case savestate d m of
        None \<Rightarrow> None
      | Some (old, m) \<Rightarrow> map_option (\<lambda>d. (old, d, m)) (loadstate st m))"

definition random_r :: "random_data \<Rightarrow> rmem \<Rightarrow> (u32 \<times> random_data \<times> rmem) option" where
  "random_r d m =
     (let (n, i, j, x) = decode_state d in
      if n = 0 then
        (case get_x m x 0 of
           None \<Rightarrow> None
         | Some w \<Rightarrow>
             map_option (\<lambda>m. (lcg31 w, encode_state n i j x, m)) (set_x m x 0 (lcg31 w)))
      else
        (case (get_x m x i, get_x m x j) of
           (Some a, Some b) \<Rightarrow>
             map_option
               (\<lambda>m. let k = drop_bit 1 (a + b);
                        i = (if Suc i = n then 0 else Suc i);
                        j = (if Suc j = n then 0 else Suc j)
                    in (k, encode_state n i j x, m))
               (set_x m x i (a + b))
         | _ \<Rightarrow> None))"

text \<open>\<open>random\<close> reads the \<open>int32_t\<close> result of \<open>random_r\<close> back as a \<open>long\<close>.\<close>

definition random_next :: "random_data \<Rightarrow> rmem \<Rightarrow> (int \<times> random_data \<times> rmem) option" where
  "random_next d m = map_option (\<lambda>(k, d, m). (sint k, d, m)) (random_r d m)"

section \<open>The invariant of the generator\<close>

definition feedback_sep :: "nat \<Rightarrow> nat" where
  "feedback_sep n = (if n = 31 \<or> n = 7 then 3 else 1)"

text \<open>The degree is one of the five the code uses, the array has room for it, the two indices are
  in range and a fixed distance apart, and one of the words is odd: an array of even words would
  stay even forever.\<close>

definition gen_ok :: "random_data \<Rightarrow> rmem \<Rightarrow> bool" where
  "gen_ok d m \<longleftrightarrow>
     rand_type d \<in> {0, 7, 15, 31, 63} \<and> rand_deg d < 256 \<and> rand_sep d < 256 \<and>
     Suc (max 1 (rand_type d)) \<le> length (m (state d)) \<and>
     (rand_type d \<noteq> 0 \<longrightarrow>
        rand_deg d < rand_type d \<and> rand_sep d < rand_type d \<and>
        rand_deg d = (rand_sep d + feedback_sep (rand_type d)) mod rand_type d \<and>
        (\<exists>k < rand_type d. odd (unat (m (state d) ! Suc k))))"

lemma not_bit_less: "a < 2 ^ k \<Longrightarrow> k \<le> l \<Longrightarrow> \<not> bit (a :: nat) l"
  by (metis bit_take_bit_iff linorder_not_le take_bit_nat_eq_self_iff)

definition state_header :: "nat \<Rightarrow> nat \<Rightarrow> nat \<Rightarrow> u32" where
  "state_header n i j = push_bit 16 (word_of_nat n) OR push_bit 8 (word_of_nat i) OR word_of_nat j"

lemma state_header_decode:
  assumes "n < 2 ^ 16" "i < 2 ^ 8" "j < 2 ^ 8"
  shows "unat (drop_bit 16 (state_header n i j)) = n"
    "unat (drop_bit 8 (state_header n i j) AND 0xff) = i"
    "unat (state_header n i j AND 0xff) = j"
proof -
  have m: "(0xff :: u32) = mask 8" by (simp add: mask_eq_exp_minus_1)
  have b: "\<And>l. 16 \<le> l \<Longrightarrow> \<not> bit n l" "\<And>l. 8 \<le> l \<Longrightarrow> \<not> bit i l" "\<And>l. 8 \<le> l \<Longrightarrow> \<not> bit j l"
    using assms not_bit_less by blast+
  have h: "bit (state_header n i j) l \<longleftrightarrow>
      l < 32 \<and> (16 \<le> l \<and> bit n (l - 16) \<or> 8 \<le> l \<and> bit i (l - 8) \<or> bit j l)" for l
    by (auto simp: state_header_def bit_simps)
  show "unat (drop_bit 16 (state_header n i j)) = n"
  proof (rule bit_eqI)
    fix l
    show "bit (unat (drop_bit 16 (state_header n i j))) l = bit n l"
      using b(1) [of l] b(2) [of "16 + l - 8"] b(3) [of "16 + l"] h [of "16 + l"]
      by (cases "l < 16") (simp_all add: bit_unsigned_iff bit_drop_bit_eq)
  qed
  show "unat (drop_bit 8 (state_header n i j) AND 0xff) = i"
  proof (rule bit_eqI)
    fix l
    show "bit (unat (drop_bit 8 (state_header n i j) AND 0xff)) l = bit i l"
      unfolding m using b(2) [of l] b(3) [of "8 + l"] h [of "8 + l"]
      by (cases "l < 8") (simp_all add: bit_unsigned_iff bit_drop_bit_eq bit_and_iff bit_mask_iff)
  qed
  show "unat (state_header n i j AND 0xff) = j"
  proof (rule bit_eqI)
    fix l
    show "bit (unat (state_header n i j AND 0xff)) l = bit j l"
      unfolding m using b(3) [of l] h [of l]
      by (cases "l < 8") (simp_all add: bit_unsigned_iff bit_and_iff bit_mask_iff)
  qed
qed

lemma gen_okD:
  assumes "gen_ok d m"
  shows "rand_type d \<in> {0, 7, 15, 31, 63}" "rand_deg d < 256" "rand_sep d < 256"
    "Suc (max 1 (rand_type d)) \<le> length (m (state d))"
    "rand_type d \<noteq> 0 \<Longrightarrow> rand_deg d < rand_type d \<and> rand_sep d < rand_type d"
  using assms by (auto simp: gen_ok_def)

text \<open>The generator and its array depend on no other array, and not on the header.\<close>

lemma gen_ok_cong:
  assumes "gen_ok d m" "tl (m' (state d)) = tl (m (state d))" "m' (state d) \<noteq> []"
  shows "gen_ok d m'"
proof -
  have l: "length (m' (state d)) = length (m (state d))"
    using assms gen_okD(4) [OF assms(1)] by (cases "m' (state d)"; cases "m (state d)") auto
  have "m' (state d) ! Suc k = m (state d) ! Suc k" for k
    using assms l by (cases "m' (state d)"; cases "m (state d)") auto
  then show ?thesis using assms(1) l by (simp add: gen_ok_def)
qed

lemma savestate_ok:
  assumes "gen_ok d m"
  shows "savestate d m = Some (state d, m(state d := state_header (rand_type d) (rand_deg d) (rand_sep d) # tl (m (state d))))"
  using gen_okD(4) [OF assms] by (cases "m (state d)") (auto simp: savestate_def decode_state_def state_header_def)

lemma loadstate_saved:
  assumes "gen_ok d m" "m' (state d) = state_header (rand_type d) (rand_deg d) (rand_sep d) # ws"
  shows "loadstate (state d) m' = Some d"
proof -
  have "rand_type d < 2 ^ 16" "rand_deg d < 2 ^ 8" "rand_sep d < 2 ^ 8" using gen_okD(1-3) [OF assms(1)] by auto
  then show ?thesis using assms(2) state_header_decode by (simp add: loadstate_def encode_state_def)
qed

section \<open>One number\<close>

lemma random_r_small:
  assumes "gen_ok d m" "rand_type d = 0"
  shows "\<exists>w. random_r d m = Some (lcg31 w, d, m(state d := (m (state d))[1 := lcg31 w]))"
  using gen_okD(4) [OF assms(1)] assms(2)
  by (auto simp: random_r_def decode_state_def encode_state_def get_x_def set_x_def)

lemma random_r_large:
  assumes "gen_ok d m" "rand_type d = n" "n \<noteq> 0"
  shows "random_r d m =
    (let a = m (state d) ! Suc (rand_deg d) + m (state d) ! Suc (rand_sep d) in
     Some (drop_bit 1 a, d \<lparr> rand_deg := Suc (rand_deg d) mod n, rand_sep := Suc (rand_sep d) mod n \<rparr>,
           m(state d := (m (state d))[Suc (rand_deg d) := a])))"
proof -
  have "rand_deg d < n" "rand_sep d < n" "n < length (m (state d))"
    using gen_okD(4,5) [OF assms(1)] assms(2,3) by auto
  then show ?thesis using assms(2,3)
    by (auto simp: random_r_def decode_state_def encode_state_def get_x_def set_x_def Let_def mod_Suc)
qed

lemma odd_unat_add: "odd (unat (a + b :: u32)) \<longleftrightarrow> odd (unat a) \<noteq> odd (unat b)"
  by (simp add: unat_word_ariths even_mod_2_iff dvd_mod_iff)

text \<open>Adding another word to one of the words keeps an odd word in the array.\<close>

lemma odd_kept:
  assumes "k < n" "odd (unat (xs ! Suc k))" "i < n" "j < n" "i \<noteq> j" "n < length (xs :: u32 list)"
  shows "\<exists>k < n. odd (unat (xs[Suc i := xs ! Suc i + xs ! Suc j] ! Suc k))"
proof (cases "k = i")
  case True
  show ?thesis
  proof (cases "odd (unat (xs ! Suc j))")
    case True
    then show ?thesis using assms by (intro exI [of _ j]) simp
  next
    case False
    then show ?thesis using assms \<open>k = i\<close> by (intro exI [of _ i]) (simp add: odd_unat_add)
  qed
qed (use assms in \<open>intro exI [of _ k]; simp\<close>)

lemma feedback_distinct:
  assumes "n \<in> {7, 15, 31, 63}" "i < n" "j < n" "i = (j + feedback_sep n) mod n"
  shows "i \<noteq> j" "Suc i mod n = (Suc j mod n + feedback_sep n) mod n"
proof -
  have s: "0 < feedback_sep n" "feedback_sep n < n" using assms(1) by (auto simp: feedback_sep_def)
  show "i \<noteq> j"
  proof (cases "j + feedback_sep n < n")
    case False
    then have "i = j + feedback_sep n - n" using assms(2-4) s by (simp add: mod_if)
    then show ?thesis using s False by linarith
  qed (use assms s in simp)
  show "Suc i mod n = (Suc j mod n + feedback_sep n) mod n"
    unfolding assms(4) by (simp add: mod_simps)
qed

lemma random_r_ok:
  assumes "gen_ok d m"
  shows "\<exists>k d' m'. random_r d m = Some (k, d', m') \<and> unat k < 2 ^ 31 \<and> gen_ok d' m' \<and>
     state d' = state d \<and> (\<forall>b. b \<noteq> state d \<longrightarrow> m' b = m b)"
proof (cases "rand_type d = 0")
  case True
  obtain w where w: "random_r d m = Some (lcg31 w, d, m(state d := (m (state d))[1 := lcg31 w]))"
    using random_r_small [OF assms True] by blast
  have "lcg31 w = take_bit 31 (1103515245 * w + 12345)"
    by (simp add: lcg31_def take_bit_eq_mask mask_eq_exp_minus_1)
  then have "unat (lcg31 w) < 2 ^ 31"
    using take_bit_nat_less_exp [of 31 "unat (1103515245 * w + 12345)"] by (simp add: unsigned_take_bit_eq)
  then show ?thesis using w assms True by (auto simp: gen_ok_def)
next
  case False
  define n i j xs where "n = rand_type d" "i = rand_deg d" "j = rand_sep d" "xs = m (state d)"
  note df = n_i_j_xs_def
  have n: "n \<in> {7, 15, 31, 63}" and l: "n < length xs"
    using gen_okD(1,4) [OF assms] False by (auto simp: df)
  have ij: "i < n" "j < n" "i = (j + feedback_sep n) mod n" using assms False by (auto simp: gen_ok_def df)
  obtain k where k: "k < n" "odd (unat (xs ! Suc k))" using assms False by (auto simp: gen_ok_def df)
  have o: "\<exists>k < n. odd (unat (xs[Suc i := xs ! Suc i + xs ! Suc j] ! Suc k))"
    by (rule odd_kept [OF k ij(1,2) feedback_distinct(1) [OF n ij] l])
  have "unat (drop_bit 1 w) < 2 ^ 31" for w :: u32
  proof -
    have "unat (drop_bit 1 w) = unat w div 2" by (subst unat_drop_bit_eq) (simp add: drop_bit_eq_div)
    moreover have "unat w < 2 ^ LENGTH(32)" by (rule unsigned_less)
    ultimately show ?thesis by simp
  qed
  moreover have "gen_ok (d \<lparr> rand_deg := Suc i mod n, rand_sep := Suc j mod n \<rparr>)
      (m(state d := xs[Suc i := xs ! Suc i + xs ! Suc j]))"
    using feedback_distinct(2) [OF n ij] n l o by (auto simp: gen_ok_def df [symmetric])
  ultimately show ?thesis
    using random_r_large [OF assms refl False] by (auto simp: Let_def df [symmetric])
qed

section \<open>Seeding and switching arrays\<close>

lemma srandom_fill_ok:
  "k + r < length (m x) \<Longrightarrow>
   \<exists>m'. srandom_fill r k x s m = Some m' \<and> length (m' x) = length (m x) \<and> (\<forall>b. b \<noteq> x \<longrightarrow> m' b = m b)"
proof (induction r arbitrary: k s m)
  case (Suc r)
  define m1 where "m1 = m(x := (m x)[Suc k := ucast (drop_bit 32 (lcg64 s))])"
  have "set_x m x k (ucast (drop_bit 32 (lcg64 s))) = Some m1" using Suc.prems by (simp add: set_x_def m1_def)
  moreover have "\<exists>m'. srandom_fill r (Suc k) x (lcg64 s) m1 = Some m' \<and> length (m' x) = length (m1 x) \<and> (\<forall>b. b \<noteq> x \<longrightarrow> m' b = m1 b)"
    by (rule Suc.IH) (use Suc.prems in \<open>simp add: m1_def\<close>)
  ultimately show ?case by (auto simp: Let_def m1_def)
qed simp

lemma odd_or_1: "odd (unat (w OR 1 :: u32))"
  by (simp add: unsigned_or_eq even_or_iff)

lemma srandom_r_ok:
  assumes "rand_type d \<in> {0, 7, 15, 31, 63}" "rand_deg d < 256" "rand_sep d < 256"
    "Suc (max 1 (rand_type d)) \<le> length (m (state d))"
  shows "\<exists>d' m'. srandom_r seed d m = Some (d', m') \<and> gen_ok d' m' \<and> state d' = state d \<and> (\<forall>b. b \<noteq> state d \<longrightarrow> m' b = m b)"
proof (cases "rand_type d = 0")
  case True
  then show ?thesis
    using assms by (auto simp: srandom_r_def decode_state_def encode_state_def set_x_def gen_ok_def)
next
  case False
  define n x where "n = rand_type d" "x = state d"
  note df = n_x_def
  have n: "n \<in> {7, 15, 31, 63}" using assms(1) False by (simp add: df)
  have nl: "0 + n < length (m x)" using assms(4) by (simp add: df)
  obtain m1 where m1: "srandom_fill n 0 x (ucast seed) m = Some m1" "length (m1 x) = length (m x)" "\<forall>b. b \<noteq> x \<longrightarrow> m1 b = m b"
    using srandom_fill_ok [of 0 n m x "ucast seed", OF nl] by blast
  have l: "n < length (m1 x)" using m1(2) nl by simp
  define d' where "d' = encode_state n (feedback_sep n) 0 x"
  define m' where "m' = m1(x := (m1 x)[1 := m1 x ! 1 OR 1])"
  have "srandom_r seed d m = Some (d', m')"
    using m1(1) l n by (auto simp: srandom_r_def decode_state_def df [symmetric] get_x_def set_x_def d'_def m'_def feedback_sep_def)
  moreover have "gen_ok d' m'"
    using n l odd_or_1 by (auto simp: gen_ok_def d'_def m'_def encode_state_def feedback_sep_def intro!: exI [of _ 0])
  ultimately show ?thesis using m1(3) by (auto simp: d'_def m'_def encode_state_def df)
qed

text \<open>The generator in use is fine, and so is every array an earlier call returned as saved.\<close>

definition rand_inv :: "random_data \<Rightarrow> rmem \<Rightarrow> nat set \<Rightarrow> bool" where
  "rand_inv d m S \<longleftrightarrow> gen_ok d m \<and> (\<forall>b \<in> S. b \<noteq> state d \<longrightarrow> (\<exists>d'. loadstate b m = Some d' \<and> gen_ok d' m))"

lemma loadstate_state: "loadstate b m = Some d \<Longrightarrow> state d = b"
  by (auto simp: loadstate_def encode_state_def split: list.splits)

lemma loadstate_cong: "m' b = m b \<Longrightarrow> loadstate b m' = loadstate b m"
  by (simp add: loadstate_def)

lemma loadable_cong:
  assumes "loadstate b m = Some d'" "gen_ok d' m" "m' b = m b"
  shows "loadstate b m' = Some d' \<and> gen_ok d' m'"
proof -
  have "m b \<noteq> []" using gen_okD(4) [OF assms(2)] loadstate_state [OF assms(1)] by auto
  then show ?thesis
    using assms gen_ok_cong [of d' m m'] loadstate_state [OF assms(1)] loadstate_cong [of m' b m] by simp
qed

lemma rand_inv_frame:
  assumes "rand_inv d m S" "gen_ok d' m'" "state d' = state d" "\<forall>b. b \<noteq> state d \<longrightarrow> m' b = m b"
  shows "rand_inv d' m' S"
  unfolding rand_inv_def
proof (intro conjI ballI impI)
  fix b
  assume b: "b \<in> S" "b \<noteq> state d'"
  then obtain e where "loadstate b m = Some e" "gen_ok e m" using assms unfolding rand_inv_def by metis
  then show "\<exists>e. loadstate b m' = Some e \<and> gen_ok e m'" using loadable_cong assms(3,4) b(2) by metis
qed (rule assms(2))

text \<open>Saving makes the current array loadable and changes only its header.\<close>

lemma savestate_inv:
  assumes "rand_inv d m S"
  shows "\<exists>m1. savestate d m = Some (state d, m1) \<and> rand_inv d m1 S \<and> loadstate (state d) m1 = Some d \<and>
     (\<forall>b. length (m1 b) = length (m b)) \<and> (\<forall>b. b \<noteq> state d \<longrightarrow> m1 b = m b) \<and> tl (m1 (state d)) = tl (m (state d))"
proof -
  have g: "gen_ok d m" using assms by (simp add: rand_inv_def)
  define m1 where "m1 = m(state d := state_header (rand_type d) (rand_deg d) (rand_sep d) # tl (m (state d)))"
  have "gen_ok d m1" by (rule gen_ok_cong [OF g]) (simp_all add: m1_def)
  moreover have "loadstate (state d) m1 = Some d" by (rule loadstate_saved [OF g]) (simp add: m1_def)
  moreover have "length (m1 b) = length (m b)" for b using gen_okD(4) [OF g] by (auto simp: m1_def)
  ultimately show ?thesis
    using savestate_ok [OF g] rand_inv_frame [OF assms, of d m1] by (auto simp: m1_def)
qed

lemma setstate_inv:
  assumes "rand_inv d m S" "b \<in> S"
  shows "\<exists>d' m'. setstate b d m = Some (state d, d', m') \<and> rand_inv d' m' (insert (state d) S) \<and> state d' = b"
proof -
  obtain m1 where m1: "savestate d m = Some (state d, m1)" "rand_inv d m1 S" "loadstate (state d) m1 = Some d"
    using savestate_inv [OF assms(1)] by blast
  have g: "gen_ok d m1" "\<And>c. c \<in> insert (state d) S \<Longrightarrow> \<exists>f. loadstate c m1 = Some f \<and> gen_ok f m1"
    using m1(2,3) unfolding rand_inv_def by (metis insert_iff)+
  obtain d' where d': "loadstate b m1 = Some d'" "gen_ok d' m1" using g(2) [of b] assms(2) by blast
  moreover have "rand_inv d' m1 (insert (state d) S)" using d'(2) g(2) unfolding rand_inv_def by blast
  moreover have "setstate b d m = Some (state d, d', m1)" using m1(1) d'(1) by (simp add: setstate_def)
  ultimately show ?thesis using loadstate_state by blast
qed

lemma initstate_inv:
  assumes "rand_inv d m S" "8 \<le> sz" "sz \<le> 4 * length (m b)"
  shows "\<exists>d' m'. initstate seed b sz d m = Some (Some (state d), d', m') \<and> rand_inv d' m' (insert (state d) S) \<and> state d' = b"
proof -
  obtain m1 where m1: "savestate d m = Some (state d, m1)" "rand_inv d m1 S" "loadstate (state d) m1 = Some d"
      "length (m1 b) = length (m b)"
    using savestate_inv [OF assms(1)] by blast
  define e where "e = encode_state (degree_of_size sz) (rand_deg d) (rand_sep d) b"
  have g: "gen_ok d m1" using m1 by (simp add: rand_inv_def)
  have "\<exists>d' m'. srandom_r seed e m1 = Some (d', m') \<and> gen_ok d' m' \<and> state d' = state e \<and> (\<forall>c. c \<noteq> state e \<longrightarrow> m' c = m1 c)"
    by (rule srandom_r_ok) (use gen_okD(2,3) [OF g] assms m1(4) in \<open>auto simp: e_def encode_state_def degree_of_size_def\<close>)
  then obtain d' m' where s: "srandom_r seed e m1 = Some (d', m')" "gen_ok d' m'" "state d' = b" "\<forall>c. c \<noteq> b \<longrightarrow> m' c = m1 c"
    by (auto simp: e_def encode_state_def)
  have "initstate seed b sz d m = Some (Some (state d), d', m')"
    using m1 s assms(2) by (simp add: initstate_def initstate_r_def decode_state_def Let_def e_def)
  moreover have "rand_inv d' m' (insert (state d) S)"
    unfolding rand_inv_def
  proof (intro conjI ballI impI)
    fix c
    assume c: "c \<in> insert (state d) S" "c \<noteq> state d'"
    then obtain f where "loadstate c m1 = Some f" "gen_ok f m1" using m1(2,3) g unfolding rand_inv_def by (metis insert_iff)
    then show "\<exists>f. loadstate c m' = Some f \<and> gen_ok f m'" using loadable_cong s(3,4) c(2) by metis
  qed (rule s(2))
  ultimately show ?thesis using s by blast
qed

lemma srandom_inv:
  assumes "rand_inv d m S"
  shows "\<exists>d' m'. srandom_r seed d m = Some (d', m') \<and> rand_inv d' m' S"
proof -
  have g: "gen_ok d m" using assms by (simp add: rand_inv_def)
  show ?thesis using srandom_r_ok [of d m seed, OF gen_okD(1-4) [OF g]] rand_inv_frame [OF assms] by metis
qed

lemma random_next_inv:
  assumes "rand_inv d m S"
  shows "\<exists>k d' m'. random_next d m = Some (k, d', m') \<and> 0 \<le> k \<and> k < 2 ^ 31 \<and> rand_inv d' m' S \<and>
     state d' = state d \<and> (\<forall>b. b \<noteq> state d \<longrightarrow> m' b = m b)"
proof -
  have g: "gen_ok d m" using assms by (simp add: rand_inv_def)
  obtain k d' m' where r: "random_r d m = Some (k, d', m')" "unat k < 2 ^ 31" "gen_ok d' m'" "state d' = state d"
      "\<forall>b. b \<noteq> state d \<longrightarrow> m' b = m b"
    using random_r_ok [OF g] by blast
  have u: "int (unat k) < 2 ^ 31" by (rule order.strict_trans2 [OF of_nat_less_iff [THEN iffD2, OF r(2)]]) simp
  have "signed_take_bit 31 (int (unat k)) = int (unat k)"
    by (rule signed_take_bit_int_eq_self) (use u in \<open>simp_all add: order_trans [OF _ uint_nonnegative]\<close>)
  then have "sint k = int (unat k)" by (simp add: sint_uint)
  then have "random_next d m = Some (int (unat k), d', m')" using r(1) by (simp add: random_next_def)
  then show ?thesis using u r(4,5) rand_inv_frame [OF assms r(3-5)] by (intro exI conjI) (assumption | simp)+
qed

section \<open>Any sequence of calls\<close>

text \<open>The states reached from the static generator, with the arrays returned by earlier calls of
  \<open>initstate\<close> and \<open>setstate\<close>. A caller passes \<open>setstate\<close> only such arrays, and \<open>initstate\<close> only a
  buffer that is as large as it says.\<close>

inductive rand_reach :: "random_data \<Rightarrow> rmem \<Rightarrow> nat set \<Rightarrow> bool" where
  rand_start: "m 0 = init_words \<Longrightarrow> rand_reach random_data_init m {}"
| rand_srandom: "rand_reach d m S \<Longrightarrow> srandom_r seed d m = Some (d', m') \<Longrightarrow> rand_reach d' m' S"
| rand_random: "rand_reach d m S \<Longrightarrow> random_next d m = Some (k, d', m') \<Longrightarrow> rand_reach d' m' S"
| rand_initstate: "rand_reach d m S \<Longrightarrow> sz \<le> 4 * length (m b) \<Longrightarrow>
    initstate seed b sz d m = Some (r, d', m') \<Longrightarrow> rand_reach d' m' (S \<union> set_option r)"
| rand_setstate: "rand_reach d m S \<Longrightarrow> b \<in> S \<Longrightarrow> setstate b d m = Some (old, d', m') \<Longrightarrow> rand_reach d' m' (insert old S)"

lemma rand_start_inv: "m 0 = init_words \<Longrightarrow> rand_inv random_data_init m {}"
  by (auto simp: rand_inv_def gen_ok_def random_data_init_def feedback_sep_def init_words_def intro!: exI [of _ 0])

lemma rand_reach_inv: "rand_reach d m S \<Longrightarrow> rand_inv d m S"
proof (induction rule: rand_reach.induct)
  case (rand_start m)
  then show ?case by (rule rand_start_inv)
next
  case (rand_srandom d m S seed d' m')
  then show ?case using srandom_inv [OF rand_srandom.IH, of seed] by simp
next
  case (rand_random d m S k d' m')
  then show ?case using random_next_inv [OF rand_random.IH] by simp
next
  case (rand_initstate d m S sz b seed r d' m')
  then show ?case
    using initstate_inv [OF rand_initstate.IH, of sz b seed]
    by (cases "sz < 8") (auto simp: initstate_def)
next
  case (rand_setstate d m S b old d' m')
  then show ?case using setstate_inv [OF rand_setstate.IH, of b] by simp
qed

text \<open>Claim C27: whatever sequence of \<open>srandom\<close>, \<open>random\<close>, \<open>initstate\<close> and \<open>setstate\<close> calls a program
  makes, the next call touches no word outside its state array, \<open>random\<close> returns a number from 0 to
  \<open>2\<^sup>3\<^sup>1 - 1\<close>, and a feedback array in use has an odd word, so that its lowest bits never die out.\<close>

theorem random_bounds:
  assumes "rand_reach d m S"
  shows "(\<exists>k d' m'. random_next d m = Some (k, d', m') \<and> 0 \<le> k \<and> k < 2 ^ 31) \<and>
         srandom_r seed d m \<noteq> None \<and>
         (b \<in> S \<longrightarrow> setstate b d m \<noteq> None) \<and>
         (sz \<le> 4 * length (m b) \<longrightarrow> initstate seed b sz d m \<noteq> None) \<and>
         (rand_type d \<noteq> 0 \<longrightarrow> (\<exists>k < rand_type d. odd (unat (m (state d) ! Suc k))))"
proof -
  note i = rand_reach_inv [OF assms]
  have "sz \<le> 4 * length (m b) \<longrightarrow> initstate seed b sz d m \<noteq> None"
    using initstate_inv [OF i, of sz b seed] by (cases "sz < 8") (auto simp: initstate_def)
  moreover have "b \<in> S \<longrightarrow> setstate b d m \<noteq> None" using setstate_inv [OF i] by fastforce
  moreover have "rand_type d \<noteq> 0 \<longrightarrow> (\<exists>k < rand_type d. odd (unat (m (state d) ! Suc k)))"
    using i unfolding rand_inv_def gen_ok_def by blast
  moreover have "\<exists>k d' m'. random_next d m = Some (k, d', m') \<and> 0 \<le> k \<and> k < 2 ^ 31"
    using random_next_inv [OF i] by blast
  moreover have "srandom_r seed d m \<noteq> None" using srandom_inv [OF i, of seed] by fastforce
  ultimately show ?thesis by blast
qed

theorem random_bounds_witness:
  "\<exists>k d m. random_next random_data_init (\<lambda>b. if b = 0 then init_words else replicate 2 0) = Some (k, d, m) \<and> 0 \<le> k \<and> k < 2 ^ 31"
  using random_bounds [OF rand_start, of "\<lambda>b. if b = 0 then init_words else replicate 2 0"] by simp

text \<open>A run of calls of \<open>random\<close>.\<close>

fun random_many :: "nat \<Rightarrow> random_data \<Rightarrow> rmem \<Rightarrow> (int list \<times> random_data \<times> rmem) option" where
  "random_many 0 d m = Some ([], d, m)"
| "random_many (Suc c) d m =
     (case random_next d m of
        None \<Rightarrow> None
      | Some (k, d, m) \<Rightarrow> map_option (\<lambda>(ks, d, m). (k # ks, d, m)) (random_many c d m))"

lemma random_many_inv:
  "rand_inv d m S \<Longrightarrow>
   \<exists>ks d' m'. random_many c d m = Some (ks, d', m') \<and> rand_inv d' m' S \<and> state d' = state d \<and> (\<forall>b. b \<noteq> state d \<longrightarrow> m' b = m b)"
proof (induction c arbitrary: d m)
  case (Suc c)
  obtain k d1 m1 where r: "random_next d m = Some (k, d1, m1)" "rand_inv d1 m1 S" "state d1 = state d" "\<forall>b. b \<noteq> state d \<longrightarrow> m1 b = m b"
    using random_next_inv [OF Suc.prems] by blast
  obtain ks d2 m2 where q: "random_many c d1 m1 = Some (ks, d2, m2)" "rand_inv d2 m2 S" "state d2 = state d1"
      "\<forall>b. b \<noteq> state d1 \<longrightarrow> m2 b = m1 b"
    using Suc.IH [OF r(2)] by blast
  have "random_many (Suc c) d m = Some (k # ks, d2, m2)" using r(1) q(1) by simp
  then show ?case using r q by (intro exI conjI) (assumption | simp)+
qed simp

text \<open>Claim C28: \<open>setstate\<close> resumes a saved generator where it was left. After switching to another
  saved array, drawing any number of numbers from it and switching back to the array the first call
  returned, the generator has its old degree and indices and its array its old words.\<close>

theorem setstate_resumes:
  assumes "rand_reach d m S" "b \<in> S" "b \<noteq> state d"
  shows "\<exists>d1 m1 ks d2 m2 m3.
           setstate b d m = Some (state d, d1, m1) \<and> random_many c d1 m1 = Some (ks, d2, m2) \<and>
           setstate (state d) d2 m2 = Some (b, d, m3) \<and> tl (m3 (state d)) = tl (m (state d))"
proof -
  note i = rand_reach_inv [OF assms(1)]
  obtain m1 where s: "savestate d m = Some (state d, m1)" "loadstate (state d) m1 = Some d" "tl (m1 (state d)) = tl (m (state d))"
    using savestate_inv [OF i] by blast
  obtain d1 m1' where t: "setstate b d m = Some (state d, d1, m1')" "rand_inv d1 m1' (insert (state d) S)" "state d1 = b"
    using setstate_inv [OF i assms(2)] by blast
  have m1': "m1' = m1" using t(1) s(1) by (auto simp: setstate_def)
  obtain ks d2 m2 where q: "random_many c d1 m1 = Some (ks, d2, m2)" "rand_inv d2 m2 (insert (state d) S)" "state d2 = b"
      "\<forall>x. x \<noteq> b \<longrightarrow> m2 x = m1 x"
    using random_many_inv [OF t(2), of c] t(3) m1' by metis
  obtain m3 where v: "savestate d2 m2 = Some (b, m3)" "\<forall>x. x \<noteq> b \<longrightarrow> m3 x = m2 x"
    using savestate_inv [OF q(2)] q(3) by blast
  have m3: "m3 (state d) = m1 (state d)" using q(4) v(2) assms(3) by metis
  then have "loadstate (state d) m3 = Some d" using s(2) loadstate_cong by metis
  then have "setstate (state d) d2 m2 = Some (b, d, m3)" using v(1) by (simp add: setstate_def)
  then show ?thesis using t(1) q(1) m3 s(3) m1' by metis
qed

theorem setstate_resumes_witness:
  "\<exists>d m. rand_reach d m {0} \<and> state d = 1 \<and>
     (\<exists>d1 m1 ks d2 m2 m3.
        setstate 0 d m = Some (1, d1, m1) \<and> random_many 5 d1 m1 = Some (ks, d2, m2) \<and>
        setstate 1 d2 m2 = Some (0, d, m3) \<and> tl (m3 1) = tl (m 1))"
proof -
  define m :: rmem where "m = (\<lambda>b. if b = 0 then init_words else replicate 2 0)"
  have r: "rand_reach random_data_init m {}" by (rule rand_start) (simp add: m_def)
  obtain d' m' where i: "initstate 7 1 8 random_data_init m = Some (Some 0, d', m')" "state d' = 1"
    using initstate_inv [OF rand_start_inv, of m 8 1 7] by (auto simp: m_def random_data_init_def)
  have "rand_reach d' m' ({} \<union> set_option (Some 0))"
    by (rule rand_initstate [OF r _ i(1)]) (simp add: m_def)
  then have "rand_reach d' m' {0}" by simp
  then show ?thesis
    using setstate_resumes [of d' m' "{0}" 0 5] i(2) by (intro exI [of _ d'] exI [of _ m']) simp
qed

section \<open>getrandom and getentropy\<close>

datatype random_errno = REnosys | REagain | REio

text \<open>\<open>libc/random.c\<close>. The random device is an argument: whether it can be opened, and the bytes a
  \<open>pread\<close> of the given length delivers, \<open>None\<close> being a failed read. The result is the return
  value, the value \<open>errno\<close> is set to, and the buffer.\<close>

definition getrandom ::
  "bool \<Rightarrow> (nat \<Rightarrow> 8 word list option) \<Rightarrow> 8 word list \<Rightarrow> nat \<Rightarrow> bool \<Rightarrow> int \<times> random_errno option \<times> 8 word list" where
  "getrandom opens pread buf cnt nonblock =
     (if nonblock then (-1, Some REnosys, buf)
      else if \<not> opens then (-1, Some REagain, buf)
      else
        let buf = replicate cnt 0 @ drop cnt buf in
        (case pread cnt of
           None \<Rightarrow> (-1, Some REagain, buf)
         | Some bytes \<Rightarrow>
             if bytes = [] then (-1, Some REagain, buf)
             else (int (length bytes), None, bytes @ drop (length bytes) buf)))"

definition getentropy ::
  "bool \<Rightarrow> (nat \<Rightarrow> 8 word list option) \<Rightarrow> 8 word list \<Rightarrow> nat \<Rightarrow> int \<times> random_errno option \<times> 8 word list" where
  "getentropy opens pread buf len =
     (if len > 256 then (-1, Some REio, buf)
      else if len = 0 then (0, None, buf)
      else
        let (r, e, buf) = getrandom opens pread buf len False in
        (if r \<ge> 0 then 1 else 0, e, buf))"

text \<open>Claim C40: for a request of 1 to 256 bytes \<open>getentropy\<close> returns 1 when it has filled the buffer
  from the device, and 0 when the device cannot be opened or read: the caller that tests for the
  documented 0 takes every success for a failure and every failure for a success.\<close>

theorem getentropy_inverted:
  assumes "0 < len" "len \<le> 256"
  shows "(opens \<and> pread len = Some bytes \<and> length bytes = len \<longrightarrow>
            getentropy opens pread buf len = (1, None, bytes @ drop len buf)) \<and>
         (\<not> opens \<or> pread len = None \<longrightarrow> fst (getentropy opens pread buf len) = 0)"
  using assms by (auto simp: getentropy_def getrandom_def Let_def)

theorem getentropy_inverted_witness:
  "getentropy True (\<lambda>n. Some (replicate n 0xa5)) [0, 0] 2 = (1, None, [0xa5, 0xa5]) \<and>
   fst (getentropy False (\<lambda>n. None) [0, 0] 2) = 0"
  using getentropy_inverted [of 2 True "\<lambda>n. Some (replicate n 0xa5)" "[0xa5, 0xa5]" "[0, 0]"]
    getentropy_inverted [of 2 False "\<lambda>n. None" "[]" "[0, 0]"] by (simp add: numeral_2_eq_2)

end
