(* ===== verification/LibcParse.thy ===== *)
theory LibcParse
  imports Prelude
begin

text \<open>
  The scanners of the C library: \<open>getopt\<close> (\<open>libc/misc/getopt.cc\<close>), \<open>getopt_long\<close>
  (\<open>libc/misc/getopt_long.cc\<close>) and \<open>stresep\<close> (\<open>libc/string/stresep.c\<close>). The function \<open>mbtowc\<close> is
  not part of the repository; it is an argument of the definitions that call it, and \<open>mbtowc_ok\<close>
  is what they rely on. The argument vector is the list of its strings, \<open>argc\<close> its length.
\<close>

section \<open>getopt\<close>

text \<open>The global variables \<open>optarg\<close> to \<open>__optreset\<close>, and what has been written to standard error.\<close>

record optstate =
  optarg :: "string option"
  optind :: nat
  opterr :: bool
  optopt :: int
  optpos :: nat
  optreset :: bool
  errout :: string

type_synonym mbtowc = "string \<Rightarrow> int \<times> int"

definition nul :: char where
  "nul = CHR 0x00"

text \<open>\<open>s[k]\<close> of a string whose terminating zero is not part of the list.\<close>

definition char_at :: "string \<Rightarrow> nat \<Rightarrow> char" where
  "char_at s k = (if k < length s then s ! k else nul)"

text \<open>\<open>mbtowc\<close> returns the length of the character at the start of the string and the character,
  a negative length when there is no valid one, and 0 with the zero character at the end.\<close>

definition mb_next :: "mbtowc \<Rightarrow> string \<Rightarrow> int \<times> int" where
  "mb_next mb s = (if s = [] then (0, 0) else mb s)"

definition mbtowc_ok :: "mbtowc \<Rightarrow> bool" where
  "mbtowc_ok mb \<longleftrightarrow> (\<forall>s. s \<noteq> [] \<longrightarrow> fst (mb s) \<noteq> 0 \<and> fst (mb s) \<le> int (length s))"

definition opt_reset :: "optstate \<Rightarrow> optstate" where
  "opt_reset st =
     (if optind st = 0 \<or> optreset st then st \<lparr> optreset := False, optpos := 0, optind := 1 \<rparr> else st)"

text \<open>The loop over the option string, from index \<open>i\<close>: the last character read and its index.\<close>

function find_opt :: "mbtowc \<Rightarrow> int \<Rightarrow> string \<Rightarrow> nat \<Rightarrow> int \<times> nat" where
  "find_opt mb c optstring i =
     (let (l, d) = mb_next mb (drop i optstring) in
      if l = 0 \<or> d = c \<or> length optstring \<le> i then (d, i)
      else find_opt mb c optstring (i + (if l > 0 then nat l else 1)))"
  by pat_completeness auto
termination by (relation "measure (\<lambda>(mb, c, optstring, i). length optstring - i)") auto

declare find_opt.simps [simp del]

definition opt_complain :: "string list \<Rightarrow> string \<Rightarrow> string \<Rightarrow> optstate \<Rightarrow> optstate" where
  "opt_complain argv msg optchar st = st \<lparr> errout := errout st @ argv ! 0 @ msg @ optchar @ [CHR 0x0A] \<rparr>"

text \<open>The part of \<open>__getopt\<close> that takes the next option character from the current argument. The
  result is the character, its bytes, and the state.\<close>

definition getopt_char :: "mbtowc \<Rightarrow> string list \<Rightarrow> optstate \<Rightarrow> int \<times> string \<times> optstate" where
  "getopt_char mb argv st =
     (let st = (if optpos st = 0 then st \<lparr> optpos := 1 \<rparr> else st);
          arg = argv ! optind st;
          (k, c) = mb_next mb (drop (optpos st) arg);
          (k, c) = (if k < 0 then (1, 0xfffd) else (k, c));
          optchar = take (nat k) (drop (optpos st) arg);
          st = st \<lparr> optopt := c, optpos := optpos st + nat k \<rparr>;
          st = (if char_at arg (optpos st) = nul then st \<lparr> optind := optind st + 1, optpos := 0 \<rparr> else st)
      in (c, optchar, st))"

text \<open>The part that looks the character up in the option string and takes its argument.\<close>

definition getopt_arg :: "mbtowc \<Rightarrow> string list \<Rightarrow> string \<Rightarrow> int \<Rightarrow> string \<Rightarrow> optstate \<Rightarrow> int \<times> optstate" where
  "getopt_arg mb argv optstring c optchar st =
     (let (d, i) = find_opt mb c optstring 0 in
      if d \<noteq> c then
        (int (of_char (CHR ''?'')),
         if char_at optstring 0 \<noteq> CHR '':'' \<and> opterr st
         then opt_complain argv '': illegal option: '' optchar st else st)
      else if char_at optstring (i + 1) = CHR '':'' then
        if optind st \<ge> length argv then
          if char_at optstring 0 = CHR '':'' then (int (of_char (CHR '':'')), st)
          else
            (int (of_char (CHR ''?'')),
             if opterr st then opt_complain argv '': option requires an argument: '' optchar st else st)
        else
          (c, st \<lparr> optarg := Some (drop (optpos st) (argv ! optind st)), optind := optind st + 1, optpos := 0 \<rparr>)
      else (c, st))"

definition getopt :: "mbtowc \<Rightarrow> string list \<Rightarrow> string \<Rightarrow> optstate \<Rightarrow> int \<times> optstate" where
  "getopt mb argv optstring st =
     (let st = opt_reset st in
      if optind st \<ge> length argv \<or> char_at (argv ! optind st) 0 \<noteq> CHR ''-'' \<or> char_at (argv ! optind st) 1 = nul
      then (-1, st)
      else if char_at (argv ! optind st) 1 = CHR ''-'' \<and> char_at (argv ! optind st) 2 = nul
      then (-1, st \<lparr> optind := optind st + 1 \<rparr>)
      else let (c, optchar, st) = getopt_char mb argv st in getopt_arg mb argv optstring c optchar st)"

section \<open>getopt_long\<close>

datatype has_arg = No_argument | Required_argument | Optional_argument

text \<open>A \<open>struct option\<close>: \<open>flag\<close> says whether the value is stored through the pointer; the result
  of \<open>getopt_long\<close> carries the value stored.\<close>

record longopt =
  lname :: string
  lhas_arg :: has_arg
  lflag :: bool
  lval :: int

text \<open>The comparison of an option name with the argument: what is left of the argument after the
  name, when the argument is the name or goes on with an equals sign.\<close>

fun long_match :: "string \<Rightarrow> string \<Rightarrow> string option" where
  "long_match [] opt = (if opt = [] \<or> hd opt = CHR ''='' then Some opt else None)"
| "long_match (n # ns) [] = None"
| "long_match (n # ns) (c # cs) = (if n = c then long_match ns cs else None)"

text \<open>The loop over the long options, from index \<open>i\<close>. The result is the index of the option that
  applies, whether an argument is required, and the argument after the equals sign.\<close>

fun long_find :: "longopt list \<Rightarrow> nat \<Rightarrow> string \<Rightarrow> (nat \<times> longopt \<times> bool \<times> string option) option" where
  "long_find [] i opt = None"
| "long_find (lo # los) i opt =
     (case long_match (lname lo) opt of
        None \<Rightarrow> long_find los (Suc i) opt
      | Some rest \<Rightarrow>
          if rest \<noteq> [] then
            if lhas_arg lo = No_argument then long_find los (Suc i) opt
            else Some (i, lo, False, Some (tl rest))
          else Some (i, lo, lhas_arg lo = Required_argument, None))"

text \<open>Whether the argument is looked up among the long options, and the name looked up.\<close>

definition long_form :: "bool \<Rightarrow> string \<Rightarrow> bool" where
  "long_form longonly arg \<longleftrightarrow>
     (longonly \<and> char_at arg 1 \<noteq> nul) \<or> (char_at arg 1 = CHR ''-'' \<and> char_at arg 2 \<noteq> nul)"

definition long_name :: "string \<Rightarrow> string" where
  "long_name arg = (if char_at arg 1 = CHR ''-'' then drop 2 arg else drop 1 arg)"

text \<open>Taking the long option found. The second component of the result is the index stored through
  \<open>idx\<close> and the value stored through \<open>flag\<close>, when there is one.\<close>

definition long_take ::
  "string list \<Rightarrow> nat \<times> longopt \<times> bool \<times> string option \<Rightarrow> optstate \<Rightarrow> int \<times> (nat \<times> int option) option \<times> optstate" where
  "long_take argv found st =
     (case found of (i, lo, need_arg, a) \<Rightarrow>
        if need_arg \<and> optind st + 1 \<ge> length argv then
          (int (of_char (CHR '':'')), None, st \<lparr> optind := optind st + 1, optarg := None \<rparr>)
        else
          let st = (if need_arg then st \<lparr> optind := optind st + 1, optarg := Some (argv ! (optind st + 1)) \<rparr>
                    else st \<lparr> optarg := a \<rparr>);
              st = st \<lparr> optind := optind st + 1 \<rparr> in
          if lflag lo then (0, Some (i, Some (lval lo)), st) else (lval lo, Some (i, None), st))"

definition getopt_long ::
  "mbtowc \<Rightarrow> string list \<Rightarrow> string \<Rightarrow> longopt list \<Rightarrow> bool \<Rightarrow> optstate \<Rightarrow> int \<times> (nat \<times> int option) option \<times> optstate" where
  "getopt_long mb argv optstring longopts longonly st =
     (let st = opt_reset st; arg = argv ! optind st in
      if optind st \<ge> length argv \<or> char_at arg 0 \<noteq> CHR ''-'' then (-1, None, st)
      else if long_form longonly arg \<and> long_find longopts 0 (long_name arg) \<noteq> None then
        long_take argv (the (long_find longopts 0 (long_name arg))) st
      else if long_form longonly arg \<and> char_at arg 1 = CHR ''-'' then
        (int (of_char (CHR ''?'')), None, st \<lparr> optind := optind st + 1 \<rparr>)
      else let (r, st) = getopt mb argv optstring st in (r, None, st))"

section \<open>Scanning to the end\<close>

text \<open>The loop of a program that calls a scanner until it returns -1.\<close>

partial_function (option) scan_all :: "('s \<Rightarrow> int \<times> 's) \<Rightarrow> 's \<Rightarrow> (int list \<times> 's) option" where
  "scan_all call st =
     (case call st of (r, st') \<Rightarrow>
        if r = -1 then Some ([], st')
        else Option.bind (scan_all call st') (\<lambda>(rs, st''). Some (r # rs, st'')))"

text \<open>A scanner makes progress: a call that does not end the scan brings it closer to its end.\<close>

locale scanner =
  fixes call :: "'s \<Rightarrow> int \<times> 's" and inv :: "'s \<Rightarrow> bool" and left :: "'s \<Rightarrow> nat"
  assumes progress: "inv st \<Longrightarrow> call st = (r, st') \<Longrightarrow> r \<noteq> -1 \<Longrightarrow> inv st' \<and> left st' < left st"
begin

lemma scan_all_ends: "inv st \<Longrightarrow> \<exists>rs st'. scan_all call st = Some (rs, st') \<and> length rs \<le> left st"
proof (induction "left st" arbitrary: st rule: less_induct)
  case less
  obtain r st1 where c: "call st = (r, st1)" by fastforce
  show ?case
  proof (cases "r = -1")
    case True
    then show ?thesis using c by (simp add: scan_all.simps [of call st])
  next
    case False
    note p = progress [OF less.prems c False]
    obtain rs st2 where "scan_all call st1 = Some (rs, st2)" "length rs \<le> left st1"
      using less.hyps [of st1] p by blast
    then show ?thesis using c False p by (simp add: scan_all.simps [of call st])
  qed
qed

end

text \<open>The position is at the start of an argument, or inside the current one.\<close>

definition pos_ok :: "string list \<Rightarrow> optstate \<Rightarrow> bool" where
  "pos_ok argv st \<longleftrightarrow> optpos st = 0 \<or> optind st < length argv \<and> optpos st < length (argv ! optind st)"

definition chars_left :: "string list \<Rightarrow> optstate \<Rightarrow> nat" where
  "chars_left argv st = sum_list (map (\<lambda>a. Suc (length a)) (drop (optind st) argv)) - optpos st"

lemma opt_reset_idem [simp]: "opt_reset (opt_reset st) = opt_reset st"
  by (simp add: opt_reset_def)

lemma char_at_nul: "char_at s k \<noteq> nul \<Longrightarrow> k < length s"
  by (simp add: char_at_def split: if_splits)

lemma chars_left_drop:
  "k < length argv \<Longrightarrow>
   sum_list (map (\<lambda>a. Suc (length a)) (drop k argv)) =
   Suc (length (argv ! k)) + sum_list (map (\<lambda>a. Suc (length a)) (drop (Suc k) argv))"
  by (simp add: Cons_nth_drop_Suc [symmetric])

lemma mb_next_pos:
  assumes "mbtowc_ok mb" "s \<noteq> []"
  shows "fst (mb_next mb s) \<noteq> 0" "fst (mb_next mb s) \<le> int (length s)"
  using assms by (auto simp: mbtowc_ok_def mb_next_def)

lemma getopt_char_progress:
  assumes "mbtowc_ok mb" "pos_ok argv st" "optind st < length argv" "1 < length (argv ! optind st)"
    and "getopt_char mb argv st = (c, optchar, st')"
  shows "pos_ok argv st' \<and> chars_left argv st' < chars_left argv st \<and> optreset st' = optreset st \<and>
     (optpos st' = 0 \<and> optind st' = Suc (optind st) \<or> optpos st' \<noteq> 0 \<and> optind st' = optind st)"
proof -
  define arg p where "arg = argv ! optind st" "p = (if optpos st = 0 then 1 else optpos st)"
  note df = arg_p_def
  have p: "1 \<le> p" "p < length arg" "optpos st \<le> p" using assms(2-4) by (auto simp: df pos_ok_def)
  obtain l d where mb: "mb_next mb (drop p arg) = (l, d)" by fastforce
  have l: "l \<noteq> 0" "l \<le> int (length arg) - int p"
    using mb_next_pos [OF assms(1), of "drop p arg"] mb p by auto
  define k where "k = nat (if l < 0 then 1 else l)"
  have k: "1 \<le> k" "p + k \<le> length arg" using l p by (auto simp: k_def)
  define c' where "c' = (if l < 0 then 0xfffd else d)"
  have e: "st' = (let st = st \<lparr> optopt := c', optpos := p + k \<rparr> in
      if char_at arg (p + k) = nul then st \<lparr> optind := optind st + 1, optpos := 0 \<rparr> else st)"
    using assms(5) mb by (auto simp: getopt_char_def Let_def df k_def c'_def split: if_splits)
  show ?thesis
  proof (cases "char_at arg (p + k) = nul")
    case True
    then show ?thesis
      using e p k assms(3) chars_left_drop [OF assms(3)] by (simp add: chars_left_def pos_ok_def df(1))
  next
    case False
    then show ?thesis
      using e p k assms(3) char_at_nul [OF False] chars_left_drop [OF assms(3)]
      by (simp add: chars_left_def pos_ok_def df(1))
  qed
qed

lemma opt_complain_sel [simp]:
  "optind (opt_complain argv msg oc st) = optind st" "optpos (opt_complain argv msg oc st) = optpos st"
  "optreset (opt_complain argv msg oc st) = optreset st"
  by (simp_all add: opt_complain_def)

lemma getopt_arg_progress:
  assumes "pos_ok argv st" "getopt_arg mb argv optstring c optchar st = (r, st')"
  shows "pos_ok argv st' \<and> chars_left argv st' \<le> chars_left argv st \<and> optreset st' = optreset st \<and>
     optind st \<le> optind st' \<and> (optpos st' \<noteq> 0 \<longrightarrow> optind st' = optind st \<and> optpos st \<noteq> 0)"
proof -
  obtain d i where f: "find_opt mb c optstring 0 = (d, i)" by fastforce
  have "optind st' = optind st \<and> optpos st' = optpos st \<and> optreset st' = optreset st \<or>
      optind st < length argv \<and> optind st' = Suc (optind st) \<and> optpos st' = 0 \<and> optreset st' = optreset st"
    using assms(2) unfolding getopt_arg_def f
    by (simp only: Let_def split_conv prod.inject split: if_splits) auto
  then show ?thesis
    using assms(1) chars_left_drop [of "optind st" argv] by (elim disjE conjE) (auto simp: pos_ok_def chars_left_def)
qed

lemma getopt_progress:
  assumes "mbtowc_ok mb" "pos_ok argv (opt_reset st)" "getopt mb argv optstring st = (r, st')" "r \<noteq> -1"
  shows "opt_reset st' = st' \<and> pos_ok argv st' \<and> chars_left argv st' < chars_left argv (opt_reset st) \<and>
     (optpos st' \<noteq> 0 \<longrightarrow> optind st' = optind (opt_reset st))"
proof -
  define s where "s = opt_reset st"
  obtain c oc s1 where c: "getopt_char mb argv s = (c, oc, s1)" by (metis prod_cases3)
  have g: "optind s < length argv" "char_at (argv ! optind s) 1 \<noteq> nul" "getopt_arg mb argv optstring c oc s1 = (r, st')"
    using assms(3,4) c by (auto simp: getopt_def Let_def s_def [symmetric] split: if_splits)
  note p = getopt_char_progress [OF assms(1) assms(2) [folded s_def] g(1) char_at_nul [OF g(2)] c]
  then have q: "pos_ok argv s1" by blast
  note a = getopt_arg_progress [OF q g(3)]
  have "optind s \<noteq> 0" "\<not> optreset s" by (simp_all add: s_def opt_reset_def)
  then have "opt_reset st' = st'" using p a by (auto simp: opt_reset_def)
  then show ?thesis using p a by (auto simp: s_def [symmetric])
qed

text \<open>In the middle of an argument \<open>getopt_long\<close> has already found that the argument is no long
  option.\<close>

definition long_pos_ok :: "string list \<Rightarrow> longopt list \<Rightarrow> bool \<Rightarrow> optstate \<Rightarrow> bool" where
  "long_pos_ok argv longopts longonly st \<longleftrightarrow>
     pos_ok argv st \<and>
     (optpos st \<noteq> 0 \<longrightarrow>
        char_at (argv ! optind st) 1 \<noteq> CHR ''-'' \<and>
        (longonly \<longrightarrow> long_find longopts 0 (drop 1 (argv ! optind st)) = None))"

lemma getopt_dashes:
  assumes "getopt mb argv optstring st = (r, st')" "r \<noteq> -1" "char_at (argv ! optind (opt_reset st)) 2 = nul"
  shows "char_at (argv ! optind (opt_reset st)) 1 \<noteq> CHR ''-''"
  using assms by (auto simp: getopt_def Let_def split: if_splits)

lemma getopt_long_short:
  assumes "mbtowc_ok mb" "long_pos_ok argv longopts longonly (opt_reset st)" "getopt mb argv optstring st = (r, st')" "r \<noteq> -1"
    and "char_at (argv ! optind (opt_reset st)) 1 = CHR ''-'' \<longrightarrow> char_at (argv ! optind (opt_reset st)) 2 = nul"
    and "longonly \<longrightarrow> long_find longopts 0 (drop 1 (argv ! optind (opt_reset st))) = None"
  shows "long_pos_ok argv longopts longonly (opt_reset st') \<and>
     chars_left argv (opt_reset st') < chars_left argv (opt_reset st)"
proof -
  have p: "pos_ok argv (opt_reset st)" using assms(2) by (simp add: long_pos_ok_def)
  have "char_at (argv ! optind (opt_reset st)) 1 \<noteq> CHR ''-''"
    using getopt_dashes [OF assms(3,4)] assms(5) by blast
  then show ?thesis
    using getopt_progress [OF assms(1) p assms(3,4)] assms(6) by (simp add: long_pos_ok_def)
qed

text \<open>Consuming the current argument, or the current and the next one.\<close>

lemma long_consume:
  assumes "optind s < length argv" "pos_ok argv s" "\<not> optreset s" "optind s < optind s'" "optpos s' = optpos s" "\<not> optreset s'"
    and "optpos s = 0"
  shows "long_pos_ok argv longopts longonly (opt_reset s') \<and> chars_left argv (opt_reset s') < chars_left argv s"
proof -
  have "sum_list (map (\<lambda>a. Suc (length a)) (drop (optind s') argv)) \<le> sum_list (map (\<lambda>a. Suc (length a)) (drop (Suc (optind s)) argv))"
  proof -
    obtain k where k: "optind s' = k + Suc (optind s)" using assms(4) by (metis add.commute less_iff_Suc_add add_Suc_right)
    have "sum_list (map f (drop k xs)) \<le> sum_list (map f xs)" for f :: "string \<Rightarrow> nat" and xs
      by (metis append_take_drop_id le_add2 map_append sum_list_append)
    then show ?thesis unfolding k by (metis drop_drop)
  qed
  moreover have "opt_reset s' = s'" using assms(4,6) by (simp add: opt_reset_def)
  ultimately show ?thesis
    using assms chars_left_drop [OF assms(1)] by (simp add: long_pos_ok_def pos_ok_def chars_left_def)
qed

definition long_call ::
  "mbtowc \<Rightarrow> string list \<Rightarrow> string \<Rightarrow> longopt list \<Rightarrow> bool \<Rightarrow> optstate \<Rightarrow> int \<times> optstate" where
  "long_call mb argv optstring longopts longonly st =
     (case getopt_long mb argv optstring longopts longonly st of (r, _, st') \<Rightarrow> (r, st'))"

lemma long_take_consumes:
  "long_take argv found s = (r, x, s') \<Longrightarrow> optind s < optind s' \<and> optpos s' = optpos s \<and> optreset s' = optreset s"
  by (cases found) (auto simp: long_take_def Let_def split: if_splits)

lemma long_form_start:
  assumes "long_pos_ok argv longopts longonly s" "long_form longonly (argv ! optind s)"
    and "char_at (argv ! optind s) 1 = CHR ''-'' \<or> long_find longopts 0 (long_name (argv ! optind s)) \<noteq> None"
  shows "optpos s = 0"
proof (rule ccontr)
  assume "optpos s \<noteq> 0"
  then have "char_at (argv ! optind s) 1 \<noteq> CHR ''-''" "longonly \<longrightarrow> long_find longopts 0 (drop 1 (argv ! optind s)) = None"
    using assms(1) by (simp_all add: long_pos_ok_def)
  then show False using assms(2,3) by (auto simp: long_form_def long_name_def)
qed

lemma long_call_progress:
  assumes "mbtowc_ok mb" "long_pos_ok argv longopts longonly (opt_reset st)"
    and "long_call mb argv optstring longopts longonly st = (r, st')" "r \<noteq> -1"
  shows "long_pos_ok argv longopts longonly (opt_reset st') \<and> chars_left argv (opt_reset st') < chars_left argv (opt_reset st)"
proof -
  define s arg where "s = opt_reset st" "arg = argv ! optind (opt_reset st)"
  note df = s_arg_def
  have n: "\<not> optreset s" "opt_reset s = s" by (simp_all add: df opt_reset_def)
  have i: "optind s < length argv"
    using assms(3,4) by (auto simp: long_call_def getopt_long_def Let_def df split: if_splits)
  have p: "pos_ok argv s" using assms(2) by (simp add: long_pos_ok_def df)
  note lp = assms(2) [folded df(1)]
  let ?f = "long_find longopts 0 (long_name arg)"
  obtain x where g: "getopt_long mb argv optstring longopts longonly st = (r, x, st')"
    using assms(3) by (auto simp: long_call_def split: prod.splits)
  consider (long) "long_form longonly arg" "?f \<noteq> None" "long_take argv (the ?f) s = (r, x, st')"
    | (unknown) "long_form longonly arg" "char_at arg 1 = CHR ''-''" "st' = s \<lparr> optind := optind s + 1 \<rparr>"
    | (short) "\<not> (long_form longonly arg \<and> (?f \<noteq> None \<or> char_at arg 1 = CHR ''-''))" "getopt mb argv optstring s = (r, st')"
    using g assms(4) unfolding getopt_long_def Let_def df by (auto split: if_splits prod.splits)
  then show ?thesis
  proof cases
    case long
    then show ?thesis
      using long_consume [OF i p n(1), of st'] long_take_consumes [OF long(3)] long_form_start [OF lp] n(1) by (simp add: df)
  next
    case unknown
    then show ?thesis
      using long_consume [OF i p n(1), of st'] long_form_start [OF lp] n(1) by (simp add: df)
  next
    case short
    have "char_at arg 1 \<noteq> nul" using short(2) assms(4) n(2) by (auto simp: getopt_def Let_def df)
    then have "\<not> longonly \<or> char_at arg 1 \<noteq> CHR ''-'' \<and> ?f = None" "char_at arg 1 = CHR ''-'' \<longrightarrow> char_at arg 2 = nul"
      using short(1) by (auto simp: long_form_def simp del: not_None_eq)
    then show ?thesis
      using getopt_long_short [OF assms(1), of argv longopts longonly s optstring r st'] short(2) lp assms(4) n(2)
      by (auto simp: df long_name_def)
  qed
qed

interpretation short_opts: scanner "getopt mb argv optstring"
    "\<lambda>st. mbtowc_ok mb \<and> pos_ok argv (opt_reset st)" "\<lambda>st. chars_left argv (opt_reset st)"
  for mb argv optstring
proof (unfold_locales, goal_cases)
  case (1 st r st')
  then show ?case using getopt_progress [of mb argv st optstring r st'] by simp
qed

interpretation long_opts: scanner "long_call mb argv optstring longopts longonly"
    "\<lambda>st. mbtowc_ok mb \<and> long_pos_ok argv longopts longonly (opt_reset st)" "\<lambda>st. chars_left argv (opt_reset st)"
  for mb argv optstring longopts longonly
proof (unfold_locales, goal_cases)
  case (1 st r st')
  then show ?case using long_call_progress [of mb argv longopts longonly st optstring r st'] by simp
qed

definition opt_start :: optstate where
  "opt_start = \<lparr> optarg = None, optind = 1, opterr = True, optopt = 0, optpos = 0, optreset = False, errout = [] \<rparr>"

text \<open>Claim C29: a program that calls \<open>getopt\<close>, or \<open>getopt_long\<close> or \<open>getopt_long_only\<close>, until it
  returns -1 gets there, whatever the argument vector and the option tables are, after at most as
  many calls as the arguments after the program name have characters and terminating zeros.\<close>

theorem getopt_scan_ends:
  assumes "mbtowc_ok mb"
  shows "(\<exists>rs st. scan_all (getopt mb argv optstring) opt_start = Some (rs, st) \<and>
                  length rs \<le> sum_list (map (\<lambda>a. length a + 1) (drop 1 argv))) \<and>
         (\<exists>rs st. scan_all (long_call mb argv optstring longopts longonly) opt_start = Some (rs, st) \<and>
                  length rs \<le> sum_list (map (\<lambda>a. length a + 1) (drop 1 argv)))"
proof -
  have "opt_reset opt_start = opt_start" "optpos opt_start = 0" "optind opt_start = 1"
    by (simp_all add: opt_start_def opt_reset_def)
  then show ?thesis
    using short_opts.scan_all_ends [of mb argv opt_start optstring]
      long_opts.scan_all_ends [of mb argv longopts longonly opt_start optstring] assms
    by (simp add: pos_ok_def long_pos_ok_def chars_left_def)
qed

text \<open>\<open>mbtowc\<close> for single-byte characters.\<close>

definition mbtowc_ascii :: mbtowc where
  "mbtowc_ascii s = (1, int (of_char (hd s)))"

theorem getopt_scan_ends_witness:
  "mbtowc_ok mbtowc_ascii \<and>
   (\<exists>rs st. scan_all (getopt mbtowc_ascii [''prog'', ''-ab'', ''x'', ''-c''] ''ab:'') opt_start = Some (rs, st) \<and> length rs \<le> 9)"
proof -
  have ok: "mbtowc_ok mbtowc_ascii" by (auto simp: mbtowc_ok_def mbtowc_ascii_def Suc_le_eq)
  show ?thesis
    using ok getopt_scan_ends [OF ok, of "[''prog'', ''-ab'', ''x'', ''-c'']" "''ab:''" "[]" False] by (simp add: eval_nat_numeral)
qed

section \<open>stresep\<close>

text \<open>The string lies in a buffer; positions are indices into it. Reading or moving bytes outside
  the buffer is the result \<open>None\<close>, and so is a loop that does not end.\<close>

definition buf_get :: "char list \<Rightarrow> nat \<Rightarrow> char option" where
  "buf_get buf k = (if k < length buf then Some (buf ! k) else None)"

definition memmove :: "char list \<Rightarrow> nat \<Rightarrow> nat \<Rightarrow> nat \<Rightarrow> char list option" where
  "memmove buf dst src l =
     (if dst + l \<le> length buf \<and> src + l \<le> length buf
      then Some (take dst buf @ take l (drop src buf) @ drop (dst + l) buf) else None)"

text \<open>The inner loop: drop the escape characters before \<open>c\<close>.\<close>

partial_function (option) stresep_esc ::
  "char \<Rightarrow> char list \<Rightarrow> nat \<Rightarrow> nat \<Rightarrow> char \<Rightarrow> (char list \<times> nat \<times> nat \<times> char) option" where
  "stresep_esc esc buf s l c =
     (if esc \<noteq> nul \<and> c = esc then
        Option.bind (memmove buf (s - 1) s l) (\<lambda>buf.
        Option.bind (buf_get buf s) (\<lambda>c.
        stresep_esc esc buf (s + 1) (l - 1) c))
      else Some (buf, s, l, c))"

text \<open>The outer loop. Its result is the buffer and the position stored through \<open>stringp\<close>, \<open>None\<close>
  the null pointer; the token is returned by its start, which the loop does not change.\<close>

partial_function (option) stresep_loop ::
  "string \<Rightarrow> char \<Rightarrow> char list \<Rightarrow> nat \<Rightarrow> nat \<Rightarrow> (char list \<times> nat option) option" where
  "stresep_loop delim esc buf s l =
     Option.bind (buf_get buf s) (\<lambda>c.
     Option.bind (stresep_esc esc buf (s + 1) (l - 1) c) (\<lambda>(buf, s, l, c).
     if c = nul then Some (buf, None)
     else if c \<in> set delim then Some (buf[s - 1 := nul], Some s)
     else stresep_loop delim esc buf s l))"

text \<open>The length of the string at a position, \<open>strlen\<close>.\<close>

definition strlen :: "char list \<Rightarrow> nat \<Rightarrow> nat" where
  "strlen buf s = length (takeWhile (\<lambda>c. c \<noteq> nul) (drop s buf))"

definition stresep :: "string \<Rightarrow> char \<Rightarrow> char list \<Rightarrow> nat option \<Rightarrow> (char list \<times> nat option \<times> nat option) option" where
  "stresep delim esc buf stringp =
     (case stringp of
        None \<Rightarrow> Some (buf, None, None)
      | Some s \<Rightarrow>
          map_option (\<lambda>(buf, stringp). (buf, stringp, Some s)) (stresep_loop delim esc buf s (strlen buf s + 1)))"

text \<open>What the scanner computes, on the string alone: the token with its escapes removed, and what
  follows the delimiter that ends it.\<close>

fun next_token :: "string \<Rightarrow> char \<Rightarrow> string \<Rightarrow> string \<times> string option" where
  "next_token delim esc [] = ([], None)"
| "next_token delim esc (c # cs) =
     (if esc \<noteq> nul \<and> c = esc then
        (case cs of
           [] \<Rightarrow> ([], None)
         | x # xs \<Rightarrow> (case next_token delim esc xs of (t, r) \<Rightarrow> (x # t, r)))
      else if c \<in> set delim then ([], Some cs)
      else (case next_token delim esc cs of (t, r) \<Rightarrow> (c # t, r)))"

text \<open>The string at a position.\<close>

definition cstring :: "char list \<Rightarrow> nat \<Rightarrow> string" where
  "cstring buf s = takeWhile (\<lambda>c. c \<noteq> nul) (drop s buf)"

lemma stresep_esc_plain: "esc = nul \<or> c \<noteq> esc \<Longrightarrow> stresep_esc esc buf s l c = Some (buf, s, l, c)"
  by (subst stresep_esc.simps) auto

lemma stresep_loop_plain:
  assumes "buf = pre @ c # rest" "esc = nul \<or> c \<noteq> esc"
  shows "stresep_loop delim esc buf (length pre) l =
    (if c = nul then Some (buf, None)
     else if c \<in> set delim then Some (pre @ nul # rest, Some (length pre + 1))
     else stresep_loop delim esc buf (length pre + 1) (l - 1))"
  using assms by (subst stresep_loop.simps) (simp add: buf_get_def stresep_esc_plain)

text \<open>An escape character at the current position: the rest of the string moves down by one, and
  the scan goes on after the character that was escaped. Every escape leaves one more zero behind
  the string.\<close>

lemma stresep_loop_escape:
  assumes "esc \<noteq> nul"
  shows "stresep_loop delim esc (pre @ (esc # cs) @ replicate (Suc e) nul @ tail) (length pre) (length (esc # cs) + 1 + e) =
    stresep_loop delim esc (pre @ cs @ replicate (Suc (Suc e)) nul @ tail) (length pre + 1) (length cs + 1 + e)"
proof -
  let ?b = "pre @ (esc # cs) @ replicate (Suc e) nul @ tail" and ?b' = "pre @ cs @ replicate (Suc (Suc e)) nul @ tail"
  have r: "replicate e nul @ nul # xs = nul # replicate e nul @ xs" for xs :: string
    by (induction e) auto
  have d: "drop e (nul # replicate e nul @ tail) = nul # tail" by (simp add: r [symmetric])
  have "memmove ?b (length pre) (length pre + 1) (length cs + 1 + e) = Some ?b'"
    using d by (simp add: memmove_def r)
  then have "stresep_esc esc ?b (length pre + 1) (length cs + 1 + e) esc =
      Option.bind (buf_get ?b' (length pre + 1)) (\<lambda>c. stresep_esc esc ?b' (length pre + 1 + 1) (length cs + 1 + e - 1) c)"
    using assms by (subst stresep_esc.simps) simp
  moreover have "buf_get ?b (length pre) = Some esc" by (simp add: buf_get_def)
  ultimately show ?thesis
    by (subst (1 2) stresep_loop.simps) (simp add: bind_assoc)
qed

lemma stresep_loop_tokens:
  assumes "nul \<notin> set str" "next_token delim esc str = (t, r)"
  shows "\<exists>rest q. stresep_loop delim esc (pre @ str @ replicate (Suc e) nul @ tail) (length pre) (length str + 1 + e) =
      Some (pre @ t @ nul # rest, q) \<and> length t + length rest = length str + e + length tail \<and>
      (case r of None \<Rightarrow> q = None | Some u \<Rightarrow> q = Some (length pre + length t + 1) \<and> (\<exists>v. rest = u @ nul # v))"
  using assms
proof (induction delim esc str arbitrary: pre e t r rule: next_token.induct)
  case (1 delim esc)
  have "stresep_loop delim esc (pre @ nul # replicate e nul @ tail) (length pre) (1 + e) =
      Some (pre @ nul # replicate e nul @ tail, None)"
    by (subst stresep_loop_plain [OF refl]) auto
  then show ?case using 1 by (intro exI [of _ "replicate e nul @ tail"] exI [of _ None]) simp
next
  case (2 delim esc c cs)
  show ?case
  proof (cases "esc \<noteq> nul \<and> c = esc")
    case esc: True
    show ?thesis
    proof (cases cs)
      case Nil
      then show ?thesis
        using esc 2(3,4) stresep_loop_escape [of esc delim pre "[]" e tail]
          stresep_loop_plain [of _ "pre @ [nul]" nul "replicate e nul @ tail" esc delim "1 + e"]
        by simp
    next
      case (Cons x xs)
      obtain t' r' where n: "next_token delim esc xs = (t', r')" by fastforce
      then have t: "t = x # t'" "r = r'" using 2(4) esc Cons by auto
      show ?thesis
        using 2(1) [OF esc Cons, of t' r' "pre @ [x]" "Suc e"] n 2(3) Cons esc t
          stresep_loop_escape [of esc delim pre cs e tail] by (simp cong: option.case_cong)
    qed
  next
    case plain: False
    let ?buf = "pre @ (c # cs) @ replicate (Suc e) nul @ tail"
    have c: "c \<noteq> nul" using 2(3) by auto
    have l: "stresep_loop delim esc ?buf (length pre) (length (c # cs) + 1 + e) =
        (if c \<in> set delim then Some (pre @ nul # cs @ replicate (Suc e) nul @ tail, Some (length pre + 1))
         else stresep_loop delim esc ?buf (length pre + 1) (length cs + 1 + e))"
      using stresep_loop_plain [of ?buf pre c "cs @ replicate (Suc e) nul @ tail" esc delim "length (c # cs) + 1 + e"] plain c by auto
    show ?thesis
    proof (cases "c \<in> set delim")
      case True
      then show ?thesis using l 2(4) plain by auto
    next
      case False
      obtain t' r' where n: "next_token delim esc cs = (t', r')" by fastforce
      then have t: "t = c # t'" "r = r'" using 2(4) plain False by auto
      show ?thesis using 2(2) [OF plain False, of t' r' "pre @ [c]" e] n 2(3) t l False by (simp cong: option.case_cong)
    qed
  qed
qed

lemma cstring_split:
  assumes "s + strlen buf s < length buf"
  shows "buf = take s buf @ cstring buf s @ nul # drop (Suc (s + strlen buf s)) buf"
proof -
  have l: "length (cstring buf s) = strlen buf s" by (simp add: cstring_def strlen_def)
  have "drop s buf = cstring buf s @ dropWhile (\<lambda>c. c \<noteq> nul) (drop s buf)" by (simp add: cstring_def)
  moreover have d: "dropWhile (\<lambda>c. c \<noteq> nul) (drop s buf) = drop (s + strlen buf s) buf"
    by (simp add: dropWhile_eq_drop strlen_def add.commute)
  moreover have "drop (s + strlen buf s) buf = nul # drop (Suc (s + strlen buf s)) buf"
    using hd_dropWhile [of "\<lambda>c. c \<noteq> nul" "drop s buf"] assms d
    by (metis Cons_nth_drop_Suc drop_eq_Nil2 hd_drop_conv_nth linorder_not_le)
  ultimately show ?thesis by (metis append_take_drop_id)
qed

lemma next_token_nul: "nul \<notin> set str \<Longrightarrow> next_token delim esc str = (t, r) \<Longrightarrow> nul \<notin> set t \<and> (\<forall>u. r = Some u \<longrightarrow> nul \<notin> set u)"
proof (induction delim esc str arbitrary: t r rule: next_token.induct)
  case (2 delim esc c cs)
  show ?case
  proof (cases "esc \<noteq> nul \<and> c = esc")
    case True
    then show ?thesis
    proof (cases cs)
      case (Cons x xs)
      obtain t' r' where n: "next_token delim esc xs = (t', r')" by fastforce
      then show ?thesis using 2(1) [OF True Cons _ n] 2(3,4) True Cons by auto
    qed (use 2(4) in auto)
  next
    case plain: False
    obtain t' r' where n: "next_token delim esc cs = (t', r')" by fastforce
    then show ?thesis using 2(2) [OF plain _ _ n] 2(3,4) plain by (cases "c \<in> set delim") auto
  qed
qed simp

lemma cstring_at: "nul \<notin> set t \<Longrightarrow> cstring (pre @ t @ nul # rest) (length pre) = t"
  by (simp add: cstring_def, subst takeWhile_append2) auto

text \<open>Claim C30: \<open>stresep\<close> computes the next token of the string in the buffer, with every escape
  character removed and the character after it kept, and leaves the position after the delimiter
  that ended the token, or the null pointer at the end of the string. It returns, reads and moves no
  byte outside the string, and leaves the bytes before it alone.\<close>

theorem stresep_next_token:
  assumes "s + strlen buf s < length buf" "next_token delim esc (cstring buf s) = (t, r)"
  shows "\<exists>buf' q. stresep delim esc buf (Some s) = Some (buf', q, Some s) \<and> cstring buf' s = t \<and>
           map_option (cstring buf') q = r \<and> length buf' = length buf \<and> take s buf' = take s buf"
proof -
  define pre tail where "pre = take s buf" "tail = drop (Suc (s + strlen buf s)) buf"
  note df = pre_tail_def
  have b: "buf = pre @ cstring buf s @ replicate (Suc 0) nul @ tail" using cstring_split [OF assms(1)] by (simp add: df)
  have lp: "length pre = s" using assms(1) by (simp add: df)
  have n: "nul \<notin> set (cstring buf s)" by (auto simp: cstring_def dest: set_takeWhileD)
  obtain rest q where l: "stresep_loop delim esc buf s (strlen buf s + 1) = Some (pre @ t @ nul # rest, q)"
      "length t + length rest = length (cstring buf s) + length tail"
      "case r of None \<Rightarrow> q = None | Some u \<Rightarrow> q = Some (length pre + length t + 1) \<and> (\<exists>v. rest = u @ nul # v)"
    using stresep_loop_tokens [OF n assms(2), of pre 0 tail] b lp by (auto simp: strlen_def cstring_def)
  have z: "nul \<notin> set t" "\<And>u. r = Some u \<Longrightarrow> nul \<notin> set u" using next_token_nul [OF n assms(2)] by auto
  have "map_option (cstring (pre @ t @ nul # rest)) q = r"
  proof (cases r)
    case (Some u)
    then obtain v where v: "q = Some (length pre + length t + 1)" "rest = u @ nul # v" using l(3) by auto
    then show ?thesis using cstring_at [of u "pre @ t @ [nul]" v] z(2) Some by simp
  qed (use l(3) in simp)
  moreover have "length (pre @ t @ nul # rest) = length buf" using l(2) by (subst b) simp
  moreover have "cstring (pre @ t @ nul # rest) s = t" using cstring_at [OF z(1)] lp by blast
  ultimately show ?thesis using l(1) lp by (auto simp: stresep_def df(1))
qed

theorem stresep_next_token_witness:
  "\<exists>buf' q. stresep '','' (CHR ''!'') (''a!,b,c'' @ [nul]) (Some 0) = Some (buf', q, Some 0) \<and> cstring buf' 0 = ''a,b'' \<and>
     map_option (cstring buf') q = Some ''c''"
  using stresep_next_token [of 0 "''a!,b,c'' @ [nul]" "'',''" "CHR ''!''" "''a,b''" "Some ''c''"]
  by (auto simp: strlen_def cstring_def nul_def)

end
