(* ===== verification/VmaList.thy ===== *)
theory VmaList
  imports MemLayout "HOL-Library.Monad_Syntax"
begin

text \<open>
  The list of virtual memory areas of \<open>core/mmu.cc\<close>: lookup, splitting, unmapping, protection and
  the search for a free range. Addresses are natural numbers below \<open>2 ^ 64\<close>; additions that can
  leave this range wrap around, as \<open>uintptr_t\<close> does. The intrusive set \<open>vma_list\<close> is the list of its
  elements in order, an iterator an index into it; the result \<open>None\<close> of an operation stands for
  reading through an iterator outside the set, or for a loop that does not end.

  The page tables are the set of populated pages, as a predicate on page addresses; the walk over
  their levels is not part of this theory.
\<close>

section \<open>Addresses\<close>

definition add64 :: "nat \<Rightarrow> nat \<Rightarrow> nat" where
  "add64 a b = (a + b) mod 2 ^ 64"

definition up64 :: "nat \<Rightarrow> nat \<Rightarrow> nat" where
  "up64 n a = nalign_down (add64 n (a - 1)) a"

lemma add64_eq [simp]: "a + b < 2 ^ 64 \<Longrightarrow> add64 a b = a + b"
  by (simp add: add64_def)

declare sub64_eq [simp]

lemma up64_eq: "0 < a \<Longrightarrow> n + a \<le> 2 ^ 64 \<Longrightarrow> up64 n a = nalign_up n a"
  by (simp add: up64_def nalign_up_def)

section \<open>Areas\<close>

text \<open>An \<open>anon_vma\<close>. Its page allocator is determined by its flags.\<close>

record vma =
  vstart :: nat
  vend :: nat
  vperm :: u32
  vflags :: u32

definition anon_vma :: "nat \<Rightarrow> nat \<Rightarrow> u32 \<Rightarrow> u32 \<Rightarrow> vma" where
  "anon_vma s e perm flags =
     \<lparr> vstart = nalign_down s page_size, vend = up64 e page_size, vperm = perm, vflags = flags \<rparr>"

definition vma_set :: "vma \<Rightarrow> nat \<Rightarrow> nat \<Rightarrow> vma" where
  "vma_set v s e = v \<lparr> vstart := nalign_down s page_size, vend := up64 e page_size \<rparr>"

definition vma_size :: "vma \<Rightarrow> nat" where
  "vma_size v = sub64 (vend v) (vstart v)"

definition contains :: "nat \<Rightarrow> nat \<Rightarrow> vma \<Rightarrow> bool" where
  "contains s e v \<longleftrightarrow> s \<le> vstart v \<and> vend v \<le> e"

definition upper_vma_limit :: nat where
  "upper_vma_limit = 0x400000000000"

text \<open>Insertion into the ordered set; an element with the same start is not inserted.\<close>

fun vma_insert :: "vma \<Rightarrow> vma list \<Rightarrow> vma list" where
  "vma_insert n [] = [n]"
| "vma_insert n (v # vs) =
     (if vstart n < vstart v then n # v # vs
      else if vstart n = vstart v then v # vs
      else v # vma_insert n vs)"

text \<open>The empty areas that mark the ends of the address range, which \<open>vma_list\<close> is created with.\<close>

definition vma_list_init :: "vma list" where
  "vma_list_init = vma_insert (anon_vma upper_vma_limit upper_vma_limit 0 0) (vma_insert (anon_vma 0 0 0 0) [])"

text \<open>\<open>split\<close> of the area at the head of a list: the upper part becomes a new area.\<close>

definition vma_split :: "nat \<Rightarrow> vma list \<Rightarrow> vma list" where
  "vma_split edge vs =
     (case vs of
        [] \<Rightarrow> []
      | v # rest \<Rightarrow>
          if edge \<le> vstart v \<or> edge \<ge> vend v then vs
          else
            let n = anon_vma edge (vend v) (vperm v) (vflags v);
                v = vma_set v (vstart v) edge in
            vma_insert n (v # rest))"

text \<open>The index of the first area that does not start below the address.\<close>

definition lower_bound :: "nat \<Rightarrow> vma list \<Rightarrow> nat" where
  "lower_bound a vs = length (takeWhile (\<lambda>v. vstart v < a) vs)"

text \<open>The inner \<open>None\<close> is the iterator at the end.\<close>

definition find_intersecting_vma :: "nat \<Rightarrow> vma list \<Rightarrow> nat option option" where
  "find_intersecting_vma a vs =
     (let i = lower_bound a vs in
      if i \<ge> length vs then None
      else if vstart (vs ! i) = a then Some (Some i)
      else if i = 0 then None
      else if a \<ge> vstart (vs ! (i - 1)) \<and> a < vend (vs ! (i - 1)) then Some (Some (i - 1))
      else Some None)"

definition find_intersecting_vmas :: "nat \<Rightarrow> nat \<Rightarrow> vma list \<Rightarrow> (nat \<times> nat) option" where
  "find_intersecting_vmas s e vs =
     (if e \<le> s then Some (length vs, length vs)
      else
        let i = lower_bound s vs in
        if i \<ge> length vs then None
        else if vstart (vs ! i) > s \<and> i = 0 then None
        else
          let i = (if vstart (vs ! i) > s \<and> vend (vs ! (i - 1)) > s then i - 1 else i) in
          if vstart (vs ! i) \<ge> e then Some (length vs, length vs)
          else Some (i, lower_bound e vs))"

section \<open>Loops that split the areas at the ends of a range\<close>

text \<open>The loops of \<open>protect\<close> and \<open>evacuate\<close>, from the current area up to the area with start
  \<open>stop\<close>, the second iterator of the range. An area that \<open>skip\<close> accepts is passed over; the others are
  split at both ends of the range, and \<open>act\<close> is applied to an area that lies inside the range. It
  removes the area or changes it, and updates the populated pages.\<close>

partial_function (option) vma_loop ::
  "(vma \<Rightarrow> bool) \<Rightarrow> (vma \<Rightarrow> 'x \<Rightarrow> vma option \<times> 'x) \<Rightarrow> nat \<Rightarrow> nat \<Rightarrow> nat option \<Rightarrow> vma list \<Rightarrow> 'x \<Rightarrow> (vma list \<times> 'x) option" where
  "vma_loop skip act s e stop vs x =
     (if vs = [] then (if stop = None then Some ([], x) else None)
      else if stop = Some (vstart (hd vs)) then Some (vs, x)
      else if skip (hd vs) then
        Option.bind (vma_loop skip act s e stop (tl vs) x) (\<lambda>(r, x). Some (hd vs # r, x))
      else
        let vs = vma_split s (vma_split e vs) in
        if contains s e (hd vs) then
          let (v, x) = act (hd vs) x in
          Option.bind (vma_loop skip act s e stop (tl vs) x) (\<lambda>(r, x). Some (case v of None \<Rightarrow> r | Some v \<Rightarrow> v # r, x))
        else
          Option.bind (vma_loop skip act s e stop (tl vs) x) (\<lambda>(r, x). Some (hd vs # r, x)))"

text \<open>The loop over the areas that intersect a range.\<close>

definition vma_range_loop ::
  "(vma \<Rightarrow> bool) \<Rightarrow> (vma \<Rightarrow> 'x \<Rightarrow> vma option \<times> 'x) \<Rightarrow> nat \<Rightarrow> nat \<Rightarrow> vma list \<Rightarrow> 'x \<Rightarrow> (vma list \<times> 'x) option" where
  "vma_range_loop skip act s e vs x =
     (case find_intersecting_vmas s e vs of
        None \<Rightarrow> None
      | Some (i, j) \<Rightarrow>
          map_option (\<lambda>(r, x). (take i vs @ r, x))
            (vma_loop skip act s e (if j < length vs then Some (vstart (vs ! j)) else None) (drop i vs) x))"

text \<open>The pages an operation on a range of the page tables reaches.\<close>

definition in_pages :: "nat \<Rightarrow> nat \<Rightarrow> nat \<Rightarrow> bool" where
  "in_pages addr sz p \<longleftrightarrow>
     nalign_down addr page_size \<le> p \<and> p < nalign_down addr page_size + max (up64 sz page_size) page_size"

definition unpopulate :: "nat \<Rightarrow> nat \<Rightarrow> (nat \<Rightarrow> bool) \<Rightarrow> (nat \<Rightarrow> bool)" where
  "unpopulate addr sz present p \<longleftrightarrow> present p \<and> \<not> in_pages addr sz p"

definition populate :: "nat \<Rightarrow> nat \<Rightarrow> (nat \<Rightarrow> bool) \<Rightarrow> (nat \<Rightarrow> bool)" where
  "populate addr sz present p \<longleftrightarrow> present p \<or> (in_pages addr sz p \<and> page_size dvd p)"

definition populated_bytes :: "vma \<Rightarrow> (nat \<Rightarrow> bool) \<Rightarrow> nat" where
  "populated_bytes v present =
     page_size * length (filter present (map (\<lambda>k. vstart v + page_size * k) [0 ..< vma_size v div page_size]))"

text \<open>Unmapping one area: the area is removed, its pages are unpopulated and counted.\<close>

definition evacuate_area :: "vma \<Rightarrow> (nat \<Rightarrow> bool) \<times> nat \<Rightarrow> vma option \<times> (nat \<Rightarrow> bool) \<times> nat" where
  "evacuate_area v x =
     (let present = fst x; ret = snd x in
      (None, unpopulate (vstart v) (vma_size v) present, ret + populated_bytes v present))"

definition evacuate :: "nat \<Rightarrow> nat \<Rightarrow> vma list \<Rightarrow> (nat \<Rightarrow> bool) \<Rightarrow> (nat \<times> vma list \<times> (nat \<Rightarrow> bool)) option" where
  "evacuate s e vs present =
     map_option (\<lambda>(vs, present, ret). (ret, vs, present))
       (vma_range_loop (\<lambda>v. False) evacuate_area s e vs (present, 0))"

text \<open>\<open>validate_perm\<close> of an anonymous area accepts every permission.\<close>

definition protect_area :: "u32 \<Rightarrow> vma \<Rightarrow> unit \<Rightarrow> vma option \<times> unit" where
  "protect_area perm v x = (Some (v \<lparr> vperm := perm \<rparr>), x)"

definition protect :: "nat \<Rightarrow> nat \<Rightarrow> u32 \<Rightarrow> vma list \<Rightarrow> vma list option" where
  "protect addr sz perm vs =
     map_option fst
       (vma_range_loop (\<lambda>v. vperm v = perm) (protect_area perm) addr (add64 addr sz) vs ())"

fun ismapped_loop :: "nat \<Rightarrow> nat \<Rightarrow> vma list \<Rightarrow> bool" where
  "ismapped_loop s e [] = False"
| "ismapped_loop s e (v # vs) =
     (if vstart v > s then False else if vend v \<ge> e then True else ismapped_loop (vend v) e vs)"

definition ismapped :: "nat \<Rightarrow> nat \<Rightarrow> vma list \<Rightarrow> bool option" where
  "ismapped addr sz vs =
     map_option (\<lambda>(i, j). ismapped_loop addr (add64 addr sz) (take (j - i) (drop i vs)))
       (find_intersecting_vmas addr (add64 addr sz) vs)"

section \<open>The search for a hole\<close>

text \<open>The loop of \<open>find_hole\<close> over the ranges from \<open>p\<close> on. The inner \<open>None\<close> is the exception with
  \<open>ENOMEM\<close>.\<close>

fun hole_loop :: "nat \<Rightarrow> nat \<Rightarrow> nat \<Rightarrow> (nat \<times> nat) list \<Rightarrow> nat option option" where
  "hole_loop start sz good (p # n # rs) =
     (if fst n \<le> upper_vma_limit then
        if start \<ge> snd p \<and> add64 start sz \<le> fst n then Some (Some start)
        else if snd p \<ge> start \<and> sub64 (fst n) (snd p) \<ge> sz then
          if sz < huge_page_size then Some (Some (snd p))
          else if sub64 (fst n) (up64 (snd p) huge_page_size) \<ge> sz then Some (Some (up64 (snd p) huge_page_size))
          else hole_loop start sz (snd p) (n # rs)
        else hole_loop start sz good (n # rs)
      else if good \<noteq> 0 then Some (Some good)
      else Some None)"
| "hole_loop start sz good _ = None"

definition find_hole :: "nat \<Rightarrow> nat \<Rightarrow> (nat \<times> nat) list \<Rightarrow> nat option option" where
  "find_hole start sz rs =
     (let i = length (takeWhile (\<lambda>r. fst r < start) rs) in
      hole_loop start sz 0 (drop (i - 1) rs))"

text \<open>The set \<open>vma_range_set\<close>. Its elements refer to the areas, so that it always has their current
  ends: it is the areas together with the ranges of the linear mappings, ordered by start.\<close>

definition vma_ranges :: "vma list \<Rightarrow> (nat \<times> nat) list \<Rightarrow> (nat \<times> nat) list" where
  "vma_ranges vs lin =
     sort_key fst (map (\<lambda>v. (vstart v, vend v)) vs @ filter (\<lambda>r. fst r \<notin> vstart ` set vs) lin)"

section \<open>Well formed lists\<close>

text \<open>Between the two markers lie non-empty page aligned areas in order, without overlap.\<close>

definition area_ok :: "vma \<Rightarrow> bool" where
  "area_ok v \<longleftrightarrow> page_size dvd vstart v \<and> page_size dvd vend v \<and> 0 < vstart v \<and> vstart v < vend v \<and> vend v \<le> upper_vma_limit"

definition areas_ok :: "vma list \<Rightarrow> bool" where
  "areas_ok vs \<longleftrightarrow> (\<forall>v \<in> set vs. area_ok v) \<and> sorted_wrt (\<lambda>v w. vend v \<le> vstart w) vs"

definition lower_edge :: vma where
  "lower_edge = anon_vma 0 0 0 0"

definition upper_edge :: vma where
  "upper_edge = anon_vma upper_vma_limit upper_vma_limit 0 0"

definition vmas_ok :: "vma list \<Rightarrow> bool" where
  "vmas_ok vs \<longleftrightarrow> (\<exists>as. vs = lower_edge # as @ [upper_edge] \<and> areas_ok as)"

text \<open>The page attributes an address has: what the list means.\<close>

definition covers :: "nat \<Rightarrow> vma \<Rightarrow> bool" where
  "covers a v \<longleftrightarrow> vstart v \<le> a \<and> a < vend v"

definition attr :: "vma list \<Rightarrow> nat \<Rightarrow> (u32 \<times> u32) option" where
  "attr vs a = map_option (\<lambda>v. (vperm v, vflags v)) (find (covers a) vs)"

lemma limit_facts: "page_size dvd upper_vma_limit" "upper_vma_limit + page_size \<le> 2 ^ 64" "0 < upper_vma_limit"
  by (simp_all add: upper_vma_limit_def page_size_def)

lemma limit_less: "a \<le> upper_vma_limit \<Longrightarrow> a + page_size \<le> 2 ^ 64" "a \<le> upper_vma_limit \<Longrightarrow> a < 2 ^ 64"
  by (simp_all add: upper_vma_limit_def page_size_def)

lemma edge_simps [simp]:
  "vstart lower_edge = 0" "vend lower_edge = 0" "vstart upper_edge = upper_vma_limit" "vend upper_edge = upper_vma_limit"
  using limit_facts by (simp_all add: lower_edge_def upper_edge_def anon_vma_def up64_eq page_size_def)

lemma vma_list_init_ok: "vmas_ok vma_list_init"
proof -
  have "vma_list_init = [lower_edge, upper_edge]"
    using limit_facts(3) edge_simps unfolding vma_list_init_def lower_edge_def [symmetric] upper_edge_def [symmetric] by simp
  then show ?thesis unfolding vmas_ok_def areas_ok_def by (intro exI [of _ "[]"]) simp
qed

lemma areas_ok_Cons: "areas_ok (v # vs) \<longleftrightarrow> area_ok v \<and> areas_ok vs \<and> (\<forall>w \<in> set vs. vend v \<le> vstart w)"
  by (auto simp: areas_ok_def)

lemma areas_ok_append: "areas_ok (us @ vs) \<longleftrightarrow> areas_ok us \<and> areas_ok vs \<and> (\<forall>u \<in> set us. \<forall>v \<in> set vs. vend u \<le> vstart v)"
  by (auto simp: areas_ok_def sorted_wrt_append)

lemma area_okD:
  assumes "area_ok v"
  shows "page_size dvd vstart v" "page_size dvd vend v" "0 < vstart v" "vstart v < vend v" "vend v \<le> upper_vma_limit"
  using assms by (auto simp: area_ok_def)

lemma attr_append: "attr (us @ vs) a = (case attr us a of None \<Rightarrow> attr vs a | Some x \<Rightarrow> Some x)"
  by (simp add: attr_def find_append split: option.split)

lemma attr_Nil [simp]: "attr [] a = None"
  by (simp add: attr_def)

lemma attr_Cons: "attr (v # vs) a = (if covers a v then Some (vperm v, vflags v) else attr vs a)"
  by (simp add: attr_def)

lemma attr_edges [simp]: "attr (lower_edge # as @ [upper_edge]) a = attr as a"
  by (auto simp: attr_Cons attr_append covers_def split: option.split)

lemma attr_None_iff: "attr vs a = None \<longleftrightarrow> (\<forall>v \<in> set vs. \<not> covers a v)"
  by (induction vs) (auto simp: attr_Cons)

section \<open>Splitting\<close>

lemma up64_page: "page_size dvd a \<Longrightarrow> a \<le> upper_vma_limit \<Longrightarrow> up64 a page_size = a"
  using up64_eq [of page_size a] limit_less(1) [of a] by simp

lemma vma_insert_head: "\<forall>w \<in> set vs. vstart n < vstart w \<Longrightarrow> vma_insert n vs = n # vs"
  by (cases vs) auto

text \<open>Splitting an aligned area at an aligned address.\<close>

lemma vma_split_head:
  assumes "area_ok v" "page_size dvd edge" "\<forall>w \<in> set vs. vend v \<le> vstart w"
  shows "vma_split edge (v # vs) =
    (if vstart v < edge \<and> edge < vend v then v \<lparr> vend := edge \<rparr> # v \<lparr> vstart := edge \<rparr> # vs else v # vs)"
proof (cases "vstart v < edge \<and> edge < vend v")
  case True
  note a = area_okD [OF assms(1)]
  have e: "up64 edge page_size = edge" "up64 (vend v) page_size = vend v"
    using up64_page assms(2) a True by simp_all
  then have "vma_set v (vstart v) edge = v \<lparr> vend := edge \<rparr>"
    using a by (simp add: vma_set_def)
  moreover have "anon_vma edge (vend v) (vperm v) (vflags v) = v \<lparr> vstart := edge \<rparr>"
    using e assms(2) by (simp add: anon_vma_def)
  moreover have "vma_insert (v \<lparr> vstart := edge \<rparr>) vs = v \<lparr> vstart := edge \<rparr> # vs"
    using assms(3) True by (intro vma_insert_head) auto
  ultimately show ?thesis using True by (simp add: vma_split_def)
qed (auto simp: vma_split_def)

section \<open>What the loops do to one area\<close>

text \<open>The part of an area inside the range is given to \<open>act\<close>; the parts below and above stay.\<close>

definition pieces ::
  "(vma \<Rightarrow> bool) \<Rightarrow> (vma \<Rightarrow> 'x \<Rightarrow> vma option \<times> 'x) \<Rightarrow> nat \<Rightarrow> nat \<Rightarrow> vma \<Rightarrow> 'x \<Rightarrow> vma list \<times> 'x" where
  "pieces skip act s e v x =
     (if skip v then ([v], x)
      else
        let (w, x) = act (v \<lparr> vstart := max (vstart v) s, vend := min (vend v) e \<rparr>) x in
        ((if vstart v < s then [v \<lparr> vend := s \<rparr>] else []) @
         (case w of None \<Rightarrow> [] | Some w \<Rightarrow> [w]) @
         (if e < vend v then [v \<lparr> vstart := e \<rparr>] else []), x))"

fun run_pieces ::
  "(vma \<Rightarrow> bool) \<Rightarrow> (vma \<Rightarrow> 'x \<Rightarrow> vma option \<times> 'x) \<Rightarrow> nat \<Rightarrow> nat \<Rightarrow> vma list \<Rightarrow> 'x \<Rightarrow> vma list \<times> 'x" where
  "run_pieces skip act s e [] x = ([], x)"
| "run_pieces skip act s e (v # vs) x =
     (let (r, x) = pieces skip act s e v x; (r', x) = run_pieces skip act s e vs x in (r @ r', x))"

lemma vma_loop_stop: "stop = Some (vstart v) \<Longrightarrow> vma_loop skip act s e stop (v # vs) x = Some (v # vs, x)"
  by (subst vma_loop.simps) simp

lemma vma_loop_skip:
  "stop \<noteq> Some (vstart v) \<Longrightarrow> skip v \<Longrightarrow> vma_loop skip act s e stop vs x = Some (r, y) \<Longrightarrow>
   vma_loop skip act s e stop (v # vs) x = Some (v # r, y)"
  by (subst vma_loop.simps) simp

lemma vma_loop_split:
  assumes "stop \<noteq> Some (vstart v)" "\<not> skip v" "vma_split s (vma_split e (v # vs)) = w # ws"
    and "(if contains s e w then act w x else (Some w, x)) = (u, x')" "vma_loop skip act s e stop ws x' = Some (r, y)"
  shows "vma_loop skip act s e stop (v # vs) x = Some ((case u of None \<Rightarrow> [] | Some u \<Rightarrow> [u]) @ r, y)"
  using assms by (subst vma_loop.simps) (auto simp: Let_def split: option.split if_splits)

text \<open>An area outside the range stays, an area inside is given to \<open>act\<close>.\<close>

lemma vma_loop_pass:
  assumes "stop \<noteq> Some (vstart v)" "area_ok v" "page_size dvd s" "page_size dvd e" "\<forall>w \<in> set vs. vend v \<le> vstart w"
    and "vend v \<le> s \<or> e \<le> vstart v" "s < e" "vma_loop skip act s e stop vs x = Some (r, y)"
  shows "vma_loop skip act s e stop (v # vs) x = Some (v # r, y)"
proof (cases "skip v")
  case False
  have "vma_split s (vma_split e (v # vs)) = v # vs"
    using vma_split_head [OF assms(2,3,5)] vma_split_head [OF assms(2,4,5)] assms(6,7) by auto
  moreover have "\<not> contains s e v" using assms(6,7) area_okD(4) [OF assms(2)] by (auto simp: contains_def)
  ultimately show ?thesis using vma_loop_split [of stop v skip s e vs v vs act x "Some v" x r y] assms(1,8) False by simp
next
  case True
  then show ?thesis using assms(1,8) by (simp add: vma_loop_skip)
qed

lemma vma_loop_inside:
  assumes "stop \<noteq> Some (vstart v)" "\<not> skip v" "area_ok v" "page_size dvd s" "page_size dvd e" "\<forall>w \<in> set vs. vend v \<le> vstart w"
    and "s \<le> vstart v" "vend v \<le> e" "act v x = (u, x')" "vma_loop skip act s e stop vs x' = Some (r, y)"
  shows "vma_loop skip act s e stop (v # vs) x = Some ((case u of None \<Rightarrow> [] | Some u \<Rightarrow> [u]) @ r, y)"
proof -
  have "vma_split s (vma_split e (v # vs)) = v # vs"
    using vma_split_head [OF assms(3,4,6)] vma_split_head [OF assms(3,5,6)] assms(7,8) by auto
  moreover have "contains s e v" using assms(7,8) by (auto simp: contains_def)
  ultimately show ?thesis
    using vma_loop_split [of stop v skip s e vs v vs act x u x' r y] assms(1,2,9,10) by simp
qed

text \<open>An area that intersects the range is replaced by its pieces.\<close>

lemma vma_loop_area:
  assumes "stop = Some t" "vend v \<le> t" "area_ok v" "page_size dvd s" "page_size dvd e" "s < e"
    and vs: "\<forall>w \<in> set vs. vend v \<le> vstart w" and "vstart v < e" "s < vend v"
    and skip: "\<And>a b. skip (v \<lparr> vstart := a, vend := b \<rparr>) = skip v"
    and ps: "pieces skip act s e v x = (ps, x')" and r: "vma_loop skip act s e stop vs x' = Some (r, y)"
  shows "vma_loop skip act s e stop (v # vs) x = Some (ps @ r, y)"
proof (cases "skip v")
  case True
  have "stop \<noteq> Some (vstart v)" using assms(1,2) area_okD(4) [OF assms(3)] by auto
  then show ?thesis using True ps r by (auto simp: pieces_def vma_loop_skip)
next
  case False
  define w where "w = v \<lparr> vstart := max (vstart v) s, vend := min (vend v) e \<rparr>"
  define A where "A = (if e < vend v then [v \<lparr> vstart := e \<rparr>] else [])"
  obtain u where u: "act w x = (u, x')" "ps = (if vstart v < s then [v \<lparr> vend := s \<rparr>] else []) @ (case u of None \<Rightarrow> [] | Some u \<Rightarrow> [u]) @ A"
    using ps False by (auto simp: pieces_def w_def [symmetric] A_def [symmetric] split: prod.splits)
  note a = area_okD [OF assms(3)]
  have st: "\<And>b. b < vend v \<Longrightarrow> stop \<noteq> Some b" using assms(1,2) by auto
  have ok: "area_ok w" "area_ok (v \<lparr> vend := min (vend v) e \<rparr>)" using assms(3-9) by (auto simp: area_ok_def w_def max_def min_def)
  have A: "vma_loop skip act s e stop (A @ vs) x' = Some (A @ r, y)"
  proof (cases "e < vend v")
    case True
    then have "vma_loop skip act s e stop (v \<lparr> vstart := e \<rparr> # vs) x' = Some (v \<lparr> vstart := e \<rparr> # r, y)"
      by (intro vma_loop_pass) (use assms a st True in \<open>auto simp: area_ok_def\<close>)
    then show ?thesis using True by (simp add: A_def)
  qed (use r in \<open>simp add: A_def\<close>)
  have n: "\<forall>z \<in> set (A @ vs). vend w \<le> vstart z" using vs by (auto simp: A_def w_def)
  have W: "vma_loop skip act s e stop (w # A @ vs) x = Some ((case u of None \<Rightarrow> [] | Some u \<Rightarrow> [u]) @ A @ r, y)"
    by (rule vma_loop_inside [OF _ _ ok(1) assms(4,5) n _ _ u(1) A])
      (use st False assms(6,8,9) a skip in \<open>auto simp: w_def\<close>)
  have sp: "vma_split e (v # vs) = v \<lparr> vend := min (vend v) e \<rparr> # A @ vs"
    using vma_split_head [OF assms(3,5) vs] assms(8) by (auto simp: A_def min_def)
  show ?thesis
  proof (cases "vstart v < s")
    case True
    have "vma_split s (vma_split e (v # vs)) = v \<lparr> vend := s \<rparr> # w # A @ vs"
      unfolding sp using vma_split_head [OF ok(2) assms(4), of "A @ vs"] n assms(6,9) True by (auto simp: w_def)
    moreover have "\<not> contains s e (v \<lparr> vend := s \<rparr>)" using True by (simp add: contains_def)
    ultimately show ?thesis
      using vma_loop_split [of stop v skip s e vs "v \<lparr> vend := s \<rparr>" "w # A @ vs" act x "Some (v \<lparr> vend := s \<rparr>)" x] W st [OF a(4)] False True u(2)
      by simp
  next
    case False
    then have w: "w = v \<lparr> vend := min (vend v) e \<rparr>" by (simp add: w_def)
    have "vma_split s (vma_split e (v # vs)) = w # A @ vs"
      unfolding sp using vma_split_head [OF ok(2) assms(4), of "A @ vs"] n False w by auto
    moreover have "contains s e w" using False by (auto simp: contains_def w)
    ultimately show ?thesis
      using vma_loop_split [of stop v skip s e vs w "A @ vs" act x u x' "A @ r" y] A st [OF a(4)] \<open>\<not> skip v\<close> False u by simp
  qed
qed

lemma vma_loop_run:
  assumes "areas_ok vs" "\<forall>v \<in> set vs. vstart v < e \<and> s < vend v \<and> vend v \<le> vstart t" "page_size dvd s" "page_size dvd e" "s < e"
    and "\<forall>v \<in> set vs. \<forall>w \<in> set ts. vend v \<le> vstart w"
    and skip: "\<And>v a b. skip (v \<lparr> vstart := a, vend := b \<rparr>) = skip v"
    and "run_pieces skip act s e vs x = (r, y)"
  shows "vma_loop skip act s e (Some (vstart t)) (vs @ t # ts) x = Some (r @ t # ts, y)"
  using assms(1,2,6,8)
proof (induction vs arbitrary: x r)
  case Nil
  then show ?case by (simp add: vma_loop_stop)
next
  case (Cons v vs)
  obtain ps x1 where ps: "pieces skip act s e v x = (ps, x1)" by fastforce
  obtain r1 y1 where r1: "run_pieces skip act s e vs x1 = (r1, y1)" by fastforce
  have r: "r = ps @ r1" "y1 = y" using Cons.prems(4) ps r1 by auto
  have "vma_loop skip act s e (Some (vstart t)) (vs @ t # ts) x1 = Some (r1 @ t # ts, y)"
    by (rule Cons.IH) (use Cons.prems r1 r in \<open>auto simp: areas_ok_Cons\<close>)
  then have "vma_loop skip act s e (Some (vstart t)) (v # vs @ t # ts) x = Some (ps @ r1 @ t # ts, y)"
    by (intro vma_loop_area [OF refl _ _ assms(3-5) _ _ _ skip ps]) (use Cons.prems in \<open>auto simp: areas_ok_Cons\<close>)
  then show ?case using r by simp
qed

section \<open>The areas that intersect a range\<close>

definition areas_below :: "nat \<Rightarrow> vma list \<Rightarrow> vma list" where
  "areas_below s as = takeWhile (\<lambda>v. vend v \<le> s) as"

definition areas_in :: "nat \<Rightarrow> nat \<Rightarrow> vma list \<Rightarrow> vma list" where
  "areas_in s e as = takeWhile (\<lambda>v. vstart v < e) (dropWhile (\<lambda>v. vend v \<le> s) as)"

definition areas_above :: "nat \<Rightarrow> nat \<Rightarrow> vma list \<Rightarrow> vma list" where
  "areas_above s e as = dropWhile (\<lambda>v. vstart v < e) (dropWhile (\<lambda>v. vend v \<le> s) as)"

lemma areas_split: "as = areas_below s as @ areas_in s e as @ areas_above s e as"
  by (simp add: areas_below_def areas_in_def areas_above_def)

lemma areas_ok_vend: "areas_ok vs \<Longrightarrow> v \<in> set (dropWhile (\<lambda>v. vend v \<le> s) vs) \<Longrightarrow> s < vend v"
proof (induction vs)
  case (Cons a vs)
  show ?case
  proof (cases "vend a \<le> s")
    case False
    then have "v = a \<or> vend a \<le> vstart v \<and> area_ok v" using Cons.prems by (auto simp: areas_ok_Cons areas_ok_def)
    then show ?thesis using False by (auto simp: area_ok_def)
  qed (use Cons in \<open>simp add: areas_ok_Cons\<close>)
qed simp

lemma areas_ok_vstart: "areas_ok vs \<Longrightarrow> v \<in> set (dropWhile (\<lambda>v. vstart v < e) vs) \<Longrightarrow> e \<le> vstart v"
proof (induction vs)
  case (Cons a vs)
  show ?case
  proof (cases "vstart a < e")
    case False
    then show ?thesis using Cons.prems by (auto simp: areas_ok_Cons area_ok_def)
  qed (use Cons in \<open>simp add: areas_ok_Cons\<close>)
qed simp

lemma areas_ok_dropWhile: "areas_ok vs \<Longrightarrow> areas_ok (dropWhile P vs)"
  by (induction vs) (auto simp: areas_ok_Cons)

lemma areas_parts:
  assumes "areas_ok as"
  shows "\<forall>v \<in> set (areas_below s as). vend v \<le> s" "\<forall>v \<in> set (areas_in s e as). vstart v < e \<and> s < vend v"
    "\<forall>v \<in> set (areas_above s e as). e \<le> vstart v"
  using assms areas_ok_vend [OF assms] areas_ok_vstart [OF areas_ok_dropWhile [OF assms]]
  by (auto simp: areas_below_def areas_in_def areas_above_def dest: set_takeWhileD)

lemma lower_bound_append: "\<forall>v \<in> set us. vstart v < a \<Longrightarrow> lower_bound a (us @ vs) = length us + lower_bound a vs"
  by (simp add: lower_bound_def)

lemma lower_bound_0: "vs = [] \<or> a \<le> vstart (hd vs) \<Longrightarrow> lower_bound a vs = 0"
  by (cases vs) (auto simp: lower_bound_def)

lemma find_intersecting_vmas_edges:
  assumes "areas_ok as" "0 < s" "s < e" "e \<le> upper_vma_limit"
  shows "find_intersecting_vmas s e (lower_edge # as @ [upper_edge]) =
    (let n = Suc (length (areas_below s as)) in
     if areas_in s e as = [] then Some (length as + 2, length as + 2) else Some (n, n + length (areas_in s e as)))"
proof -
  define b m u where "b = areas_below s as" "m = areas_in s e as" "u = areas_above s e as"
  note df = b_m_u_def
  have as: "as = b @ m @ u" unfolding df by (rule areas_split)
  have ok: "areas_ok b" "areas_ok m" "areas_ok u" using assms(1) as by (simp_all add: areas_ok_append)
  have B: "\<forall>v \<in> set b. vend v \<le> s \<and> vstart v < s" using areas_parts(1) [OF assms(1)] ok(1) by (fastforce simp: df areas_ok_def area_ok_def)
  have M: "\<forall>v \<in> set m. vstart v < e \<and> s < vend v" using areas_parts(2) [OF assms(1)] by (simp add: df)
  have U: "\<forall>v \<in> set u. e \<le> vstart v" using areas_parts(3) [OF assms(1)] by (simp add: df)
  have pb: "vend ((lower_edge # b) ! length b) \<le> s"
    using B assms(2) by (cases b rule: rev_cases) (auto simp: nth_append)
  have lb: "lower_bound x (lower_edge # as @ [upper_edge]) = Suc (length b) + lower_bound x (m @ u @ [upper_edge])" if "s \<le> x" for x
  proof -
    have "\<forall>v \<in> set (lower_edge # b). vstart v < x" using B assms(2) that by fastforce
    then show ?thesis using lower_bound_append [of "lower_edge # b" x "m @ u @ [upper_edge]"] by (simp add: as)
  qed
  have he: "lower_bound e (m @ u @ [upper_edge]) = length m"
    using lower_bound_append [of m e "u @ [upper_edge]"] lower_bound_0 [of "u @ [upper_edge]" e] M U assms(4) by (cases u) auto
  have "find_intersecting_vmas s e (lower_edge # as @ [upper_edge]) =
    (let n = Suc (length b) in if m = [] then Some (length as + 2, length as + 2) else Some (n, n + length m))"
  proof (cases m)
    case Nil
    have "lower_bound s (u @ [upper_edge]) = 0" using lower_bound_0 [of "u @ [upper_edge]" s] U assms(3,4) by (cases u) auto
    moreover have "e \<le> vstart ((u @ [upper_edge]) ! 0)" using U assms(4) by (cases u) auto
    ultimately show ?thesis
      using lb [of s] Nil pb assms(3) by (auto simp: find_intersecting_vmas_def Let_def as nth_append nth_Cons')
  next
    case (Cons v m')
    then have v: "vstart v < e" "s < vend v" using M by auto
    show ?thesis
    proof (cases "vstart v < s")
      case True
      have "\<forall>w \<in> set (m' @ u). vend v \<le> vstart w"
        using assms(1) unfolding as Cons by (auto simp: areas_ok_append areas_ok_Cons)
      then have n: "\<forall>w \<in> set (m' @ u @ [upper_edge]). s < vstart w"
        using v assms(3,4) by (auto intro: less_le_trans)
      then have "lower_bound s (m @ u @ [upper_edge]) = 1"
        using lower_bound_append [of "[v]" s "m' @ u @ [upper_edge]"] lower_bound_0 [of "m' @ u @ [upper_edge]" s] True Cons
        by (cases m'; cases u) auto
      moreover have "s < vstart ((m' @ u @ [upper_edge]) ! 0)" using n nth_mem [of 0 "m' @ u @ [upper_edge]"] by auto
      ultimately show ?thesis
        using lb [of s] lb [of e] he assms(3) v Cons
        by (auto simp: find_intersecting_vmas_def Let_def as nth_append nth_Cons')
    next
      case False
      have "lower_bound s (m @ u @ [upper_edge]) = 0" using False Cons lower_bound_0 [of "m @ u @ [upper_edge]" s] by auto
      then show ?thesis
        using lb [of s] lb [of e] he assms(3) v Cons pb False
        by (auto simp: find_intersecting_vmas_def Let_def as nth_append nth_Cons')
    qed
  qed
  then show ?thesis by (simp only: df)
qed

lemma vma_range_loop_edges:
  assumes "areas_ok as" "0 < s" "s < e" "e \<le> upper_vma_limit" "page_size dvd s" "page_size dvd e"
    and skip: "\<And>v a b. skip (v \<lparr> vstart := a, vend := b \<rparr>) = skip v"
    and run: "run_pieces skip act s e (areas_in s e as) x = (r, y)"
  shows "vma_range_loop skip act s e (lower_edge # as @ [upper_edge]) x =
    Some (lower_edge # (areas_below s as @ r @ areas_above s e as) @ [upper_edge], y)"
proof (cases "areas_in s e as = []")
  case True
  have "vma_loop skip act s e None [] x = Some ([], x)" by (subst vma_loop.simps) simp
  moreover have "as = areas_below s as @ areas_above s e as" using areas_split [of as s e] True by simp
  ultimately show ?thesis
    using find_intersecting_vmas_edges [OF assms(1-4)] True run by (simp add: vma_range_loop_def Let_def)
next
  case False
  define b m u where "b = areas_below s as" "m = areas_in s e as" "u = areas_above s e as"
  note df = b_m_u_def
  have as: "as = b @ m @ u" unfolding df by (rule areas_split)
  obtain t ts where t: "u @ [upper_edge] = t # ts" by (cases "u @ [upper_edge]") auto
  have ok: "areas_ok m" "\<forall>v \<in> set m. \<forall>w \<in> set u. vend v \<le> vstart w" using assms(1) as by (auto simp: areas_ok_append)
  then have ok': "\<forall>v \<in> set m. \<forall>w \<in> set (u @ [upper_edge]). vend v \<le> vstart w" by (auto simp: areas_ok_def area_ok_def)
  have "vma_loop skip act s e (Some (vstart t)) (m @ t # ts) x = Some (r @ t # ts, y)"
    by (rule vma_loop_run [OF _ _ assms(5,6,3) _ skip run [folded df]])
      (use ok(1) ok' [unfolded t] areas_parts(2) [OF assms(1), of s e] in \<open>auto simp: df(2)\<close>)
  moreover have "find_intersecting_vmas s e (lower_edge # as @ [upper_edge]) = Some (Suc (length b), Suc (length b) + length m)"
    using find_intersecting_vmas_edges [OF assms(1-4)] False by (simp add: df Let_def)
  moreover have "drop (length b) (as @ [upper_edge]) = m @ t # ts" "take (length b) (as @ [upper_edge]) = b"
    "(lower_edge # as @ [upper_edge]) ! (Suc (length b) + length m) = t" "length b + length m < Suc (length as)"
    using t by (simp_all add: as nth_append)
  ultimately show ?thesis using t by (simp add: vma_range_loop_def df [symmetric])
qed

section \<open>What the loops mean\<close>

text \<open>\<open>act\<close> changes the attributes of the area it is given as \<open>f\<close> says, and \<open>skip\<close> passes over areas
  that \<open>f\<close> does not change.\<close>

definition acts_as ::
  "(vma \<Rightarrow> bool) \<Rightarrow> (vma \<Rightarrow> 'x \<Rightarrow> vma option \<times> 'x) \<Rightarrow> (u32 \<times> u32 \<Rightarrow> (u32 \<times> u32) option) \<Rightarrow> bool" where
  "acts_as skip act f \<longleftrightarrow>
     (\<forall>v a b. skip (v \<lparr> vstart := a, vend := b \<rparr>) = skip v) \<and>
     (\<forall>v. skip v \<longrightarrow> f (vperm v, vflags v) = Some (vperm v, vflags v)) \<and>
     (\<forall>v x. fst (act v x) = map_option (\<lambda>(p, fl). v \<lparr> vperm := p, vflags := fl \<rparr>) (f (vperm v, vflags v)))"

lemma pieces_acts:
  assumes "acts_as skip act f" "pieces skip act s e v x = (r, y)" "\<not> skip v"
  shows "r = (if vstart v < s then [v \<lparr> vend := s \<rparr>] else []) @
    (case f (vperm v, vflags v) of None \<Rightarrow> []
     | Some (p, fl) \<Rightarrow> [v \<lparr> vstart := max (vstart v) s, vend := min (vend v) e, vperm := p, vflags := fl \<rparr>]) @
    (if e < vend v then [v \<lparr> vstart := e \<rparr>] else [])"
proof -
  define w where "w = v \<lparr> vstart := max (vstart v) s, vend := min (vend v) e \<rparr>"
  obtain u z where u: "act w x = (u, z)" by fastforce
  then have "u = map_option (\<lambda>(p, fl). w \<lparr> vperm := p, vflags := fl \<rparr>) (f (vperm w, vflags w))"
    using assms(1) unfolding acts_as_def by (metis fst_conv)
  moreover have "r = (if vstart v < s then [v \<lparr> vend := s \<rparr>] else []) @ (case u of None \<Rightarrow> [] | Some w \<Rightarrow> [w]) @
      (if e < vend v then [v \<lparr> vstart := e \<rparr>] else [])"
    using assms(2,3) u by (simp add: pieces_def w_def [symmetric])
  ultimately show ?thesis by (cases "f (vperm v, vflags v)") (auto simp: w_def)
qed

lemma pieces_ok:
  assumes "acts_as skip act f" "area_ok v" "page_size dvd s" "page_size dvd e" "s < e" "vstart v < e" "s < vend v"
    and "pieces skip act s e v x = (r, y)"
  shows "areas_ok r" "\<forall>w \<in> set r. vstart v \<le> vstart w \<and> vend w \<le> vend v"
proof -
  note v = area_okD [OF assms(2)]
  have "areas_ok r \<and> (\<forall>w \<in> set r. vstart v \<le> vstart w \<and> vend w \<le> vend v)"
  proof (cases "skip v")
    case True
    then show ?thesis using assms(2,8) by (auto simp: pieces_def areas_ok_def)
  next
    case False
    note r = pieces_acts [OF assms(1,8) False]
    define L where "L = (if vstart v < s then [v \<lparr> vend := s \<rparr>] else [])"
    define H where "H = (if e < vend v then [v \<lparr> vstart := e \<rparr>] else [])"
    define M where "M = (case f (vperm v, vflags v) of None \<Rightarrow> []
      | Some (p, fl) \<Rightarrow> [v \<lparr> vstart := max (vstart v) s, vend := min (vend v) e, vperm := p, vflags := fl \<rparr>])"
    have l: "areas_ok L" "\<forall>w \<in> set L. vstart w = vstart v \<and> vend w = s"
      using v assms(3,7) by (auto simp: L_def areas_ok_def area_ok_def)
    have h: "areas_ok H" "\<forall>w \<in> set H. vstart w = e \<and> vend w = vend v"
      using v assms(4,6) by (auto simp: H_def areas_ok_def area_ok_def)
    have m: "areas_ok M" "\<forall>w \<in> set M. vstart w = max (vstart v) s \<and> vend w = min (vend v) e"
      using v assms(3-7) by (cases "f (vperm v, vflags v)"; auto simp: M_def areas_ok_def area_ok_def max_def min_def)+
    have L: "L \<noteq> [] \<Longrightarrow> vstart v < s" and H: "H \<noteq> [] \<Longrightarrow> e < vend v" by (auto simp: L_def H_def split: if_splits)
    have "r = L @ M @ H" using r by (simp add: L_def M_def H_def)
    moreover have "\<forall>u \<in> set M. \<forall>w \<in> set H. vend u \<le> vstart w" using m(2) h(2) by simp
    moreover have "\<forall>u \<in> set L. \<forall>w \<in> set (M @ H). vend u \<le> vstart w" using l(2) m(2) h(2) assms(5) by auto
    moreover have "\<forall>w \<in> set L. vend w \<le> vend v" using l(2) assms(7) by auto
    moreover have "\<forall>w \<in> set H. vstart v \<le> vstart w" using h(2) assms(6) by auto
    ultimately show ?thesis using l m h by (simp add: areas_ok_append ball_Un)
  qed
  then show "areas_ok r" "\<forall>w \<in> set r. vstart v \<le> vstart w \<and> vend w \<le> vend v" by blast+
qed

lemma pieces_attr:
  assumes "acts_as skip act f" "area_ok v" "s < e" "vstart v < e" "s < vend v" "pieces skip act s e v x = (r, y)"
  shows "attr r a = (if s \<le> a \<and> a < e then Option.bind (attr [v] a) f else attr [v] a)"
proof (cases "skip v")
  case True
  then have "r = [v]" "f (vperm v, vflags v) = Some (vperm v, vflags v)" using assms(1,6) by (auto simp: pieces_def acts_as_def)
  then show ?thesis by (simp add: attr_Cons)
next
  case False
  show ?thesis
    unfolding pieces_acts [OF assms(1,6) False] using assms(2-5) area_okD(4) [OF assms(2)]
    by (cases "f (vperm v, vflags v)") (auto simp: attr_Cons covers_def)
qed

lemma run_pieces_ok:
  assumes "acts_as skip act f" "page_size dvd s" "page_size dvd e" "s < e" "areas_ok vs" "\<forall>v \<in> set vs. vstart v < e \<and> s < vend v"
    and "run_pieces skip act s e vs x = (r, y)"
  shows "areas_ok r \<and> (\<forall>w \<in> set r. \<exists>v \<in> set vs. vstart v \<le> vstart w \<and> vend w \<le> vend v) \<and>
    attr r a = (if s \<le> a \<and> a < e then Option.bind (attr vs a) f else attr vs a)"
  using assms(5-7)
proof (induction vs arbitrary: x r)
  case (Cons v vs)
  obtain ps x1 where ps: "pieces skip act s e v x = (ps, x1)" by fastforce
  obtain r1 y1 where r1: "run_pieces skip act s e vs x1 = (r1, y1)" by fastforce
  have r: "r = ps @ r1" "y1 = y" using Cons.prems(3) ps r1 by auto
  have v: "area_ok v" "areas_ok vs" "\<forall>w \<in> set vs. vend v \<le> vstart w" "vstart v < e" "s < vend v"
    using Cons.prems(1,2) by (auto simp: areas_ok_Cons)
  note p = pieces_ok [OF assms(1) v(1) assms(2-4) v(4,5) ps] pieces_attr [OF assms(1) v(1) assms(4) v(4,5) ps]
  have ih: "areas_ok r1 \<and> (\<forall>w \<in> set r1. \<exists>v \<in> set vs. vstart v \<le> vstart w \<and> vend w \<le> vend v) \<and>
      attr r1 a = (if s \<le> a \<and> a < e then Option.bind (attr vs a) f else attr vs a)"
    by (rule Cons.IH) (use Cons.prems v r1 r in auto)
  have "\<forall>u \<in> set ps. \<forall>w \<in> set r1. vend u \<le> vstart w" using p(2) ih v(3) by (meson order_trans)
  then have "areas_ok r" using p(1) ih by (simp add: r(1) areas_ok_append)
  moreover have "\<forall>w \<in> set r. \<exists>u \<in> set (v # vs). vstart u \<le> vstart w \<and> vend w \<le> vend u" using p(2) ih r(1) by auto
  moreover have "covers a v \<Longrightarrow> attr vs a = None" using v(3) by (fastforce simp: attr_None_iff covers_def)
  then have "attr r a = (if s \<le> a \<and> a < e then Option.bind (attr (v # vs) a) f else attr (v # vs) a)"
    using ih p(3) by (cases "covers a v") (auto simp: r(1) attr_append attr_Cons split: option.splits)
  ultimately show ?case by blast
qed (simp add: areas_ok_def)

text \<open>The loop over a range inside the address space changes the attributes inside the range as \<open>f\<close>
  says and nothing else, and keeps the list well formed.\<close>

lemma vma_range_loop_spec:
  assumes "acts_as skip act f" "areas_ok as" "0 < s" "s < e" "e \<le> upper_vma_limit" "page_size dvd s" "page_size dvd e"
    and "run_pieces skip act s e (areas_in s e as) x = (r, y)"
  shows "\<exists>as'. vma_range_loop skip act s e (lower_edge # as @ [upper_edge]) x = Some (lower_edge # as' @ [upper_edge], y) \<and>
    areas_ok as' \<and> (\<forall>a. attr as' a = (if s \<le> a \<and> a < e then Option.bind (attr as a) f else attr as a))"
proof -
  define b m u where "b = areas_below s as" "m = areas_in s e as" "u = areas_above s e as"
  note df = b_m_u_def
  have as: "as = b @ m @ u" unfolding df by (rule areas_split)
  have sk: "\<And>v a b. skip (v \<lparr> vstart := a, vend := b \<rparr>) = skip v" using assms(1) by (auto simp: acts_as_def)
  note parts = areas_parts [OF assms(2), of s] areas_parts(2,3) [OF assms(2), of s e]
  have ok: "areas_ok b" "areas_ok m" "areas_ok u" "\<forall>v \<in> set b. \<forall>w \<in> set m. vend v \<le> vstart w"
      "\<forall>v \<in> set m. \<forall>w \<in> set u. vend v \<le> vstart w" "\<forall>v \<in> set b. \<forall>w \<in> set u. vend v \<le> vstart w"
    using assms(2) as by (auto simp: areas_ok_append)
  have m: "\<forall>v \<in> set m. vstart v < e \<and> s < vend v" using parts by (simp add: df)
  note run = run_pieces_ok [OF assms(1,6,7,4) ok(2) m assms(8) [folded df]]
  have "areas_ok (b @ r @ u)" using run ok by (auto simp: areas_ok_append) (meson order_trans)+
  moreover have "attr (b @ r @ u) a = (if s \<le> a \<and> a < e then Option.bind (attr as a) f else attr as a)" for a
  proof -
    have "\<forall>v \<in> set b. vend v \<le> s" "\<forall>v \<in> set u. e \<le> vstart v" using parts by (simp_all add: df)
    then have "s \<le> a \<and> a < e \<Longrightarrow> attr b a = None \<and> attr u a = None" by (fastforce simp: attr_None_iff covers_def)
    then show ?thesis using run [of a] by (auto simp: as attr_append split: option.splits)
  qed
  ultimately show ?thesis
    using vma_range_loop_edges [where act = act and skip = skip, OF assms(2-7) sk assms(8)] by (auto simp: df)
qed

lemma in_pages_area:
  assumes "area_ok w"
  shows "in_pages (vstart w) (vma_size w) p \<longleftrightarrow> covers p w"
proof -
  note w = area_okD [OF assms]
  have "vma_size w = vend w - vstart w" using w limit_less(2) [OF w(5)] by (simp add: vma_size_def)
  moreover have "page_size dvd vend w - vstart w" using w by (simp add: dvd_diff_nat)
  moreover have "page_size \<le> vend w - vstart w" using dvd_add_le [OF w(1,2,4)] by simp
  moreover have "up64 (vend w - vstart w) page_size = vend w - vstart w"
    by (rule up64_page) (use w calculation in auto)
  ultimately show ?thesis using w by (auto simp: in_pages_def covers_def)
qed

section \<open>Unmapping, protection and the mapped test\<close>

lemma evacuate_area_pair [simp]:
  "evacuate_area v (present, ret) = (None, unpopulate (vstart v) (vma_size v) present, ret + populated_bytes v present)"
  by (simp add: evacuate_area_def)

lemma evacuate_pages:
  assumes "areas_ok vs" "\<forall>v \<in> set vs. vstart v < e \<and> s < vend v" "s < e" "page_size dvd s" "page_size dvd e"
    and "run_pieces (\<lambda>v. False) evacuate_area s e vs (present, ret) = (r, present', ret')"
  shows "present' p \<longleftrightarrow> present p \<and> \<not> (s \<le> p \<and> p < e \<and> attr vs p \<noteq> None)"
  using assms(1,2,6)
proof (induction vs arbitrary: present ret r)
  case (Cons v vs)
  define w where "w = v \<lparr> vstart := max (vstart v) s, vend := min (vend v) e \<rparr>"
  have v: "area_ok v" "areas_ok vs" "vstart v < e" "s < vend v" using Cons.prems(1,2) by (auto simp: areas_ok_Cons)
  have w: "area_ok w" using v assms(3-5) by (auto simp: area_ok_def w_def max_def min_def)
  obtain r1 where r1: "run_pieces (\<lambda>v. False) evacuate_area s e vs (unpopulate (vstart w) (vma_size w) present, ret + populated_bytes w present) = (r1, present', ret')"
    using Cons.prems(3) by (auto simp: pieces_def w_def [symmetric] split: prod.splits)
  have "present' p \<longleftrightarrow> unpopulate (vstart w) (vma_size w) present p \<and> \<not> (s \<le> p \<and> p < e \<and> attr vs p \<noteq> None)"
    by (rule Cons.IH [OF v(2) _ r1]) (use Cons.prems(2) in simp)
  moreover have "covers p w \<longleftrightarrow> covers p v \<and> s \<le> p \<and> p < e" by (auto simp: w_def covers_def)
  ultimately show ?case by (auto simp: unpopulate_def in_pages_area [OF w] attr_Cons)
qed simp

lemma evacuate_spec:
  assumes "areas_ok as" "0 < s" "s < e" "e \<le> upper_vma_limit" "page_size dvd s" "page_size dvd e"
  shows "\<exists>ret as' present'. evacuate s e (lower_edge # as @ [upper_edge]) present = Some (ret, lower_edge # as' @ [upper_edge], present') \<and>
    areas_ok as' \<and> (\<forall>a. attr as' a = (if s \<le> a \<and> a < e then None else attr as a)) \<and>
    (\<forall>p. present' p \<longleftrightarrow> present p \<and> \<not> (s \<le> p \<and> p < e \<and> attr as p \<noteq> None))"
proof -
  obtain r present' ret where run: "run_pieces (\<lambda>v. False) evacuate_area s e (areas_in s e as) (present, 0) = (r, present', ret)"
    by (metis prod_cases3)
  have acts: "acts_as (\<lambda>v. False) evacuate_area (\<lambda>x. None)"
    by (simp add: acts_as_def evacuate_area_def Let_def)
  note split = areas_split [of as s e]
  have ok: "areas_ok (areas_in s e as)" using assms(1) split by (metis areas_ok_append)
  have "attr as p = attr (areas_in s e as) p" if "s \<le> p" "p < e" for p
  proof -
    have "attr (areas_below s as) p = None" "attr (areas_above s e as) p = None"
      using areas_parts [OF assms(1)] that by (fastforce simp: attr_None_iff covers_def)+
    then show ?thesis
      using arg_cong [where f = "\<lambda>x. attr x p", OF split] by (simp add: attr_append split: option.splits)
  qed
  then have pr: "\<forall>p. present' p \<longleftrightarrow> present p \<and> \<not> (s \<le> p \<and> p < e \<and> attr as p \<noteq> None)"
    using evacuate_pages [OF ok areas_parts(2) [OF assms(1)] assms(3,5,6) run] by auto
  obtain as' where l: "vma_range_loop (\<lambda>v. False) evacuate_area s e (lower_edge # as @ [upper_edge]) (present, 0) =
      Some (lower_edge # as' @ [upper_edge], present', ret)" "areas_ok as'"
      "\<forall>a. attr as' a = (if s \<le> a \<and> a < e then Option.bind (attr as a) (\<lambda>x. None) else attr as a)"
    using vma_range_loop_spec [OF acts assms run] by blast
  then have "evacuate s e (lower_edge # as @ [upper_edge]) present = Some (ret, lower_edge # as' @ [upper_edge], present')"
    by (simp add: evacuate_def)
  moreover have "\<forall>a. attr as' a = (if s \<le> a \<and> a < e then None else attr as a)" using l(3) by simp
  ultimately show ?thesis using l(2) pr by blast
qed

lemma protect_spec:
  assumes "areas_ok as" "0 < s" "0 < sz" "s + sz \<le> upper_vma_limit" "page_size dvd s" "page_size dvd sz"
  shows "\<exists>as'. protect s sz perm (lower_edge # as @ [upper_edge]) = Some (lower_edge # as' @ [upper_edge]) \<and> areas_ok as' \<and>
    (\<forall>a. attr as' a = (if s \<le> a \<and> a < s + sz then map_option (\<lambda>(_, fl). (perm, fl)) (attr as a) else attr as a))"
proof -
  define e where "e = s + sz"
  define f where "f = (\<lambda>x :: u32 \<times> u32. Some (perm, snd x))"
  obtain r y where run: "run_pieces (\<lambda>v. vperm v = perm) (protect_area perm) s e (areas_in s e as) () = (r, y)"
    by (metis surj_pair)
  have acts: "acts_as (\<lambda>v. vperm v = perm) (protect_area perm) f"
    by (simp add: acts_as_def protect_area_def f_def)
  have e: "add64 s sz = e" "s < e" "e \<le> upper_vma_limit" "page_size dvd e" using assms limit_less(2) by (simp_all add: e_def)
  obtain as' where as': "vma_range_loop (\<lambda>v. vperm v = perm) (protect_area perm) s e (lower_edge # as @ [upper_edge]) () =
      Some (lower_edge # as' @ [upper_edge], y)" "areas_ok as'"
      "\<forall>a. attr as' a = (if s \<le> a \<and> a < e then Option.bind (attr as a) f else attr as a)"
    using vma_range_loop_spec [OF acts assms(1,2) e(2,3) assms(5) e(4) run] by blast
  have "Option.bind z f = map_option (\<lambda>(_, fl). (perm, fl)) z" for z by (cases z) (simp_all add: f_def split_beta)
  then have "\<forall>a. attr as' a = (if s \<le> a \<and> a < e then map_option (\<lambda>(_, fl). (perm, fl)) (attr as a) else attr as a)"
    using as'(3) by simp
  moreover have "protect s sz perm (lower_edge # as @ [upper_edge]) = Some (lower_edge # as' @ [upper_edge])"
    using as'(1) e(1) by (simp add: protect_def)
  ultimately show ?thesis using as'(2) unfolding e_def by blast
qed

lemma ismapped_loop_iff:
  "areas_ok vs \<Longrightarrow> \<forall>v \<in> set vs. s < vend v \<Longrightarrow> s < e \<Longrightarrow>
   ismapped_loop s e vs \<longleftrightarrow> (\<forall>a. s \<le> a \<and> a < e \<longrightarrow> (\<exists>v \<in> set vs. covers a v))"
proof (induction vs arbitrary: s)
  case Nil
  then show ?case by auto
next
  case (Cons v vs)
  have v: "area_ok v" "areas_ok vs" "\<forall>w \<in> set vs. vend v \<le> vstart w" using Cons.prems(1) by (auto simp: areas_ok_Cons)
  show ?case
  proof (cases "vstart v > s")
    case True
    then have "\<not> (\<exists>w \<in> set (v # vs). covers s w)" using v(1,3) by (fastforce simp: covers_def area_ok_def)
    then show ?thesis using True Cons.prems(3) by auto
  next
    case False
    show ?thesis
    proof (cases "vend v \<ge> e")
      case True
      then show ?thesis using False by (auto simp: covers_def)
    next
      case ne: False
      have "\<forall>w \<in> set vs. vend v < vend w" using v(2,3) by (fastforce simp: areas_ok_def area_ok_def)
      then have ih: "ismapped_loop (vend v) e vs \<longleftrightarrow> (\<forall>a. vend v \<le> a \<and> a < e \<longrightarrow> (\<exists>w \<in> set vs. covers a w))"
        using Cons.IH [OF v(2)] ne by simp
      have "covers a v \<longleftrightarrow> a < vend v" if "s \<le> a" for a using False that by (auto simp: covers_def)
      then have "(\<forall>a. s \<le> a \<and> a < e \<longrightarrow> (\<exists>w \<in> set (v # vs). covers a w)) \<longleftrightarrow>
          (\<forall>a. vend v \<le> a \<and> a < e \<longrightarrow> (\<exists>w \<in> set vs. covers a w))"
        using Cons.prems(2) by (metis linorder_not_less list.set_intros(1,2) order_less_imp_le order_trans set_ConsD)
      then show ?thesis using ih False ne by simp
    qed
  qed
qed

lemma ismapped_spec:
  assumes "areas_ok as" "0 < s" "0 < sz" "s + sz \<le> upper_vma_limit"
  shows "ismapped s sz (lower_edge # as @ [upper_edge]) = Some (\<forall>a. s \<le> a \<and> a < s + sz \<longrightarrow> attr as a \<noteq> None)"
proof -
  define b m u where "b = areas_below s as" "m = areas_in s (s + sz) as" "u = areas_above s (s + sz) as"
  note df = b_m_u_def
  have as: "as = b @ m @ u" unfolding df by (rule areas_split)
  have e: "add64 s sz = s + sz" using assms(4) limit_less(2) by simp
  have f: "find_intersecting_vmas s (s + sz) (lower_edge # as @ [upper_edge]) =
      (if m = [] then Some (length as + 2, length as + 2) else Some (Suc (length b), Suc (length b) + length m))"
    using find_intersecting_vmas_edges [OF assms(1,2) _ assms(4)] assms(3) by (simp add: df Let_def)
  have okm: "areas_ok m" using assms(1) as by (simp add: areas_ok_append)
  have "ismapped_loop s (s + sz) m \<longleftrightarrow> (\<forall>a. s \<le> a \<and> a < s + sz \<longrightarrow> (\<exists>v \<in> set m. covers a v))"
    using ismapped_loop_iff [OF okm] areas_parts(2) [OF assms(1)] assms(3) by (simp add: df)
  moreover have "(\<exists>v \<in> set m. covers a v) \<longleftrightarrow> attr as a \<noteq> None" if "s \<le> a" "a < s + sz" for a
  proof -
    have "\<forall>v \<in> set b \<union> set u. \<not> covers a v" using areas_parts [OF assms(1)] that by (fastforce simp: df covers_def)
    then show ?thesis by (auto simp: attr_None_iff as)
  qed
  ultimately have "ismapped_loop s (s + sz) m \<longleftrightarrow> (\<forall>a. s \<le> a \<and> a < s + sz \<longrightarrow> attr as a \<noteq> None)" by blast
  then show ?thesis using f e by (cases "m = []") (simp_all add: ismapped_def as)
qed

section \<open>The search for a hole is sound and complete\<close>

definition ranges_ok :: "(nat \<times> nat) list \<Rightarrow> bool" where
  "ranges_ok rs \<longleftrightarrow>
     sorted_wrt (\<lambda>p n. fst p < fst n \<and> snd p \<le> fst n) rs \<and>
     (\<forall>r \<in> set rs. fst r \<le> snd r \<and> page_size dvd snd r)"

text \<open>The hole at \<open>h\<close> lies below the limit and overlaps no range.\<close>

definition hole_fits :: "nat \<Rightarrow> (nat \<times> nat) list \<Rightarrow> nat \<Rightarrow> bool" where
  "hole_fits sz rs h \<longleftrightarrow> h + sz \<le> upper_vma_limit \<and> (\<forall>r \<in> set rs. snd r \<le> h \<or> h + sz \<le> fst r)"

lemma hole_between:
  assumes "ranges_ok (ds @ p # n # rs)" "snd p \<le> h" "h + sz \<le> fst n" "fst n \<le> upper_vma_limit"
  shows "hole_fits sz (ds @ p # n # rs) h"
proof -
  have "\<forall>r \<in> set ds. snd r \<le> snd p" "\<forall>r \<in> set rs. fst n \<le> fst r"
    using assms(1) by (fastforce simp: ranges_ok_def sorted_wrt_append)+
  then show ?thesis using assms(2-4) by (auto simp: hole_fits_def)
qed

lemma huge_facts: "page_size dvd huge_page_size" "0 < huge_page_size" "upper_vma_limit + huge_page_size \<le> 2 ^ 64"
  by (simp_all add: huge_page_size_def page_size_def pte_per_page_def upper_vma_limit_def)

lemma hole_huge:
  assumes "huge_page_size \<le> sz" "a + sz \<le> n" "n \<le> upper_vma_limit"
  shows "a \<le> up64 a huge_page_size" "up64 a huge_page_size \<le> n" "page_size dvd up64 a huge_page_size"
proof -
  have u: "up64 a huge_page_size = nalign_up a huge_page_size"
    by (rule up64_eq) (use assms huge_facts in auto)
  then show "a \<le> up64 a huge_page_size" "up64 a huge_page_size \<le> n"
    using nalign_up_ge [OF huge_facts(2), of a] nalign_up_lt [OF huge_facts(2), of a] assms(1,2) by auto
  show "page_size dvd up64 a huge_page_size"
    using u huge_facts(1) nalign_up_dvd dvd_trans by metis
qed

lemma hole_loop_sound:
  assumes "hole_loop start sz good (p # rs) = Some (Some h)" "ranges_ok (ds @ p # rs)" "start + sz < 2 ^ 64" "page_size dvd start"
    and "good \<noteq> 0 \<Longrightarrow> hole_fits sz (ds @ p # rs) good \<and> start \<le> good \<and> page_size dvd good"
  shows "hole_fits sz (ds @ p # rs) h \<and> start \<le> h \<and> page_size dvd h"
  using assms(1,2,5)
proof (induction rs arbitrary: p ds good)
  case (Cons n rs)
  have pn: "snd p \<le> fst n" "page_size dvd snd p" using Cons.prems(2) by (auto simp: ranges_ok_def sorted_wrt_append)
  have IH: "hole_loop start sz g (n # rs) = Some (Some h) \<Longrightarrow>
      (g \<noteq> 0 \<Longrightarrow> hole_fits sz (ds @ p # n # rs) g \<and> start \<le> g \<and> page_size dvd g) \<Longrightarrow>
      hole_fits sz (ds @ p # n # rs) h \<and> start \<le> h \<and> page_size dvd h" for g
    using Cons.IH [of g n "ds @ [p]"] Cons.prems(2) by simp
  note between = hole_between [OF Cons.prems(2)]
  show ?case
  proof (cases "fst n \<le> upper_vma_limit")
    case False
    then show ?thesis using Cons.prems(1,3) by (auto split: if_splits)
  next
    case n: True
    have sub: "b \<le> fst n \<Longrightarrow> sub64 (fst n) b = fst n - b" for b using limit_less(2) [OF n] by simp
    have hp: "hole_fits sz (ds @ p # n # rs) (snd p)" if "sub64 (fst n) (snd p) \<ge> sz"
      using between [of "snd p"] that sub [OF pn(1)] n pn(1) by simp
    show ?thesis
    proof (cases "start \<ge> snd p \<and> add64 start sz \<le> fst n")
      case True
      then show ?thesis using Cons.prems(1) n between [of start] assms(3,4) by auto
    next
      case ns: False
      show ?thesis
      proof (cases "snd p \<ge> start \<and> sub64 (fst n) (snd p) \<ge> sz")
        case False
        then have "hole_loop start sz good (n # rs) = Some (Some h)" using Cons.prems(1) n ns by auto
        then show ?thesis using IH Cons.prems(3) by blast
      next
        case sp: True
        note h = hp [OF conjunct2 [OF sp]]
        define H where "H = up64 (snd p) huge_page_size"
        consider (small) "sz < huge_page_size" | (huge) "huge_page_size \<le> sz" "sub64 (fst n) H \<ge> sz"
          | (more) "huge_page_size \<le> sz" "\<not> sub64 (fst n) H \<ge> sz" by linarith
        then show ?thesis
        proof cases
          case small
          then show ?thesis using Cons.prems(1) n ns sp h pn by auto
        next
          case huge
          have "snd p + sz \<le> fst n" using sp sub [OF pn(1)] pn(1) by linarith
          note hh = hole_huge [OF huge(1) this n, folded H_def]
          have "h = H" using Cons.prems(1) n ns sp huge by (simp add: H_def)
          moreover have "H + sz \<le> fst n" using huge(2) sub [OF hh(2)] hh(2) by simp
          ultimately show ?thesis using between [of H] hh n sp by auto
        next
          case more
          then have "hole_loop start sz (snd p) (n # rs) = Some (Some h)" using Cons.prems(1) n ns sp by (simp add: H_def)
          then show ?thesis using IH [of "snd p"] h sp pn by auto
        qed
      qed
    qed
  qed
qed simp

lemma hole_loop_complete:
  assumes "hole_loop start sz good (p # rs) = Some None" "ranges_ok (p # rs)" "start + sz < 2 ^ 64" "0 < sz" "0 < start"
    and "(upper_vma_limit, upper_vma_limit) \<in> set (p # rs)" "hole_fits sz (p # rs) h" "start \<le> h"
  shows "good = 0 \<and> h + sz \<le> fst p"
  using assms(1,2,6,7)
proof (induction rs arbitrary: p good)
  case (Cons n rs)
  have pn: "snd p \<le> fst n" "fst p < fst n" "\<forall>r \<in> set rs. fst n < fst r" "ranges_ok (n # rs)" "fst p \<le> snd p"
    using Cons.prems(2) by (auto simp: ranges_ok_def)
  have hp: "snd p \<le> h \<or> h + sz \<le> fst p" "h + sz \<le> upper_vma_limit" "hole_fits sz (n # rs) h"
    using Cons.prems(4) by (auto simp: hole_fits_def)
  show ?case
  proof (cases "fst n \<le> upper_vma_limit")
    case False
    have "(upper_vma_limit, upper_vma_limit) \<notin> set rs"
    proof
      assume "(upper_vma_limit, upper_vma_limit) \<in> set rs"
      then have "fst n < fst (upper_vma_limit, upper_vma_limit)" using pn(3) by blast
      then show False using False by simp
    qed
    then have "p = (upper_vma_limit, upper_vma_limit)" using Cons.prems(3) False by auto
    moreover have "good = 0" using Cons.prems(1) False by (simp split: if_splits)
    ultimately show ?thesis using hp(1,2) assms(4) by simp
  next
    case n: True
    have "(upper_vma_limit, upper_vma_limit) \<in> set (n # rs)" using Cons.prems(3) n pn(2) by (metis fst_conv linorder_not_less set_ConsD)
    note IH = Cons.IH [OF _ pn(4) this hp(3)]
    have sub: "sub64 (fst n) (snd p) = fst n - snd p" using limit_less(2) [OF n] pn(1) by simp
    have n1: "\<not> (start \<ge> snd p \<and> start + sz \<le> fst n)" using Cons.prems(1) n assms(3) by auto
    have n2: "\<not> (snd p \<ge> start \<and> fst n - snd p \<ge> sz)"
    proof
      assume g: "snd p \<ge> start \<and> fst n - snd p \<ge> sz"
      then have "hole_loop start sz (snd p) (n # rs) = Some None"
        using Cons.prems(1) n n1 assms(3) sub by (auto split: if_splits)
      then have "snd p = 0" using IH by blast
      then show False using g assms(5) by linarith
    qed
    then have "hole_loop start sz good (n # rs) = Some None" using Cons.prems(1) n n1 assms(3) sub by auto
    then show ?thesis using IH [of good] hp(1) n1 n2 assms(8) by linarith
  qed
qed simp

lemma hole_loop_defined: "\<exists>r \<in> set rs. upper_vma_limit < fst r \<Longrightarrow> hole_loop start sz good (p # rs) \<noteq> None"
proof (induction rs arbitrary: p good)
  case (Cons n rs)
  show ?case
  proof (cases "fst n \<le> upper_vma_limit")
    case True
    then have "hole_loop start sz g (n # rs) \<noteq> None" for g using Cons.IH Cons.prems by auto
    then show ?thesis using True by simp
  qed simp
qed simp

lemma find_hole_start:
  assumes "ranges_ok rs" "(0, 0) \<in> set rs" "0 < start" "\<exists>r \<in> set rs. upper_vma_limit < fst r" "start \<le> upper_vma_limit"
  shows "\<exists>ds p qs. rs = ds @ p # qs \<and> find_hole start sz rs = hole_loop start sz 0 (p # qs) \<and> fst p < start \<and>
     (\<exists>r \<in> set qs. upper_vma_limit < fst r)"
proof -
  define us where "us = takeWhile (\<lambda>r. fst r < start) rs"
  define vs where "vs = dropWhile (\<lambda>r. fst r < start) rs"
  have rs: "rs = us @ vs" by (simp add: us_def vs_def)
  have "us \<noteq> []"
  proof (cases rs)
    case (Cons r rs')
    then have "r = (0, 0) \<or> fst r < 0" using assms(1,2) by (auto simp: ranges_ok_def)
    then show ?thesis using assms(3) Cons by (auto simp: us_def)
  qed (use assms(2) in simp)
  then obtain ds p where us: "us = ds @ [p]" by (metis rev_exhaust)
  have "\<forall>r \<in> set us. fst r < start" by (auto simp: us_def dest: set_takeWhileD)
  moreover have "find_hole start sz rs = hole_loop start sz 0 (p # vs)"
    unfolding find_hole_def us_def [symmetric] Let_def by (simp add: rs us)
  ultimately show ?thesis using assms(4,5) by (intro exI [of _ ds] exI [of _ p] exI [of _ vs]) (auto simp: rs us)
qed

text \<open>With the markers in place and a range above the limit, the search is total: the address it
  returns fits and is not below the one asked for, and it fails only when nothing fits there.\<close>

lemma find_hole_spec:
  assumes "ranges_ok rs" "(0, 0) \<in> set rs" "(upper_vma_limit, upper_vma_limit) \<in> set rs" "\<exists>r \<in> set rs. upper_vma_limit < fst r"
    and "0 < start" "start \<le> upper_vma_limit" "page_size dvd start" "0 < sz" "start + sz < 2 ^ 64"
  shows "(\<exists>h. find_hole start sz rs = Some (Some h) \<and> hole_fits sz rs h \<and> start \<le> h \<and> page_size dvd h) \<or>
    (find_hole start sz rs = Some None \<and> (\<forall>h \<ge> start. \<not> hole_fits sz rs h))"
proof -
  obtain ds p qs where f: "rs = ds @ p # qs" "find_hole start sz rs = hole_loop start sz 0 (p # qs)" "fst p < start"
      "\<exists>r \<in> set qs. upper_vma_limit < fst r"
    using find_hole_start [OF assms(1,2,5,4,6)] by blast
  have ok: "ranges_ok (ds @ p # qs)" "ranges_ok (p # qs)" using assms(1) f(1) by (auto simp: ranges_ok_def sorted_wrt_append)
  have up: "(upper_vma_limit, upper_vma_limit) \<in> set (p # qs)"
  proof -
    have "\<forall>r \<in> set ds. fst r < fst p" using ok(1) by (auto simp: ranges_ok_def sorted_wrt_append)
    then show ?thesis using assms(3,6) f(1,3) by fastforce
  qed
  show ?thesis
  proof (cases "hole_loop start sz 0 (p # qs)")
    case None
    then show ?thesis using hole_loop_defined [OF f(4)] by blast
  next
    case (Some z)
    show ?thesis
    proof (cases z)
      case None
      have "\<not> hole_fits sz rs h" if "start \<le> h" for h
      proof
        assume h: "hole_fits sz rs h"
        then have "hole_fits sz (p # qs) h" by (simp add: hole_fits_def f(1))
        then show False using hole_loop_complete [OF Some [unfolded None] ok(2) assms(9,8,5) up _ that] f(3) that by linarith
      qed
      then show ?thesis using Some None f(2) by simp
    next
      case (Some h)
      then show ?thesis using hole_loop_sound [OF _ ok(1) assms(9,7), of 0 h] \<open>hole_loop start sz 0 (p # qs) = Some z\<close> f by simp
    qed
  qed
qed

end
