(* ===== verification/Mmap.thy ===== *)
theory Mmap
  imports VmaList
begin

text \<open>
  Mappings: \<open>map_anon\<close>, \<open>munmap\<close>, \<open>mprotect\<close>, \<open>advise\<close> and the page fault handler of \<open>core/mmu.cc\<close>,
  and the system interface on top of them in \<open>libc/mman.cc\<close>, with the program break. A call that
  holds \<open>vma_list_mutex\<close> is one step. The outer \<open>None\<close> of a result is undefined behaviour, the left
  summand an error returned to the caller.
\<close>

section \<open>State\<close>

text \<open>\<open>vma_list\<close>, the ranges of \<open>linear_vma_set\<close> and the populated pages.\<close>

record vm =
  vmas :: "vma list"
  linear :: "(nat \<times> nat) list"
  present :: "nat \<Rightarrow> bool"

datatype vm_error = Vm_enomem | Vm_einval | Vm_enodev

type_synonym 'a vm_result = "(vm_error + 'a) option"

definition mmap_fixed :: u32 where
  "mmap_fixed = 0x1"

definition mmap_populate :: u32 where
  "mmap_populate = 0x2"

definition mmap_shared :: u32 where
  "mmap_shared = 0x4"

definition mmap_uninitialized :: u32 where
  "mmap_uninitialized = 0x8"

definition mmap_small :: u32 where
  "mmap_small = 0x20"

definition mmap_stack :: u32 where
  "mmap_stack = 0x100"

definition perm_read :: u32 where
  "perm_read = 1"

definition perm_write :: u32 where
  "perm_write = 2"

definition perm_exec :: u32 where
  "perm_exec = 4"

definition has_flag :: "u32 \<Rightarrow> u32 \<Rightarrow> bool" where
  "has_flag f m \<longleftrightarrow> f AND m \<noteq> 0"

section \<open>The operations of mmu.cc\<close>

definition allocate :: "vma \<Rightarrow> nat \<Rightarrow> nat \<Rightarrow> bool \<Rightarrow> vm \<Rightarrow> (vma \<times> nat \<times> vm) vm_result" where
  "allocate v start sz search s =
     (let finish = (\<lambda>start s. let v = vma_set v start (add64 start sz) in (v, start, s \<lparr> vmas := vma_insert v (vmas s) \<rparr>)) in
      if search then
        let start = (if start = 0 then 0x200000000000 else start) in
        (case find_hole start sz (vma_ranges (vmas s) (linear s)) of
           None \<Rightarrow> None
         | Some None \<Rightarrow> Some (Inl Vm_enomem)
         | Some (Some start) \<Rightarrow> Some (Inr (finish start s)))
      else
        (case evacuate start (add64 start sz) (vmas s) (present s) of
           None \<Rightarrow> None
         | Some (_, vs, pr) \<Rightarrow> Some (Inr (finish start (s \<lparr> vmas := vs, present := pr \<rparr>)))))"

definition populate_vma :: "nat \<Rightarrow> nat \<Rightarrow> vm \<Rightarrow> vm" where
  "populate_vma addr sz s = s \<lparr> present := populate addr sz (present s) \<rparr>"

definition map_anon :: "nat \<Rightarrow> nat \<Rightarrow> u32 \<Rightarrow> u32 \<Rightarrow> vm \<Rightarrow> (nat \<times> vm) vm_result" where
  "map_anon addr sz flags perm s =
     (let search = (\<not> has_flag flags mmap_fixed);
          sz = up64 sz page_size;
          v = anon_vma addr (add64 addr sz) perm flags in
      case allocate v addr sz search s of
        None \<Rightarrow> None
      | Some (Inl err) \<Rightarrow> Some (Inl err)
      | Some (Inr (_, a, s)) \<Rightarrow> Some (Inr (a, if has_flag flags mmap_populate then populate_vma a sz s else s)))"

definition vm_unmap :: "nat \<Rightarrow> nat \<Rightarrow> vm \<Rightarrow> vm option" where
  "vm_unmap addr sz s =
     (let sz = up64 sz page_size in
      map_option (\<lambda>(_, vs, pr). s \<lparr> vmas := vs, present := pr \<rparr>) (evacuate addr (add64 addr sz) (vmas s) (present s)))"

text \<open>\<open>sync\<close> of an anonymous area does nothing, so only an empty range is an error.\<close>

definition vm_sync :: "nat \<Rightarrow> nat \<Rightarrow> vm \<Rightarrow> unit vm_result" where
  "vm_sync addr len s =
     (let len = up64 len page_size in
      map_option (\<lambda>(i, j). if i < j then Inr () else Inl Vm_enomem)
        (find_intersecting_vmas addr (add64 addr len) (vmas s)))"

definition vm_munmap :: "nat \<Rightarrow> nat \<Rightarrow> vm \<Rightarrow> vm vm_result" where
  "vm_munmap addr len s =
     (let len = up64 len page_size in
      case ismapped addr len (vmas s) of
        None \<Rightarrow> None
      | Some False \<Rightarrow> Some (Inl Vm_einval)
      | Some True \<Rightarrow>
          (case vm_sync addr len s of
             None \<Rightarrow> None
           | Some _ \<Rightarrow> map_option Inr (vm_unmap addr len s)))"

definition vm_mprotect :: "nat \<Rightarrow> nat \<Rightarrow> u32 \<Rightarrow> vm \<Rightarrow> vm vm_result" where
  "vm_mprotect addr len perm s =
     (case ismapped addr len (vmas s) of
        None \<Rightarrow> None
      | Some False \<Rightarrow> Some (Inl Vm_enomem)
      | Some True \<Rightarrow> map_option (\<lambda>vs. Inr (s \<lparr> vmas := vs \<rparr>)) (protect addr len perm (vmas s)))"

definition vm_msync :: "nat \<Rightarrow> nat \<Rightarrow> vm \<Rightarrow> unit vm_result" where
  "vm_msync addr len s =
     (case ismapped addr len (vmas s) of
        None \<Rightarrow> None
      | Some False \<Rightarrow> Some (Inl Vm_enomem)
      | Some True \<Rightarrow> vm_sync addr len s)"

text \<open>The loops of \<open>depopulate\<close> and \<open>nohugepage\<close> over the areas that intersect the range.\<close>

fun depopulate_loop :: "nat \<Rightarrow> nat \<Rightarrow> vma list \<Rightarrow> (nat \<Rightarrow> bool) \<Rightarrow> (nat \<Rightarrow> bool)" where
  "depopulate_loop start len [] pr = pr"
| "depopulate_loop start len (v # vs) pr =
     depopulate_loop (add64 start (vma_size v)) (sub64 len (vma_size v)) vs
       (unpopulate start (min len (vma_size v)) pr)"

definition depopulate :: "nat \<Rightarrow> nat \<Rightarrow> vm \<Rightarrow> vm option" where
  "depopulate addr len s =
     (let len = up64 len page_size in
      map_option (\<lambda>(i, j). s \<lparr> present := depopulate_loop addr len (take (j - i) (drop i (vmas s))) (present s) \<rparr>)
        (find_intersecting_vmas addr (add64 addr len) (vmas s)))"

definition nohugepage :: "nat \<Rightarrow> nat \<Rightarrow> vm \<Rightarrow> vm option" where
  "nohugepage addr len s =
     (let len = up64 len page_size in
      map_option
        (\<lambda>(i, j). s \<lparr> vmas := take i (vmas s) @
             map (\<lambda>v. if has_flag (vflags v) mmap_small then v else v \<lparr> vflags := vflags v OR mmap_small \<rparr>)
               (take (j - i) (drop i (vmas s))) @ drop (max i j) (vmas s) \<rparr>)
        (find_intersecting_vmas addr (add64 addr len) (vmas s)))"

datatype advice = Advise_dontneed | Advise_nohugepage | Advise_other

definition advise :: "nat \<Rightarrow> nat \<Rightarrow> advice \<Rightarrow> vm \<Rightarrow> vm vm_result" where
  "advise addr sz adv s =
     (case ismapped addr sz (vmas s) of
        None \<Rightarrow> None
      | Some False \<Rightarrow> Some (Inl Vm_enomem)
      | Some True \<Rightarrow>
          (case adv of
             Advise_dontneed \<Rightarrow> map_option Inr (depopulate addr sz s)
           | Advise_nohugepage \<Rightarrow> map_option Inr (nohugepage addr sz s)
           | Advise_other \<Rightarrow> Some (Inl Vm_einval)))"

section \<open>Page faults\<close>

definition access_fault :: "vma \<Rightarrow> bool \<Rightarrow> bool \<Rightarrow> bool" where
  "access_fault v insn write \<longleftrightarrow>
     (if insn then \<not> has_flag (vperm v) perm_exec
      else if write then \<not> has_flag (vperm v) perm_write
      else \<not> has_flag (vperm v) perm_read)"

definition vma_fault :: "vma \<Rightarrow> nat \<Rightarrow> vm \<Rightarrow> vm" where
  "vma_fault v addr s =
     (let hp_start = up64 (vstart v) huge_page_size;
          hp_end = nalign_down (vend v) huge_page_size in
      if \<not> has_flag (vflags v) mmap_small \<and> hp_start \<le> addr \<and> addr < hp_end
      then populate_vma (nalign_down addr huge_page_size) huge_page_size s
      else populate_vma addr page_size s)"

text \<open>A fault in the kernel's own code aborts, any other one becomes a signal.\<close>

datatype fault_result = Fault_abort | Fault_signal | Fault_handled vm

definition vm_sigsegv :: "bool \<Rightarrow> fault_result" where
  "vm_sigsegv kernel_pc = (if kernel_pc then Fault_abort else Fault_signal)"

text \<open>The outcome of \<open>fast_sigsegv_check\<close>, which belongs to the architecture, is an argument.\<close>

definition vm_fault :: "nat \<Rightarrow> bool \<Rightarrow> bool \<Rightarrow> bool \<Rightarrow> bool \<Rightarrow> vm \<Rightarrow> fault_result option" where
  "vm_fault addr insn write kernel_pc fast s =
     (if fast then Some (vm_sigsegv kernel_pc)
      else
        let addr = nalign_down addr page_size in
        (case find_intersecting_vma addr (vmas s) of
           None \<Rightarrow> None
         | Some None \<Rightarrow> Some (vm_sigsegv kernel_pc)
         | Some (Some i) \<Rightarrow>
             if access_fault (vmas s ! i) insn write then Some (vm_sigsegv kernel_pc)
             else Some (Fault_handled (vma_fault (vmas s ! i) addr s))))"

section \<open>The system interface of mman.cc\<close>

text \<open>Here the outer \<open>None\<close> also stands for a call of \<open>abort\<close> or a failed assertion.\<close>

definition libc_flags_to_mmap :: "u32 \<Rightarrow> u32" where
  "libc_flags_to_mmap flags =
     (if has_flag flags 0x10 then mmap_fixed else 0) OR
     (if has_flag flags 0x8000 then mmap_populate else 0) OR
     (if has_flag flags 0x20000 then mmap_stack else 0) OR
     (if has_flag flags 0x1 then mmap_shared else 0) OR
     (if has_flag flags 0x4000000 then mmap_uninitialized else 0)"

definition libc_prot_to_perm :: "u32 \<Rightarrow> u32" where
  "libc_prot_to_perm prot =
     (if has_flag prot 1 then perm_read else 0) OR
     (if has_flag prot 2 then perm_write else 0) OR
     (if has_flag prot 4 then perm_exec else 0)"

definition libc_madvise_to_advise :: "int \<Rightarrow> advice" where
  "libc_madvise_to_advise adv =
     (if adv = 4 then Advise_dontneed else if adv = 15 then Advise_nohugepage else Advise_other)"

definition posix_madvise_to_advise :: "int \<Rightarrow> advice" where
  "posix_madvise_to_advise adv = (if adv = 4 then Advise_dontneed else Advise_other)"

definition is_page_aligned :: "nat \<Rightarrow> bool" where
  "is_page_aligned a \<longleftrightarrow> a mod page_size = 0"

text \<open>A pointer whose sign bit is set lies in the linear map.\<close>

definition negative :: "nat \<Rightarrow> bool" where
  "negative a \<longleftrightarrow> a \<ge> 2 ^ 63"

definition libc_mprotect :: "nat \<Rightarrow> nat \<Rightarrow> u32 \<Rightarrow> vm \<Rightarrow> vm vm_result" where
  "libc_mprotect addr len prot s =
     (if negative addr then None
      else if \<not> is_page_aligned addr then Some (Inl Vm_einval)
      else vm_mprotect addr (up64 len page_size) (libc_prot_to_perm prot) s)"

definition mmap_validate :: "nat \<Rightarrow> nat \<Rightarrow> u32 \<Rightarrow> nat \<Rightarrow> vm_error option" where
  "mmap_validate addr len flags off =
     (let type = flags AND 3 in
      if type = 0 \<or> type = 3 then Some Vm_einval
      else if (has_flag flags 0x10 \<and> \<not> is_page_aligned addr) \<or> \<not> is_page_aligned off \<or> len = 0 then Some Vm_einval
      else None)"

definition libc_mmap :: "nat \<Rightarrow> nat \<Rightarrow> u32 \<Rightarrow> u32 \<Rightarrow> nat \<Rightarrow> vm \<Rightarrow> (nat \<times> vm) vm_result" where
  "libc_mmap addr len prot flags off s =
     (case mmap_validate addr len flags off of
        Some err \<Rightarrow> Some (Inl err)
      | None \<Rightarrow>
          if negative addr then None
          else
            let mmap_flags = libc_flags_to_mmap flags;
                mmap_perm = libc_prot_to_perm prot;
                addr = (if has_flag flags 0x40 \<and> \<not> has_flag flags 0x10 \<and> addr = 0 then 0x2000000 else addr) in
            if \<not> has_flag flags 0x20 then Some (Inl Vm_enodev)
            else map_anon addr len mmap_flags mmap_perm s)"

definition munmap_validate :: "nat \<Rightarrow> nat \<Rightarrow> vm_error option" where
  "munmap_validate addr len = (if \<not> is_page_aligned addr \<or> len = 0 then Some Vm_einval else None)"

definition libc_munmap :: "nat \<Rightarrow> nat \<Rightarrow> vm \<Rightarrow> vm vm_result" where
  "libc_munmap addr len s =
     (case munmap_validate addr len of
        Some err \<Rightarrow> Some (Inl err)
      | None \<Rightarrow> vm_munmap addr len s)"

definition libc_madvise :: "nat \<Rightarrow> nat \<Rightarrow> int \<Rightarrow> vm \<Rightarrow> vm vm_result" where
  "libc_madvise addr len adv s = advise addr len (libc_madvise_to_advise adv) s"

definition libc_posix_madvise :: "nat \<Rightarrow> nat \<Rightarrow> int \<Rightarrow> vm \<Rightarrow> vm vm_result" where
  "libc_posix_madvise addr len adv s = advise addr len (posix_madvise_to_advise adv) s"

text \<open>The program break. \<open>MAP_FAILED\<close> is the largest address.\<close>

record brk_area =
  initial_program_break :: nat
  program_break :: nat
  break_area_size :: nat

definition map_failed :: nat where
  "map_failed = 2 ^ 64 - 1"

definition initialize_program_break :: "nat \<Rightarrow> brk_area \<times> vm \<Rightarrow> (bool \<times> brk_area \<times> vm) option" where
  "initialize_program_break free_mem bs =
     (let (b, s) = bs in
      if program_break b = 0 then
        let sz = nalign_down free_mem huge_page_size in
        (case libc_mmap 0 sz 3 0x22 0 s of
           None \<Rightarrow> None
         | Some (Inl _) \<Rightarrow>
             Some (False, \<lparr> initial_program_break = map_failed, program_break = map_failed, break_area_size = sz \<rparr>, s)
         | Some (Inr (a, s)) \<Rightarrow>
             Some (True, \<lparr> initial_program_break = a, program_break = a, break_area_size = sz \<rparr>, s))
      else Some (True, b, s))"

definition internal_brk :: "nat \<Rightarrow> brk_area \<times> vm \<Rightarrow> (bool \<times> brk_area \<times> vm) option" where
  "internal_brk addr bs =
     (let (b, s) = bs in
      if addr = 0 then Some (True, b, s)
      else if addr \<ge> initial_program_break b \<and> addr < add64 (initial_program_break b) (break_area_size b) then
        if addr < program_break b then
          let st = up64 addr huge_page_size;
              en = up64 (program_break b) huge_page_size in
          if st < en then
            (case advise st (en - st) Advise_dontneed s of
               None \<Rightarrow> None
             | Some (Inl _) \<Rightarrow> Some (True, b \<lparr> program_break := addr \<rparr>, s)
             | Some (Inr s) \<Rightarrow> Some (True, b \<lparr> program_break := addr \<rparr>, s))
          else Some (True, b \<lparr> program_break := addr \<rparr>, s)
        else Some (True, b \<lparr> program_break := addr \<rparr>, s)
      else Some (False, b, s))"

definition brk :: "nat \<Rightarrow> nat \<Rightarrow> brk_area \<times> vm \<Rightarrow> (bool \<times> brk_area \<times> vm) option" where
  "brk free_mem addr bs =
     (case initialize_program_break free_mem bs of
        None \<Rightarrow> None
      | Some (False, bs) \<Rightarrow> Some (False, bs)
      | Some (True, bs) \<Rightarrow> internal_brk addr bs)"

definition sbrk :: "nat \<Rightarrow> int \<Rightarrow> brk_area \<times> vm \<Rightarrow> (nat \<times> brk_area \<times> vm) option" where
  "sbrk free_mem increment bs =
     (case initialize_program_break free_mem bs of
        None \<Rightarrow> None
      | Some (False, bs) \<Rightarrow> Some (map_failed, bs)
      | Some (True, b, s) \<Rightarrow>
          if increment = 0 then Some (program_break b, b, s)
          else
            let old_break = program_break b in
            (case internal_brk (nat ((int old_break + increment) mod 2 ^ 64)) (b, s) of
               None \<Rightarrow> None
             | Some (True, bs) \<Rightarrow> Some (old_break, bs)
             | Some (False, bs) \<Rightarrow> Some (map_failed, bs)))"

section \<open>The invariant\<close>

text \<open>The linear mappings made at boot: page aligned ends, no overlap, none across the limit, and one
  above it, where the kernel maps physical memory.\<close>

definition lin_ok :: "(nat \<times> nat) list \<Rightarrow> bool" where
  "lin_ok lin \<longleftrightarrow>
     (\<forall>r \<in> set lin. 0 < fst r \<and> fst r < snd r \<and> page_size dvd snd r \<and> (snd r \<le> upper_vma_limit \<or> upper_vma_limit \<le> fst r)) \<and>
     distinct (map fst lin) \<and> (\<forall>r \<in> set lin. \<forall>q \<in> set lin. fst r < fst q \<longrightarrow> snd r \<le> fst q) \<and>
     (\<exists>r \<in> set lin. upper_vma_limit < fst r)"

definition in_linear :: "(nat \<times> nat) list \<Rightarrow> nat \<Rightarrow> bool" where
  "in_linear lin a \<longleftrightarrow> (\<exists>r \<in> set lin. fst r \<le> a \<and> a < snd r)"

text \<open>The areas are well formed and apart from the linear mappings, and every populated page is
  mapped.\<close>

definition areas_vm_ok :: "vma list \<Rightarrow> (nat \<times> nat) list \<Rightarrow> (nat \<Rightarrow> bool) \<Rightarrow> bool" where
  "areas_vm_ok as lin pr \<longleftrightarrow>
     areas_ok as \<and> lin_ok lin \<and> (\<forall>a. in_linear lin a \<longrightarrow> attr as a = None) \<and> (\<forall>p. pr p \<longrightarrow> attr as p \<noteq> None)"

definition vm_ok :: "vm \<Rightarrow> bool" where
  "vm_ok s \<longleftrightarrow> (\<exists>as. vmas s = lower_edge # as @ [upper_edge] \<and> areas_vm_ok as (linear s) (present s))"

lemma vm_okE:
  assumes "vm_ok s"
  obtains as where "vmas s = lower_edge # as @ [upper_edge]" "areas_ok as" "lin_ok (linear s)"
    "\<forall>a. in_linear (linear s) a \<longrightarrow> attr as a = None" "\<forall>p. present s p \<longrightarrow> attr as p \<noteq> None" "attr (vmas s) = attr as"
  using assms unfolding vm_ok_def areas_vm_ok_def by (metis attr_edges ext)

lemma vm_okI:
  assumes "vmas s = lower_edge # as @ [upper_edge]" "areas_ok as" "lin_ok (linear s)"
    "\<forall>a. in_linear (linear s) a \<longrightarrow> attr as a = None" "\<forall>p. present s p \<longrightarrow> attr as p \<noteq> None"
  shows "vm_ok s"
  using assms unfolding vm_ok_def areas_vm_ok_def by blast

lemma sort_ranges_ok:
  assumes "distinct (map fst xs)" "\<forall>a \<in> set xs. \<forall>b \<in> set xs. fst a < fst b \<longrightarrow> snd a \<le> fst b"
    and "\<forall>r \<in> set xs. fst r \<le> snd r \<and> page_size dvd snd r"
  shows "ranges_ok (sort_key fst xs)"
proof -
  let ?ys = "sort_key fst xs"
  have "set (map fst ?ys) = set (map fst xs)" "length (map fst ?ys) = length (map fst xs)" by simp_all
  then have "distinct (map fst ?ys)" using assms(1) by (metis card_distinct distinct_card)
  then have "sorted_wrt (<) (map fst ?ys)" by (simp add: strict_sorted_iff)
  then have "sorted_wrt (\<lambda>a b. fst a < fst b) ?ys" by (simp add: sorted_wrt_map)
  then have "sorted_wrt (\<lambda>p n. fst p < fst n \<and> snd p \<le> fst n) ?ys"
    by (rule sorted_wrt_mono_rel [rotated]) (use assms(2) in auto)
  then show ?thesis using assms(3) by (simp add: ranges_ok_def)
qed

lemma area_order:
  assumes "areas_ok as" "v \<in> set as" "w \<in> set as" "vstart v < vstart w"
  shows "vend v \<le> vstart w"
  using assms
proof (induction as)
  case (Cons a as)
  then show ?case by (fastforce simp: areas_ok_Cons area_ok_def areas_ok_def)
qed simp

lemma area_starts_distinct: "areas_ok as \<Longrightarrow> distinct (map vstart as)"
  by (induction as) (fastforce simp: areas_ok_Cons area_ok_def)+

lemma area_linear_apart:
  assumes "areas_ok as" "\<forall>a. in_linear lin a \<longrightarrow> attr as a = None" "v \<in> set as" "r \<in> set lin" "fst r < snd r"
  shows "vend v \<le> fst r \<or> snd r \<le> vstart v"
proof (rule ccontr)
  assume c: "\<not> ?thesis"
  define a where "a = max (vstart v) (fst r)"
  have "vstart v < vend v" using assms(1,3) by (simp add: areas_ok_def area_ok_def)
  then have "covers a v" using c by (auto simp: a_def covers_def)
  moreover have "in_linear lin a"
    unfolding in_linear_def by (rule bexI [OF _ assms(4)]) (use c assms(5) in \<open>auto simp: a_def\<close>)
  ultimately have "covers a v" "in_linear lin a" by blast+
  then show False using assms(2,3) by (auto simp: attr_None_iff)
qed

lemma vma_ranges_set:
  "set (vma_ranges (lower_edge # as @ [upper_edge]) lin) =
     {(0, 0), (upper_vma_limit, upper_vma_limit)} \<union> (\<lambda>v. (vstart v, vend v)) ` set as \<union>
     {r \<in> set lin. fst r \<notin> {0, upper_vma_limit} \<union> vstart ` set as}"
  unfolding vma_ranges_def set_sort by auto

lemma vma_ranges_ok:
  assumes "areas_ok as" "lin_ok lin" "\<forall>a. in_linear lin a \<longrightarrow> attr as a = None"
  shows "ranges_ok (vma_ranges (lower_edge # as @ [upper_edge]) lin)"
  unfolding vma_ranges_def
proof (rule sort_ranges_ok)
  let ?f = "filter (\<lambda>r. fst r \<notin> vstart ` set (lower_edge # as @ [upper_edge])) lin"
  have d: "distinct (map fst ?f)" using assms(2) by (simp add: lin_ok_def distinct_map inj_on_def)
  have "0 < vstart v \<and> vstart v < upper_vma_limit" if "v \<in> set as" for v
    using that assms(1) by (fastforce simp: areas_ok_def area_ok_def)
  then have "distinct (map vstart (lower_edge # as @ [upper_edge]))"
    using area_starts_distinct [OF assms(1)] limit_facts(3) by fastforce
  then show "distinct (map fst (map (\<lambda>v. (vstart v, vend v)) (lower_edge # as @ [upper_edge]) @ ?f))"
    using d by (auto simp: comp_def image_image)
  have ap: "\<And>v r. v \<in> set as \<Longrightarrow> r \<in> set lin \<Longrightarrow> vend v \<le> fst r \<or> snd r \<le> vstart v"
    using area_linear_apart [OF assms(1,3)] assms(2) by (auto simp: lin_ok_def)
  have a: "\<And>v. v \<in> set as \<Longrightarrow> vstart v < vend v \<and> vend v \<le> upper_vma_limit \<and> page_size dvd vend v"
    using assms(1) by (auto simp: areas_ok_def area_ok_def)
  have l: "\<And>r. r \<in> set lin \<Longrightarrow> 0 < fst r \<and> fst r < snd r \<and> page_size dvd snd r \<and> (snd r \<le> upper_vma_limit \<or> upper_vma_limit \<le> fst r)"
    using assms(2) by (auto simp: lin_ok_def)
  show "\<forall>r \<in> set (map (\<lambda>v. (vstart v, vend v)) (lower_edge # as @ [upper_edge]) @ ?f). fst r \<le> snd r \<and> page_size dvd snd r"
    using a l limit_facts(1) by (fastforce simp: less_imp_le)
  show "\<forall>x \<in> set (map (\<lambda>v. (vstart v, vend v)) (lower_edge # as @ [upper_edge]) @ ?f).
      \<forall>y \<in> set (map (\<lambda>v. (vstart v, vend v)) (lower_edge # as @ [upper_edge]) @ ?f). fst x < fst y \<longrightarrow> snd x \<le> fst y"
  proof (intro ballI impI)
    fix x y
    assume "x \<in> set (map (\<lambda>v. (vstart v, vend v)) (lower_edge # as @ [upper_edge]) @ ?f)"
      "y \<in> set (map (\<lambda>v. (vstart v, vend v)) (lower_edge # as @ [upper_edge]) @ ?f)" and lt: "fst x < fst y"
    then have x: "x = (0, 0) \<or> x = (upper_vma_limit, upper_vma_limit) \<or> (\<exists>v \<in> set as. x = (vstart v, vend v)) \<or> x \<in> set lin"
      and y: "y = (upper_vma_limit, upper_vma_limit) \<or> (\<exists>v \<in> set as. y = (vstart v, vend v)) \<or> y \<in> set lin" by auto
    show "snd x \<le> fst y" using x
    proof (elim disjE bexE)
      fix v
      assume v: "v \<in> set as" "x = (vstart v, vend v)"
      show ?thesis using y
      proof (elim disjE bexE)
        fix w
        assume "w \<in> set as" "y = (vstart w, vend w)"
        then show ?thesis using area_order [OF assms(1) v(1)] v(2) lt by simp
      next
        assume "y \<in> set lin"
        then show ?thesis using ap [OF v(1)] l [of y] v(2) lt by fastforce
      qed (use v a [OF v(1)] in simp)
    next
      assume xl: "x \<in> set lin"
      show ?thesis using y
      proof (elim disjE bexE)
        fix w
        assume w: "w \<in> set as" "y = (vstart w, vend w)"
        then show ?thesis using ap [OF w(1) xl] a [OF w(1)] lt by auto
      next
        assume "y \<in> set lin"
        then show ?thesis using assms(2) xl lt unfolding lin_ok_def by blast
      qed (use l [OF xl] lt in auto)
    qed (use lt in auto)
  qed
qed

section \<open>Adding and removing areas\<close>

lemma area_apart:
  assumes "area_ok v" "area_ok u" "\<not> (vend u \<le> vstart v \<or> vend v \<le> vstart u)"
  shows "\<exists>a. covers a v \<and> covers a u"
  using assms by (intro exI [of _ "max (vstart v) (vstart u)"]) (auto simp: covers_def area_ok_def)

lemma vma_insert_areas:
  assumes "areas_ok as" "area_ok v" "\<forall>u \<in> set as. vend u \<le> vstart v \<or> vend v \<le> vstart u"
  shows "\<exists>as'. vma_insert v (as @ [upper_edge]) = as' @ [upper_edge] \<and> areas_ok as' \<and> set as' = insert v (set as) \<and>
    (\<forall>a. attr as' a = (if covers a v then Some (vperm v, vflags v) else attr as a))"
  using assms(1,3)
proof (induction as)
  case Nil
  have "vstart v < upper_vma_limit" using assms(2) by (auto simp: area_ok_def)
  then show ?case using assms(2) by (intro exI [of _ "[v]"]) (simp add: areas_ok_def attr_Cons)
next
  case (Cons u as)
  note v = area_okD [OF assms(2)]
  have u: "area_ok u" "areas_ok as" "\<forall>w \<in> set as. vend u \<le> vstart w" using Cons.prems(1) by (auto simp: areas_ok_Cons)
  have uv: "vend u \<le> vstart v \<or> vend v \<le> vstart u" using Cons.prems(2) by simp
  show ?case
  proof (cases "vstart v < vstart u")
    case True
    then have "vend v \<le> vstart u" using uv area_okD(4) [OF u(1)] by linarith
    moreover have "\<forall>w \<in> set as. vend v \<le> vstart w" using u calculation area_okD(4) [OF u(1)] by (meson le_trans less_imp_le)
    ultimately show ?thesis
      using True Cons.prems(1) assms(2) by (intro exI [of _ "v # u # as"]) (auto simp: areas_ok_Cons attr_Cons)
  next
    case False
    then have le: "vend u \<le> vstart v" using uv v(4) by linarith
    obtain as' where as': "vma_insert v (as @ [upper_edge]) = as' @ [upper_edge]" "areas_ok as'" "set as' = insert v (set as)"
        "\<forall>a. attr as' a = (if covers a v then Some (vperm v, vflags v) else attr as a)"
      using Cons.IH u(2) Cons.prems(2) by auto
    have "vstart u < vstart v" using le area_okD(4) [OF u(1)] by linarith
    moreover have "areas_ok (u # as')" using u as'(2,3) le by (simp add: areas_ok_Cons)
    moreover have "covers a u \<Longrightarrow> \<not> covers a v" for a using le by (auto simp: covers_def)
    ultimately show ?thesis using as' by (intro exI [of _ "u # as'"]) (auto simp: attr_Cons)
  qed
qed

text \<open>A new area where nothing is mapped.\<close>

lemma vm_ok_insert:
  assumes "vm_ok s" "area_ok v" "\<forall>a. covers a v \<longrightarrow> attr (vmas s) a = None \<and> \<not> in_linear (linear s) a"
  shows "vm_ok (s \<lparr> vmas := vma_insert v (vmas s) \<rparr>) \<and>
    (\<forall>a. attr (vma_insert v (vmas s)) a = (if covers a v then Some (vperm v, vflags v) else attr (vmas s) a))"
proof -
  obtain as where as: "vmas s = lower_edge # as @ [upper_edge]" "areas_ok as" "lin_ok (linear s)"
      "\<forall>a. in_linear (linear s) a \<longrightarrow> attr as a = None" "\<forall>p. present s p \<longrightarrow> attr as p \<noteq> None" "attr (vmas s) = attr as"
    using vm_okE [OF assms(1)] by metis
  have "\<forall>u \<in> set as. vend u \<le> vstart v \<or> vend v \<le> vstart u"
  proof
    fix u
    assume u: "u \<in> set as"
    then have "area_ok u" using as(2) by (simp add: areas_ok_def)
    then show "vend u \<le> vstart v \<or> vend v \<le> vstart u"
      using area_apart [OF assms(2)] assms(3) u as(6) by (metis attr_None_iff)
  qed
  then obtain as' where as': "vma_insert v (as @ [upper_edge]) = as' @ [upper_edge]" "areas_ok as'"
      "\<forall>a. attr as' a = (if covers a v then Some (vperm v, vflags v) else attr as a)"
    using vma_insert_areas [OF as(2) assms(2)] by blast
  have ins: "vma_insert v (vmas s) = lower_edge # as' @ [upper_edge]"
    using as'(1) area_okD(3) [OF assms(2)] by (simp add: as(1))
  have "vm_ok (s \<lparr> vmas := vma_insert v (vmas s) \<rparr>)"
    by (rule vm_okI [of _ as']) (use ins as' as assms(3) in \<open>auto split: if_splits\<close>)
  then show ?thesis using ins as'(3) as(6) by (simp only: attr_edges) simp
qed

text \<open>Unmapping a range.\<close>

lemma vm_ok_evacuate:
  assumes "vm_ok s" "0 < addr" "0 < n" "addr + n \<le> upper_vma_limit" "page_size dvd addr" "page_size dvd n"
  shows "\<exists>ret vs pr. evacuate addr (addr + n) (vmas s) (present s) = Some (ret, vs, pr) \<and>
    vm_ok (s \<lparr> vmas := vs, present := pr \<rparr>) \<and>
    (\<forall>a. attr vs a = (if addr \<le> a \<and> a < addr + n then None else attr (vmas s) a)) \<and>
    (\<forall>p. pr p \<longleftrightarrow> present s p \<and> \<not> (addr \<le> p \<and> p < addr + n))"
proof -
  obtain as where as: "vmas s = lower_edge # as @ [upper_edge]" "areas_ok as" "lin_ok (linear s)"
      "\<forall>a. in_linear (linear s) a \<longrightarrow> attr as a = None" "\<forall>p. present s p \<longrightarrow> attr as p \<noteq> None" "attr (vmas s) = attr as"
    using vm_okE [OF assms(1)] by metis
  have e: "addr < addr + n" "page_size dvd addr + n" using assms by simp_all
  obtain ret as' pr where ev: "evacuate addr (addr + n) (vmas s) (present s) = Some (ret, lower_edge # as' @ [upper_edge], pr)"
      "areas_ok as'" "\<forall>a. attr as' a = (if addr \<le> a \<and> a < addr + n then None else attr as a)"
      "\<forall>p. pr p \<longleftrightarrow> present s p \<and> \<not> (addr \<le> p \<and> p < addr + n \<and> attr as p \<noteq> None)"
    using evacuate_spec [OF as(2) assms(2) e(1) assms(4,5) e(2), of "present s"] as(1) by metis
  have pr: "\<forall>p. pr p \<longleftrightarrow> present s p \<and> \<not> (addr \<le> p \<and> p < addr + n)" using ev(4) as(5) by blast
  have "vm_ok (s \<lparr> vmas := lower_edge # as' @ [upper_edge], present := pr \<rparr>)"
    by (rule vm_okI [of _ as']) (use ev(2,3) as pr in auto)
  moreover have "\<forall>a. attr (lower_edge # as' @ [upper_edge]) a = (if addr \<le> a \<and> a < addr + n then None else attr (vmas s) a)"
    using ev(3) as(6) by (simp only: attr_edges) simp
  ultimately show ?thesis using ev(1) pr by blast
qed

definition all_mapped :: "(nat \<Rightarrow> (u32 \<times> u32) option) \<Rightarrow> nat \<Rightarrow> nat \<Rightarrow> bool" where
  "all_mapped A addr n \<longleftrightarrow> (\<forall>a. addr \<le> a \<and> a < addr + n \<longrightarrow> A a \<noteq> None)"

lemma ismapped_vm:
  assumes "vm_ok s" "0 < addr" "0 < n" "addr + n \<le> upper_vma_limit"
  shows "ismapped addr n (vmas s) = Some (all_mapped (attr (vmas s)) addr n)"
proof -
  obtain as where "vmas s = lower_edge # as @ [upper_edge]" "areas_ok as" "attr (vmas s) = attr as"
    using vm_okE [OF assms(1)] by metis
  then show ?thesis using ismapped_spec [of as, OF _ assms(2-4)] by (simp only: all_mapped_def)
qed

lemma page_round:
  assumes "page_size dvd addr" "addr + len \<le> upper_vma_limit" "0 < len"
  shows "up64 len page_size = nalign_up len page_size" "addr + nalign_up len page_size \<le> upper_vma_limit" "0 < nalign_up len page_size"
proof -
  show "up64 len page_size = nalign_up len page_size"
    by (rule up64_eq) (use assms limit_less(1) [of len] in auto)
  have "page_size dvd upper_vma_limit - addr" using assms(1) limit_facts(1) by (rule dvd_diff_nat [rotated])
  then have "nalign_up len page_size \<le> upper_vma_limit - addr"
    by (intro nalign_up_least) (use assms in auto)
  then show "addr + nalign_up len page_size \<le> upper_vma_limit" using assms(2) by simp
  show "0 < nalign_up len page_size" using nalign_up_ge [OF page_size_pos, of len] assms(3) by simp
qed

section \<open>What the calls do\<close>

text \<open>The attributes of the address space after a call.\<close>

definition range_attr :: "nat \<Rightarrow> nat \<Rightarrow> (u32 \<times> u32) option \<Rightarrow> (nat \<Rightarrow> (u32 \<times> u32) option) \<Rightarrow> (nat \<Rightarrow> (u32 \<times> u32) option)" where
  "range_attr addr n x A a = (if addr \<le> a \<and> a < addr + n then x else A a)"

lemma aligned_iff: "is_page_aligned a \<longleftrightarrow> page_size dvd a"
  by (simp add: is_page_aligned_def mod_eq_0_iff_dvd)

lemma vm_munmap_spec:
  assumes "vm_ok s" "page_size dvd addr" "0 < addr" "0 < len" "addr + len \<le> upper_vma_limit"
    and mapped: "all_mapped (attr (vmas s)) addr (nalign_up len page_size)"
  shows "\<exists>s'. vm_munmap addr len s = Some (Inr s') \<and> vm_ok s' \<and>
    attr (vmas s') = range_attr addr (nalign_up len page_size) None (attr (vmas s)) \<and>
    (\<forall>p. present s' p \<longleftrightarrow> present s p \<and> \<not> (addr \<le> p \<and> p < addr + nalign_up len page_size))"
proof -
  define n where "n = nalign_up len page_size"
  note rd = page_round [OF assms(2,5,4), folded n_def]
  have dn: "page_size dvd n" by (simp add: n_def)
  have nn: "up64 n page_size = n" using up64_page [OF dn] rd(2) by simp
  have e: "add64 addr n = addr + n" using rd(2) limit_less(2) by simp
  have im: "ismapped addr n (vmas s) = Some True" using ismapped_vm [OF assms(1,3) rd(3,2)] mapped by (simp add: n_def)
  then obtain sy where sy: "vm_sync addr n s = Some sy" by (auto simp: ismapped_def vm_sync_def nn)
  obtain ret vs pr where ev: "evacuate addr (addr + n) (vmas s) (present s) = Some (ret, vs, pr)"
      "vm_ok (s \<lparr> vmas := vs, present := pr \<rparr>)"
      "\<forall>a. attr vs a = (if addr \<le> a \<and> a < addr + n then None else attr (vmas s) a)"
      "\<forall>p. pr p \<longleftrightarrow> present s p \<and> \<not> (addr \<le> p \<and> p < addr + n)"
    using vm_ok_evacuate [OF assms(1,3) rd(3,2) assms(2) dn] by blast
  have "vm_munmap addr len s = Some (Inr (s \<lparr> vmas := vs, present := pr \<rparr>))"
    using im sy ev(1) by (simp add: vm_munmap_def rd(1) vm_unmap_def nn e)
  moreover have "attr vs = range_attr addr n None (attr (vmas s))" using ev(3) by (auto simp: range_attr_def)
  ultimately show ?thesis using ev(2,4) by (intro exI [of _ "s \<lparr> vmas := vs, present := pr \<rparr>"]) (simp add: n_def)
qed

text \<open>Claim C6: \<open>munmap\<close> of a page aligned range below the limit removes exactly the pages of the
  range from the address space and from the page tables when all of them are mapped, and otherwise
  fails with \<open>EINVAL\<close>, without a change; the areas stay ordered, aligned and apart.\<close>

theorem munmap_exact:
  assumes "vm_ok s" "is_page_aligned addr" "0 < addr" "0 < len" "addr + len \<le> upper_vma_limit"
  shows "if all_mapped (attr (vmas s)) addr (nalign_up len page_size)
    then \<exists>s'. libc_munmap addr len s = Some (Inr s') \<and> vm_ok s' \<and>
      attr (vmas s') = range_attr addr (nalign_up len page_size) None (attr (vmas s)) \<and>
      (\<forall>p. present s' p \<longleftrightarrow> present s p \<and> \<not> (addr \<le> p \<and> p < addr + nalign_up len page_size))
    else libc_munmap addr len s = Some (Inl Vm_einval)"
proof -
  have d: "page_size dvd addr" using assms(2) by (simp add: aligned_iff)
  note rd = page_round [OF d assms(5,4)]
  have l: "libc_munmap addr len s = vm_munmap addr len s"
    using assms(2,4) by (simp add: libc_munmap_def munmap_validate_def)
  show ?thesis
  proof (cases "all_mapped (attr (vmas s)) addr (nalign_up len page_size)")
    case True
    then show ?thesis using vm_munmap_spec [OF assms(1) d assms(3-5) True] l by simp
  next
    case False
    then have "ismapped addr (nalign_up len page_size) (vmas s) = Some False"
      using ismapped_vm [OF assms(1,3) rd(3,2)] by simp
    then have "libc_munmap addr len s = Some (Inl Vm_einval)" using l by (simp add: vm_munmap_def rd(1))
    then show ?thesis using False by simp
  qed
qed

lemma vm_mprotect_spec:
  assumes "vm_ok s" "page_size dvd addr" "0 < addr" "0 < n" "addr + n \<le> upper_vma_limit" "page_size dvd n"
    and mapped: "all_mapped (attr (vmas s)) addr n"
  shows "\<exists>s'. vm_mprotect addr n perm s = Some (Inr s') \<and> vm_ok s' \<and> present s' = present s \<and>
    (\<forall>a. attr (vmas s') a = (if addr \<le> a \<and> a < addr + n then map_option (\<lambda>(_, fl). (perm, fl)) (attr (vmas s) a) else attr (vmas s) a))"
proof -
  obtain as where as: "vmas s = lower_edge # as @ [upper_edge]" "areas_ok as" "lin_ok (linear s)"
      "\<forall>a. in_linear (linear s) a \<longrightarrow> attr as a = None" "\<forall>p. present s p \<longrightarrow> attr as p \<noteq> None" "attr (vmas s) = attr as"
    using vm_okE [OF assms(1)] by metis
  obtain as' where as': "protect addr n perm (vmas s) = Some (lower_edge # as' @ [upper_edge])" "areas_ok as'"
      "\<forall>a. attr as' a = (if addr \<le> a \<and> a < addr + n then map_option (\<lambda>(_, fl). (perm, fl)) (attr as a) else attr as a)"
    using protect_spec [OF as(2) assms(3-5,2,6), of perm] as(1) by metis
  have im: "ismapped addr n (vmas s) = Some True" using ismapped_vm [OF assms(1,3-5)] mapped by simp
  define s' where "s' = s \<lparr> vmas := lower_edge # as' @ [upper_edge] \<rparr>"
  have "vm_ok s'" by (rule vm_okI [of _ as']) (use as as' in \<open>auto simp: s'_def\<close>)
  moreover have "vm_mprotect addr n perm s = Some (Inr s')" using im as'(1) by (simp add: vm_mprotect_def s'_def)
  moreover have "attr (vmas s') = attr as'" unfolding s'_def by (rule ext) (simp del: append_Cons)
  ultimately show ?thesis using as'(3) as(6) by (intro exI [of _ s']) (simp add: s'_def)
qed

text \<open>Claim C22: \<open>mprotect\<close> of a page aligned range below the limit gives every page of the range the
  new permission, and leaves its flags, all other pages and the page tables' population as they are,
  when the whole range is mapped; otherwise it fails with \<open>ENOMEM\<close>, without a change.\<close>

theorem mprotect_exact:
  assumes "vm_ok s" "is_page_aligned addr" "0 < addr" "0 < len" "addr + len \<le> upper_vma_limit"
  shows "if all_mapped (attr (vmas s)) addr (nalign_up len page_size)
    then \<exists>s'. libc_mprotect addr len prot s = Some (Inr s') \<and> vm_ok s' \<and> present s' = present s \<and>
      (\<forall>a. attr (vmas s') a =
         (if addr \<le> a \<and> a < addr + nalign_up len page_size
          then map_option (\<lambda>(_, fl). (libc_prot_to_perm prot, fl)) (attr (vmas s) a) else attr (vmas s) a))
    else libc_mprotect addr len prot s = Some (Inl Vm_enomem)"
proof -
  have d: "page_size dvd addr" using assms(2) by (simp add: aligned_iff)
  note rd = page_round [OF d assms(5,4)]
  have "\<not> negative addr" using assms(5) by (simp add: negative_def upper_vma_limit_def)
  then have l: "libc_mprotect addr len prot s = vm_mprotect addr (nalign_up len page_size) (libc_prot_to_perm prot) s"
    using assms(2) by (simp add: libc_mprotect_def rd(1))
  show ?thesis
  proof (cases "all_mapped (attr (vmas s)) addr (nalign_up len page_size)")
    case True
    have dn: "page_size dvd nalign_up len page_size" by simp
    show ?thesis using vm_mprotect_spec [OF assms(1) d assms(3) rd(3,2) dn True] l True by simp
  next
    case False
    then have "ismapped addr (nalign_up len page_size) (vmas s) = Some False"
      using ismapped_vm [OF assms(1,3) rd(3,2)] by simp
    then have "libc_mprotect addr len prot s = Some (Inl Vm_enomem)" using l by (simp add: vm_mprotect_def)
    then show ?thesis using False by simp
  qed
qed

section \<open>New mappings\<close>

lemma interval_free:
  assumes "vstart v < vend v" "0 < n" "\<forall>a. h \<le> a \<and> a < h + n \<longrightarrow> \<not> covers a v"
  shows "vend v \<le> h \<or> h + n \<le> vstart v"
proof (rule ccontr)
  assume "\<not> ?thesis"
  then have "covers (max h (vstart v)) v" "h \<le> max h (vstart v)" "max h (vstart v) < h + n" using assms(1,2) by (auto simp: covers_def)
  then show False using assms(3) by blast
qed

lemma linear_free:
  assumes "fst r < snd r" "r \<in> set lin" "0 < n" "\<forall>a. h \<le> a \<and> a < h + n \<longrightarrow> \<not> in_linear lin a"
  shows "snd r \<le> h \<or> h + n \<le> fst r"
proof (rule ccontr)
  assume c: "\<not> ?thesis"
  then have "in_linear lin (max h (fst r))"
    unfolding in_linear_def by (intro bexI [OF _ assms(2)]) (use assms(1) in auto)
  moreover have "h \<le> max h (fst r)" "max h (fst r) < h + n" using c assms(3) by auto
  ultimately show False using assms(4) by blast
qed

text \<open>A hole between the ranges is a range that is neither mapped nor in a linear mapping.\<close>

definition range_free :: "vm \<Rightarrow> nat \<Rightarrow> nat \<Rightarrow> bool" where
  "range_free s h n \<longleftrightarrow>
     h + n \<le> upper_vma_limit \<and> (\<forall>a. h \<le> a \<and> a < h + n \<longrightarrow> attr (vmas s) a = None \<and> \<not> in_linear (linear s) a)"

lemma hole_fits_iff:
  assumes "vm_ok s" "0 < n"
  shows "hole_fits n (vma_ranges (vmas s) (linear s)) h \<longleftrightarrow> range_free s h n"
proof -
  obtain as where as: "vmas s = lower_edge # as @ [upper_edge]" "areas_ok as" "lin_ok (linear s)"
      "\<forall>a. in_linear (linear s) a \<longrightarrow> attr as a = None" "attr (vmas s) = attr as"
    using vm_okE [OF assms(1)] by metis
  let ?rs = "vma_ranges (lower_edge # as @ [upper_edge]) (linear s)"
  have area: "vstart v < vend v" if "v \<in> set as" for v using that as(2) by (auto simp: areas_ok_def area_ok_def)
  have lin: "0 < fst r \<and> fst r < snd r" if "r \<in> set (linear s)" for r using that as(3) by (auto simp: lin_ok_def)
  have "hole_fits n ?rs h" if f: "range_free s h n"
    unfolding hole_fits_def
  proof (intro conjI ballI)
    fix r
    assume "r \<in> set ?rs"
    then consider "r = (0, 0)" | "r = (upper_vma_limit, upper_vma_limit)" | v where "v \<in> set as" "r = (vstart v, vend v)" | "r \<in> set (linear s)"
      unfolding vma_ranges_set by blast
    then show "snd r \<le> h \<or> h + n \<le> fst r"
    proof cases
      case (3 v)
      then show ?thesis using interval_free [OF area [OF 3(1)] assms(2)] f as(5) by (auto simp: range_free_def attr_None_iff)
    next
      case 4
      show ?thesis by (rule linear_free [OF _ 4 assms(2)]) (use f lin [OF 4] in \<open>auto simp: range_free_def\<close>)
    qed (use f in \<open>auto simp: range_free_def\<close>)
  qed (use f in \<open>simp add: range_free_def\<close>)
  moreover have "range_free s h n" if f: "hole_fits n ?rs h"
  proof -
    have "attr as a = None" "\<not> in_linear (linear s) a" if a: "h \<le> a" "a < h + n" for a
    proof -
      have "\<not> covers a v" if v: "v \<in> set as" for v
      proof -
        have "(vstart v, vend v) \<in> set ?rs" using v unfolding vma_ranges_set by blast
        then have "vend v \<le> h \<or> h + n \<le> vstart v" using f unfolding hole_fits_def by (metis fst_conv snd_conv)
        then show ?thesis using a by (auto simp: covers_def)
      qed
      then show "attr as a = None" by (simp add: attr_None_iff)
      show "\<not> in_linear (linear s) a"
      proof
        assume "in_linear (linear s) a"
        then obtain r where r: "r \<in> set (linear s)" "fst r \<le> a" "a < snd r" by (auto simp: in_linear_def)
        have "fst r \<notin> vstart ` set as"
        proof
          assume "fst r \<in> vstart ` set as"
          then obtain v where v: "v \<in> set as" "fst r = vstart v" by blast
          then show False using area_linear_apart [OF as(2,4) v(1) r(1)] lin [OF r(1)] area [OF v(1)] by linarith
        qed
        moreover have "fst r \<noteq> upper_vma_limit" using r(2) a f by (auto simp: hole_fits_def)
        ultimately have "r \<in> set ?rs" using r(1) lin [OF r(1)] unfolding vma_ranges_set by auto
        then show False using f r a unfolding hole_fits_def by fastforce
      qed
    qed
    then show ?thesis using f as(5) by (auto simp: range_free_def hole_fits_def)
  qed
  ultimately show ?thesis using as(1) by metis
qed

lemma new_area:
  assumes "page_size dvd a" "page_size dvd n" "0 < a" "0 < n" "a + n \<le> upper_vma_limit"
  shows "vma_set (anon_vma x y perm flags) a (add64 a n) = \<lparr> vstart = a, vend = a + n, vperm = perm, vflags = flags \<rparr>"
    "area_ok \<lparr> vstart = a, vend = a + n, vperm = perm, vflags = flags \<rparr>"
proof -
  have "page_size dvd a + n" using assms(1,2) by simp
  then have "up64 (a + n) page_size = a + n" using up64_page assms(5) by blast
  then show "vma_set (anon_vma x y perm flags) a (add64 a n) = \<lparr> vstart = a, vend = a + n, vperm = perm, vflags = flags \<rparr>"
    using assms limit_less(2) [OF assms(5)] by (simp add: vma_set_def anon_vma_def)
  show "area_ok \<lparr> vstart = a, vend = a + n, vperm = perm, vflags = flags \<rparr>" using assms by (simp add: area_ok_def)
qed

text \<open>The state after the last steps of \<open>map_anon\<close>: the new area is inserted and, if asked for,
  populated.\<close>

definition mapped_state :: "nat \<Rightarrow> nat \<Rightarrow> u32 \<Rightarrow> u32 \<Rightarrow> vm \<Rightarrow> vm" where
  "mapped_state a n perm flags s =
     (let s = s \<lparr> vmas := vma_insert \<lparr> vstart = a, vend = a + n, vperm = perm, vflags = flags \<rparr> (vmas s) \<rparr> in
      if has_flag flags mmap_populate then populate_vma a n s else s)"

lemma mapped_state_ok:
  assumes "vm_ok s" "range_free s a n" "page_size dvd a" "page_size dvd n" "0 < a" "0 < n"
  shows "vm_ok (mapped_state a n perm flags s)"
    "attr (vmas (mapped_state a n perm flags s)) = range_attr a n (Some (perm, flags)) (attr (vmas s))"
    "present (mapped_state a n perm flags s) p \<longleftrightarrow>
       present s p \<or> has_flag flags mmap_populate \<and> page_size dvd p \<and> a \<le> p \<and> p < a + n"
proof -
  define v where "v = \<lparr> vstart = a, vend = a + n, vperm = perm, vflags = flags \<rparr>"
  define s1 where "s1 = s \<lparr> vmas := vma_insert v (vmas s) \<rparr>"
  have c: "covers x v \<longleftrightarrow> a \<le> x \<and> x < a + n" for x by (simp add: covers_def v_def)
  have un: "a + n \<le> upper_vma_limit" using assms(2) by (simp add: range_free_def)
  have ok: "area_ok v" unfolding v_def by (rule new_area(2) [OF assms(3-6) un])
  have free: "\<forall>x. covers x v \<longrightarrow> attr (vmas s) x = None \<and> \<not> in_linear (linear s) x"
    using assms(2) by (simp add: range_free_def c)
  note ins = vm_ok_insert [OF assms(1) ok free]
  have at: "attr (vmas s1) = range_attr a n (Some (perm, flags)) (attr (vmas s))"
  proof
    fix x
    have "vperm v = perm" "vflags v = flags" by (simp_all add: v_def)
    then show "attr (vmas s1) x = range_attr a n (Some (perm, flags)) (attr (vmas s)) x"
      using ins by (simp add: s1_def range_attr_def c)
  qed
  have m: "mapped_state a n perm flags s = (if has_flag flags mmap_populate then populate_vma a n s1 else s1)"
    by (simp add: mapped_state_def s1_def v_def)
  then have vs: "vmas (mapped_state a n perm flags s) = vmas s1" by (simp add: populate_vma_def)
  then show "attr (vmas (mapped_state a n perm flags s)) = range_attr a n (Some (perm, flags)) (attr (vmas s))" using at by simp
  have n: "max (up64 n page_size) page_size = n"
    using up64_page [OF assms(4)] un dvd_imp_le [OF assms(4,6)] by simp
  show p: "present (mapped_state a n perm flags s) p \<longleftrightarrow>
      present s p \<or> has_flag flags mmap_populate \<and> page_size dvd p \<and> a \<le> p \<and> p < a + n" for p
    using assms(3) by (auto simp: m populate_vma_def populate_def in_pages_def n s1_def)
  obtain as where as: "vmas s1 = lower_edge # as @ [upper_edge]" "areas_ok as" "lin_ok (linear s1)"
      "\<forall>x. in_linear (linear s1) x \<longrightarrow> attr as x = None" "\<forall>q. present s1 q \<longrightarrow> attr as q \<noteq> None" "attr (vmas s1) = attr as"
    using vm_okE [of s1] ins s1_def by metis
  have ln: "linear (mapped_state a n perm flags s) = linear s1" by (simp add: m populate_vma_def)
  have "attr as q \<noteq> None" if "present (mapped_state a n perm flags s) q" for q
    using that p [of q] as(5,6) at by (auto simp: s1_def range_attr_def)
  then show "vm_ok (mapped_state a n perm flags s)" using vm_okI [of _ as] as vs ln by simp
qed

lemma map_anon_fixed:
  assumes "vm_ok s" "page_size dvd addr" "0 < addr" "0 < len" "addr + len \<le> upper_vma_limit" "has_flag flags mmap_fixed"
    and "\<forall>a. addr \<le> a \<and> a < addr + nalign_up len page_size \<longrightarrow> \<not> in_linear (linear s) a"
  shows "\<exists>s1. map_anon addr len flags perm s = Some (Inr (addr, mapped_state addr (nalign_up len page_size) perm flags s1)) \<and>
    vm_ok s1 \<and> range_free s1 addr (nalign_up len page_size) \<and>
    (\<forall>a. attr (vmas s1) a = range_attr addr (nalign_up len page_size) None (attr (vmas s)) a) \<and>
    (\<forall>p. present s1 p \<longleftrightarrow> present s p \<and> \<not> (addr \<le> p \<and> p < addr + nalign_up len page_size))"
proof -
  define n where "n = nalign_up len page_size"
  note rd = page_round [OF assms(2,5,4), folded n_def]
  have dn: "page_size dvd n" by (simp add: n_def)
  have e: "add64 addr n = addr + n" using rd(2) limit_less(2) by simp
  obtain ret vs pr where ev: "evacuate addr (addr + n) (vmas s) (present s) = Some (ret, vs, pr)"
      "vm_ok (s \<lparr> vmas := vs, present := pr \<rparr>)"
      "\<forall>a. attr vs a = (if addr \<le> a \<and> a < addr + n then None else attr (vmas s) a)"
      "\<forall>p. pr p \<longleftrightarrow> present s p \<and> \<not> (addr \<le> p \<and> p < addr + n)"
    using vm_ok_evacuate [OF assms(1,3) rd(3,2) assms(2) dn] by blast
  let ?s1 = "s \<lparr> vmas := vs, present := pr \<rparr>"
  have "range_free ?s1 addr n" using ev(3) rd(2) assms(7) by (simp add: range_free_def n_def)
  moreover have "map_anon addr len flags perm s = Some (Inr (addr, mapped_state addr n perm flags ?s1))"
    using assms(6) ev(1) new_area(1) [OF assms(2) dn assms(3) rd(3,2)]
    by (simp add: map_anon_def allocate_def rd(1) e Let_def mapped_state_def)
  ultimately show ?thesis using ev unfolding n_def by (intro exI [of _ ?s1]) (simp add: range_attr_def)
qed

lemma map_anon_search:
  assumes "vm_ok s" "page_size dvd addr" "0 < len" "addr \<le> upper_vma_limit" "len \<le> upper_vma_limit" "\<not> has_flag flags mmap_fixed"
    and st: "st = (if addr = 0 then 0x200000000000 else addr)"
  shows "(\<exists>h. map_anon addr len flags perm s = Some (Inr (h, mapped_state h (nalign_up len page_size) perm flags s)) \<and>
      range_free s h (nalign_up len page_size) \<and> st \<le> h \<and> page_size dvd h) \<or>
    (map_anon addr len flags perm s = Some (Inl Vm_enomem) \<and> (\<forall>h \<ge> st. \<not> range_free s h (nalign_up len page_size)))"
proof -
  define n where "n = nalign_up len page_size"
  have n: "up64 len page_size = n" "n \<le> upper_vma_limit" "0 < n" "page_size dvd n"
    using page_round [of 0 len] assms(3,5) by (simp_all add: n_def)
  obtain as where as: "vmas s = lower_edge # as @ [upper_edge]" "areas_ok as" "lin_ok (linear s)"
      "\<forall>a. in_linear (linear s) a \<longrightarrow> attr as a = None"
    using vm_okE [OF assms(1)] by metis
  define rs where "rs = vma_ranges (vmas s) (linear s)"
  have rs: "ranges_ok rs" unfolding rs_def as(1) by (rule vma_ranges_ok [OF as(2-4)])
  have mem: "(0, 0) \<in> set rs" "(upper_vma_limit, upper_vma_limit) \<in> set rs" unfolding rs_def as(1) vma_ranges_set by blast+
  have top: "\<exists>r \<in> set rs. upper_vma_limit < fst r"
  proof -
    obtain r where r: "r \<in> set (linear s)" "upper_vma_limit < fst r" using as(3) by (auto simp: lin_ok_def)
    moreover have "fst r \<notin> {0, upper_vma_limit} \<union> vstart ` set as"
      using r(2) as(2) by (fastforce simp: areas_ok_def area_ok_def)
    ultimately show ?thesis unfolding rs_def as(1) vma_ranges_set by blast
  qed
  have s0: "0 < st" "st \<le> upper_vma_limit" "page_size dvd st" "st + n < 2 ^ 64"
    using assms(2,4) n(2) st by (auto simp: upper_vma_limit_def page_size_def)
  note f = find_hole_spec [OF rs mem top s0(1-3) n(3) s0(4)]
  have hf: "hole_fits n rs h \<longleftrightarrow> range_free s h n" for h unfolding rs_def by (rule hole_fits_iff [OF assms(1) n(3)])
  show ?thesis
  proof (cases "find_hole st n rs = Some None")
    case True
    then have "map_anon addr len flags perm s = Some (Inl Vm_enomem)"
      using assms(6) by (simp add: map_anon_def allocate_def n(1) Let_def rs_def st)
    then show ?thesis using True f hf unfolding n_def by simp
  next
    case False
    then obtain h where h: "find_hole st n rs = Some (Some h)" "range_free s h n" "st \<le> h" "page_size dvd h" using f hf by blast
    have "h + n \<le> upper_vma_limit" "0 < h" using h(2,3) s0(1) by (simp_all add: range_free_def)
    then have "map_anon addr len flags perm s = Some (Inr (h, mapped_state h n perm flags s))"
      using assms(6) h(1) new_area(1) [OF h(4) n(4) _ n(3)]
      by (simp add: map_anon_def allocate_def n(1) Let_def rs_def st mapped_state_def)
    then show ?thesis using h(2-4) unfolding n_def by blast
  qed
qed

lemma mmap_flag_iff:
  "has_flag (libc_flags_to_mmap flags) mmap_fixed = has_flag flags 0x10"
  "has_flag (libc_flags_to_mmap flags) mmap_populate = has_flag flags 0x8000"
  unfolding libc_flags_to_mmap_def
  by (cases "has_flag flags 0x10"; cases "has_flag flags 0x8000"; cases "has_flag flags 0x20000"; cases "has_flag flags 0x1";
      cases "has_flag flags 0x4000000";
      simp add: has_flag_def mmap_fixed_def mmap_populate_def mmap_shared_def mmap_uninitialized_def mmap_stack_def)+

text \<open>The address where \<open>mmap\<close> starts to look for room.\<close>

definition search_start :: "nat \<Rightarrow> u32 \<Rightarrow> nat" where
  "search_start addr flags = (if addr \<noteq> 0 then addr else if has_flag flags 0x40 then 0x2000000 else 0x200000000000)"

lemma libc_mmap_anon:
  assumes "mmap_validate addr len flags off = None" "has_flag flags 0x20" "addr \<le> upper_vma_limit"
  shows "libc_mmap addr len prot flags off s =
    map_anon (if has_flag flags 0x40 \<and> \<not> has_flag flags 0x10 \<and> addr = 0 then 0x2000000 else addr) len
      (libc_flags_to_mmap flags) (libc_prot_to_perm prot) s"
  using assms by (simp add: libc_mmap_def negative_def upper_vma_limit_def Let_def)


section \<open>An example\<close>

text \<open>One area below the limit, physical memory mapped above it.\<close>

definition demo_area :: vma where
  "demo_area = \<lparr> vstart = 0x10000, vend = 0x20000, vperm = 3, vflags = 0 \<rparr>"

definition demo_vm :: vm where
  "demo_vm = \<lparr> vmas = [lower_edge, demo_area, upper_edge], linear = [(0x500000000000, 0x600000000000)],
     present = (\<lambda>p. p = 0x10000) \<rparr>"

lemma demo_sel: "vmas demo_vm = lower_edge # [demo_area] @ [upper_edge]" "linear demo_vm = [(0x500000000000, 0x600000000000)]"
  by (simp_all add: demo_vm_def)

lemma demo_attr: "attr (vmas demo_vm) a = (if 0x10000 \<le> a \<and> a < 0x20000 then Some (3, 0) else None)"
  unfolding demo_sel attr_edges by (simp add: attr_Cons covers_def demo_area_def)

lemma demo_vm_ok: "vm_ok demo_vm"
proof (rule vm_okI [OF demo_sel(1)])
  show "areas_ok [demo_area]"
    by (simp add: areas_ok_def area_ok_def demo_area_def page_size_def upper_vma_limit_def)
  show "lin_ok (linear demo_vm)" by (simp add: demo_vm_def lin_ok_def page_size_def upper_vma_limit_def)
  show "\<forall>a. in_linear (linear demo_vm) a \<longrightarrow> attr [demo_area] a = None"
    by (auto simp: demo_vm_def in_linear_def attr_Cons covers_def demo_area_def)
  show "\<forall>p. present demo_vm p \<longrightarrow> attr [demo_area] p \<noteq> None"
    by (simp add: demo_vm_def attr_Cons covers_def demo_area_def)
qed

theorem munmap_exact_witness:
  "\<exists>s'. libc_munmap 0x12000 0x1001 demo_vm = Some (Inr s') \<and> vm_ok s' \<and> attr (vmas s') 0x13fff = None \<and>
     attr (vmas s') 0x14000 = Some (3, 0)"
proof -
  have n: "nalign_up 0x1001 page_size = 0x2000" by (simp add: nalign_up_def nalign_down_def page_size_def)
  have h: "is_page_aligned 0x12000" "0x12000 + 0x1001 \<le> upper_vma_limit" "all_mapped (attr (vmas demo_vm)) 0x12000 (nalign_up 0x1001 page_size)"
    by (simp_all add: is_page_aligned_def page_size_def upper_vma_limit_def all_mapped_def demo_attr nalign_up_def nalign_down_def)
  obtain s' where "libc_munmap 0x12000 0x1001 demo_vm = Some (Inr s')" "vm_ok s'"
      "attr (vmas s') = range_attr 0x12000 (nalign_up 0x1001 page_size) None (attr (vmas demo_vm))"
    using munmap_exact [OF demo_vm_ok h(1) _ _ h(2)] h(3) by auto
  then show ?thesis by (intro exI [of _ s']) (simp add: range_attr_def n demo_attr)
qed

theorem mprotect_exact_witness:
  "\<exists>s'. libc_mprotect 0x12000 0x1000 1 demo_vm = Some (Inr s') \<and> attr (vmas s') 0x12fff = Some (1, 0) \<and>
     attr (vmas s') 0x13000 = Some (3, 0)"
proof -
  have n: "nalign_up 0x1000 page_size = 0x1000" by (simp add: nalign_up_def nalign_down_def page_size_def)
  have h: "is_page_aligned 0x12000" "0x12000 + 0x1000 \<le> upper_vma_limit" "all_mapped (attr (vmas demo_vm)) 0x12000 (nalign_up 0x1000 page_size)"
    by (simp_all add: is_page_aligned_def page_size_def upper_vma_limit_def all_mapped_def demo_attr nalign_up_def nalign_down_def)
  have p: "libc_prot_to_perm 1 = 1" by (simp add: libc_prot_to_perm_def has_flag_def perm_read_def)
  obtain s' where "libc_mprotect 0x12000 0x1000 1 demo_vm = Some (Inr s')"
      "\<forall>a. attr (vmas s') a = (if 0x12000 \<le> a \<and> a < 0x12000 + nalign_up 0x1000 page_size
          then map_option (\<lambda>(_, fl). (libc_prot_to_perm 1, fl)) (attr (vmas demo_vm) a) else attr (vmas demo_vm) a)"
    using mprotect_exact [OF demo_vm_ok h(1) _ _ h(2), of 1] h(3) by auto
  then show ?thesis by (intro exI [of _ s']) (simp add: n demo_attr p)
qed


end
