(* ===== verification/Paging.thy ===== *)
theory Paging
  imports Mmap
begin

text \<open>
  Page faults, \<open>madvise\<close>, the program break and the limits of \<open>mmap\<close>: what the handlers of
  \<open>core/mmu.cc\<close> and the calls of \<open>libc/mman.cc\<close> do beyond changing the mappings.
\<close>

section \<open>The area of an address\<close>

lemma attr_area:
  assumes "areas_ok as" "v \<in> set as" "covers a v"
  shows "attr as a = Some (vperm v, vflags v)"
  using assms
proof (induction as)
  case (Cons u as)
  show ?case
  proof (cases "v = u")
    case False
    then have "vend u \<le> vstart v" "v \<in> set as" "areas_ok as" using Cons.prems by (auto simp: areas_ok_Cons)
    moreover have "\<not> covers a u" using calculation(1) Cons.prems(3) by (auto simp: covers_def)
    ultimately show ?thesis using Cons by (simp add: attr_Cons)
  qed (use Cons.prems in \<open>simp add: attr_Cons\<close>)
qed simp

lemma find_intersecting_vma_edges:
  assumes "areas_ok as" "0 < a" "a < upper_vma_limit"
  shows "(\<exists>i. find_intersecting_vma a (lower_edge # as @ [upper_edge]) = Some (Some i) \<and>
      (lower_edge # as @ [upper_edge]) ! i \<in> set as \<and> covers a ((lower_edge # as @ [upper_edge]) ! i)) \<or>
    (find_intersecting_vma a (lower_edge # as @ [upper_edge]) = Some None \<and> attr as a = None)"
proof -
  define b c where "b = takeWhile (\<lambda>v. vstart v < a) as" "c = dropWhile (\<lambda>v. vstart v < a) as"
  have as: "as = b @ c" by (simp add: b_c_def)
  have B: "\<forall>v \<in> set b. vstart v < a" by (auto simp: b_c_def dest: set_takeWhileD)
  have C: "\<forall>v \<in> set c. a \<le> vstart v" using areas_ok_vstart [OF assms(1)] by (auto simp: b_c_def)
  have ok: "areas_ok b" "areas_ok c" using assms(1) as by (simp_all add: areas_ok_append)
  let ?vs = "lower_edge # as @ [upper_edge]"
  have lb: "lower_bound a ?vs = Suc (length b)"
    using lower_bound_append [of "lower_edge # b" a "c @ [upper_edge]"] lower_bound_0 [of "c @ [upper_edge]" a] B C assms(2,3)
    by (cases c) (auto simp: as)
  have nx: "?vs ! Suc (length b) = hd (c @ [upper_edge])" by (cases c) (auto simp: as nth_append)
  have pv: "?vs ! length b = last (lower_edge # b)" by (cases b rule: rev_cases) (auto simp: as nth_append)
  show ?thesis
  proof (cases "vstart (hd (c @ [upper_edge])) = a")
    case True
    then obtain v c' where c: "c = v # c'" using assms(3) by (cases c) auto
    then have "vstart v < vend v" using ok(2) by (simp add: areas_ok_Cons area_ok_def)
    then have "covers a v" using True c by (simp add: covers_def)
    then show ?thesis using True lb nx c as by (auto simp: find_intersecting_vma_def)
  next
    case False
    then have C': "\<forall>v \<in> set c. a < vstart v"
    proof (cases c)
      case (Cons v c')
      then have "\<forall>w \<in> set c'. vstart v < vstart w" using ok(2) by (fastforce simp: areas_ok_Cons area_ok_def)
      then show ?thesis using Cons C False by fastforce
    qed simp
    show ?thesis
    proof (cases "covers a (last (lower_edge # b))")
      case True
      then have "b \<noteq> []" by (auto simp: covers_def)
      then have "last (lower_edge # b) \<in> set as" by (simp add: as)
      then show ?thesis using True False lb nx pv by (auto simp: find_intersecting_vma_def covers_def as)
    next
      case nc: False
      have "attr as a = None"
        unfolding attr_None_iff
      proof
        fix v
        assume "v \<in> set as"
        then consider "v \<in> set c" | "v \<in> set b" using as by auto
        then show "\<not> covers a v"
        proof cases
          case 2
          then obtain b' l where b: "b = b' @ [l]" by (cases b rule: rev_cases) auto
          have "v = l \<or> vend v \<le> vstart l" using 2 ok(1) by (auto simp: b areas_ok_append)
          moreover have "vstart l < a" using B by (simp add: b)
          ultimately show ?thesis using nc b by (auto simp: covers_def)
        qed (use C' in \<open>fastforce simp: covers_def\<close>)
      qed
      moreover have "vstart (last (lower_edge # b)) < a" using B assms(2) by (cases b rule: rev_cases) auto
      then have "find_intersecting_vma a ?vs = Some None"
        using nc False lb nx pv by (auto simp: find_intersecting_vma_def covers_def as)
      ultimately show ?thesis by blast
    qed
  qed
qed

section \<open>Page faults\<close>

definition permits :: "u32 \<Rightarrow> bool \<Rightarrow> bool \<Rightarrow> bool" where
  "permits perm insn write \<longleftrightarrow> has_flag perm (if insn then perm_exec else if write then perm_write else perm_read)"

lemma access_fault_permits: "access_fault v insn write \<longleftrightarrow> \<not> permits (vperm v) insn write"
  by (simp add: access_fault_def permits_def)

text \<open>The pages a fault populates lie in the area of the faulting page, and the page is one of them.\<close>

lemma vma_fault_pages:
  assumes "area_ok v" "covers a v" "page_size dvd a"
  shows "present (vma_fault v a s) a" "present (vma_fault v a s) p \<Longrightarrow> present s p \<or> covers p v"
    "vmas (vma_fault v a s) = vmas s" "linear (vma_fault v a s) = linear s"
proof -
  note v = area_okD [OF assms(1)]
  define hs he where "hs = up64 (vstart v) huge_page_size" "he = nalign_down (vend v) huge_page_size"
  note df = hs_he_def
  have hs: "hs = nalign_up (vstart v) huge_page_size"
    unfolding df by (rule up64_eq) (use v huge_facts in auto)
  define h where "h = nalign_down a huge_page_size"
  have pg: "in_pages a page_size q \<longleftrightarrow> a \<le> q \<and> q < a + page_size" for q
    using assms(3) by (simp add: in_pages_def up64_eq page_size_def)
  have hp: "in_pages h huge_page_size q \<longleftrightarrow> h \<le> q \<and> q < h + huge_page_size" for q
  proof -
    have "page_size dvd h" using huge_facts(1) dvd_trans h_def by (metis nalign_down_dvd)
    then show ?thesis by (simp add: in_pages_def up64_eq page_size_def huge_page_size_def pte_per_page_def)
  qed
  have hin: "vstart v \<le> h \<and> h \<le> a \<and> a < h + huge_page_size \<and> h + huge_page_size \<le> vend v" if "hs \<le> a" "a < he"
  proof -
    have "hs \<le> h" using that(1) nalign_down_greatest [of huge_page_size hs a] by (simp add: h_def hs)
    moreover have "vstart v \<le> hs" using nalign_up_ge [OF huge_facts(2)] by (simp add: hs)
    moreover have "h < he" using that(2) nalign_down_le [of a huge_page_size] unfolding h_def by linarith
    then have "h + huge_page_size \<le> he" by (intro dvd_add_le) (auto simp: h_def df)
    moreover have "he \<le> vend v" by (simp add: df)
    ultimately show ?thesis using nalign_down_gt [OF huge_facts(2), of a] by (simp add: h_def)
  qed
  have pin: "a + page_size \<le> vend v" using dvd_add_le [OF assms(3) v(2)] assms(2) by (simp add: covers_def)
  show "present (vma_fault v a s) a"
    using hin assms(3) by (auto simp: vma_fault_def Let_def df [symmetric] h_def [symmetric] populate_vma_def populate_def pg hp)
  show "present s p \<or> covers p v" if "present (vma_fault v a s) p"
    using that hin pin assms(2)
    by (auto simp: vma_fault_def Let_def df [symmetric] h_def [symmetric] populate_vma_def populate_def pg hp covers_def split: if_splits)
  show "vmas (vma_fault v a s) = vmas s" "linear (vma_fault v a s) = linear s"
    by (simp_all add: vma_fault_def populate_vma_def Let_def)
qed



section \<open>madvise\<close>

text \<open>The areas that intersect a range which starts in one area and ends in the next.\<close>

lemma areas_in_two:
  assumes "areas_ok (us @ A # B # ws)" "vstart A < addr" "addr < vend A" "vstart B < e" "e < vend B"
  shows "areas_below addr (us @ A # B # ws) = us" "areas_in addr e (us @ A # B # ws) = [A, B]"
proof -
  have u: "\<forall>u \<in> set us. vend u \<le> addr" "vend A \<le> vstart B" "\<forall>w \<in> set ws. vend B \<le> vstart w" "vstart B < vend B" "vstart A < vend A"
    using assms(1,2) by (fastforce simp: areas_ok_append areas_ok_Cons area_ok_def)+
  then show "areas_below addr (us @ A # B # ws) = us" using assms(3) by (simp add: areas_below_def)
  have "takeWhile (\<lambda>v. vstart v < e) ws = []" using u(3) assms(5) by (cases ws) auto
  then show "areas_in addr e (us @ A # B # ws) = [A, B]" using u assms(2-4) by (simp add: areas_in_def)
qed

text \<open>Claim C37: \<open>madvise(MADV_DONTNEED)\<close> on a range that starts inside one area, ends inside the
  next and is as long as the first area discards one page too many: the page behind the range is
  unpopulated as well and its contents are lost.\<close>

theorem madvise_overreach:
  assumes "vm_ok s" "vmas s = lower_edge # (us @ A # B # ws) @ [upper_edge]" "vend A = vstart B"
    and "vstart A < addr" "addr < vend A" "len = vend A - vstart A" "addr + len < vend B" "page_size dvd addr"
  shows "\<exists>s'. libc_madvise addr len 4 s = Some (Inr s') \<and>
    (\<forall>p. present s' p \<longleftrightarrow> present s p \<and> \<not> (addr \<le> p \<and> p < addr + len + page_size))"
proof -
  let ?as = "us @ A # B # ws"
  have ok: "areas_ok ?as" using vm_okE [OF assms(1)] assms(2) by (metis append_same_eq list.inject)
  have AB: "area_ok A" "area_ok B" using ok by (simp_all add: areas_ok_append areas_ok_Cons)
  note A = area_okD [OF AB(1)] and B = area_okD [OF AB(2)]
  have len: "page_size dvd len" "0 < len" "len \<le> upper_vma_limit" using A assms(6) by (auto simp: dvd_diff_nat)
  have e: "addr + len \<le> upper_vma_limit" "vstart B < addr + len" "0 < addr" using assms(3-7) A B by linarith+
  have al: "add64 addr len = addr + len" using e(1) limit_less(2) by simp
  have ul: "up64 len page_size = len" using up64_page len by blast
  have sz: "vma_size A = len" using A(4,5) assms(6) limit_less(2) [OF A(5)] by (simp add: vma_size_def)
  note two = areas_in_two [OF ok assms(4,5) e(2) assms(7)]
  have f: "find_intersecting_vmas addr (addr + len) (vmas s) = Some (Suc (length us), Suc (length us) + 2)"
    using find_intersecting_vmas_edges [OF ok e(3) _ e(1)] len(2) assms(2) two by (simp add: Let_def)
  have m: "all_mapped (attr (vmas s)) addr len"
    unfolding all_mapped_def
  proof (intro allI impI)
    fix x
    assume x: "addr \<le> x \<and> x < addr + len"
    then have "covers x A \<or> covers x B" using assms(3-7) by (auto simp: covers_def)
    then have "attr ?as x \<noteq> None" by (auto simp: attr_None_iff)
    then show "attr (vmas s) x \<noteq> None" unfolding assms(2) attr_edges .
  qed
  have im: "ismapped addr len (vmas s) = Some True" using ismapped_vm [OF assms(1) e(3) len(2) e(1)] m by simp
  have "take 2 (drop (Suc (length us)) (vmas s)) = [A, B]" by (simp add: assms(2))
  then have d: "depopulate addr len s = Some (s \<lparr> present := depopulate_loop addr len [A, B] (present s) \<rparr>)"
    using f by (simp add: depopulate_def ul al)
  have "len mod 2 ^ 64 = len" "(len + (2 ^ 64 - len)) mod 2 ^ 64 = 0" using limit_less(2) [OF len(3)] by simp_all
  then have dl: "depopulate_loop addr len [A, B] (present s) = unpopulate (addr + len) 0 (unpopulate addr len (present s))"
    by (simp add: sz al)
  have p1: "in_pages addr len p \<longleftrightarrow> addr \<le> p \<and> p < addr + len" for p
    using assms(8) ul dvd_imp_le [OF len(1,2)] by (simp add: in_pages_def)
  have p2: "in_pages (addr + len) 0 p \<longleftrightarrow> addr + len \<le> p \<and> p < addr + len + page_size" for p
    using assms(8) len(1) up64_page [of 0] by (simp add: in_pages_def)
  have "\<forall>p. depopulate_loop addr len [A, B] (present s) p \<longleftrightarrow> present s p \<and> \<not> (addr \<le> p \<and> p < addr + len + page_size)"
    unfolding dl unpopulate_def p1 p2 by auto
  then show ?thesis using im d by (simp add: libc_madvise_def libc_madvise_to_advise_def advise_def)
qed

definition demo_two :: vm where
  "demo_two = \<lparr> vmas = [lower_edge, \<lparr> vstart = 0x10000, vend = 0x14000, vperm = 3, vflags = 0 \<rparr>,
       \<lparr> vstart = 0x14000, vend = 0x18000, vperm = 1, vflags = 0 \<rparr>, upper_edge],
     linear = [(0x500000000000, 0x600000000000)], present = (\<lambda>p. p = 0x13000 \<or> p = 0x16000) \<rparr>"

lemma demo_two_sel: "vmas demo_two = lower_edge # ([] @ \<lparr> vstart = 0x10000, vend = 0x14000, vperm = 3, vflags = 0 \<rparr> #
    \<lparr> vstart = 0x14000, vend = 0x18000, vperm = 1, vflags = 0 \<rparr> # []) @ [upper_edge]"
  by (simp add: demo_two_def)

lemma demo_two_ok: "vm_ok demo_two"
proof (rule vm_okI [OF demo_two_sel])
  show "lin_ok (linear demo_two)" by (simp add: demo_two_def lin_ok_def page_size_def upper_vma_limit_def)
qed (auto simp: areas_ok_def area_ok_def page_size_def upper_vma_limit_def demo_two_def in_linear_def attr_Cons covers_def)

theorem madvise_overreach_witness:
  "\<exists>s'. libc_madvise 0x12000 0x4000 4 demo_two = Some (Inr s') \<and> present demo_two 0x16000 \<and> \<not> present s' 0x16000"
proof -
  obtain s' where "libc_madvise 0x12000 0x4000 4 demo_two = Some (Inr s')"
      "\<forall>p. present s' p \<longleftrightarrow> present demo_two p \<and> \<not> (0x12000 \<le> p \<and> p < 0x12000 + 0x4000 + page_size)"
    using madvise_overreach [OF demo_two_ok demo_two_sel, where addr = "0x12000" and len = "0x4000"] by (auto simp: page_size_def)
  then show ?thesis by (intro exI [of _ s']) (simp add: demo_two_def page_size_def)
qed

section \<open>Lengths near the end of the address space\<close>

text \<open>The address space after boot: the markers, and linear mappings above the limit.\<close>

definition boot_vm :: "nat \<Rightarrow> nat \<Rightarrow> vm" where
  "boot_vm a b = \<lparr> vmas = vma_list_init, linear = [(a, b)], present = (\<lambda>p. False) \<rparr>"

lemma vma_list_init_eq: "vma_list_init = [lower_edge, upper_edge]"
  using limit_facts(3) edge_simps unfolding vma_list_init_def lower_edge_def [symmetric] upper_edge_def [symmetric] by simp

lemma up64_wraps:
  assumes "2 ^ 64 - page_size < len" "len < 2 ^ 64"
  shows "up64 len page_size = 0"
proof -
  obtain k where k: "len = 2 ^ 64 - k" "0 < k" "k < page_size" using assms by (intro that [of "2 ^ 64 - len"]) auto
  then have "len + (page_size - 1) = (page_size - 1 - k) + 2 ^ 64" by (simp add: page_size_def)
  then have "add64 len (page_size - 1) = (page_size - 1 - k) mod 2 ^ 64" by (simp only: add64_def mod_add_self2)
  also have "\<dots> = page_size - 1 - k" by (rule mod_less) (simp add: page_size_def)
  finally show ?thesis using k(2) by (simp add: up64_def nalign_down_def page_size_def)
qed



section \<open>The program break\<close>

text \<open>The break lies inside its area, which lies below the limit.\<close>

definition brk_ok :: "brk_area \<Rightarrow> bool" where
  "brk_ok b \<longleftrightarrow> 0 < initial_program_break b \<and> initial_program_break b + break_area_size b \<le> upper_vma_limit \<and>
     initial_program_break b \<le> program_break b \<and> program_break b < initial_program_break b + break_area_size b"

lemma depopulate_loop_mono: "depopulate_loop start len vs pr p \<Longrightarrow> pr p"
  by (induction start len vs pr rule: depopulate_loop.induct) (auto simp: unpopulate_def)

lemma vm_ok_unpopulated:
  assumes "vm_ok s" "\<forall>p. pr p \<longrightarrow> present s p"
  shows "vm_ok (s \<lparr> present := pr \<rparr>)"
proof -
  obtain as where as: "vmas s = lower_edge # as @ [upper_edge]" "areas_ok as" "lin_ok (linear s)"
      "\<forall>a. in_linear (linear s) a \<longrightarrow> attr as a = None" "\<forall>p. present s p \<longrightarrow> attr as p \<noteq> None"
    using vm_okE [OF assms(1)] by metis
  show ?thesis by (rule vm_okI [of _ as]) (use as assms(2) in auto)
qed

lemma advise_dontneed:
  assumes "vm_ok s" "0 < st" "0 < n" "st + n \<le> upper_vma_limit"
  shows "advise st n Advise_dontneed s = Some (Inl Vm_enomem) \<or>
    (\<exists>s'. advise st n Advise_dontneed s = Some (Inr s') \<and> vm_ok s' \<and> vmas s' = vmas s \<and> (\<forall>p. present s' p \<longrightarrow> present s p))"
proof (cases "all_mapped (attr (vmas s)) st n")
  case False
  then show ?thesis using ismapped_vm [OF assms] by (simp add: advise_def)
next
  case True
  obtain as where as: "vmas s = lower_edge # as @ [upper_edge]" "areas_ok as" using vm_okE [OF assms(1)] by metis
  have n: "up64 n page_size + st < 2 ^ 64"
    using nalign_up_lt [OF page_size_pos, of n] up64_eq [OF page_size_pos, of n] limit_less(1) [of n] assms(4)
    by (simp add: upper_vma_limit_def page_size_def)
  have "\<exists>ij. find_intersecting_vmas st (add64 st (up64 n page_size)) (vmas s) = Some ij"
  proof -
    have "takeWhile (\<lambda>v. vstart v < st) (vmas s) \<noteq> vmas s"
      using assms(3,4) as(1) by (auto simp: takeWhile_eq_all_conv)
    then have "lower_bound st (vmas s) < length (vmas s)"
      unfolding lower_bound_def by (metis length_takeWhile_le nat_less_le takeWhile_eq_take take_all_iff)
    moreover have "0 < lower_bound st (vmas s)" using assms(2) as(1) by (simp add: lower_bound_def)
    ultimately have "lower_bound st (vmas s) < length (vmas s)" "0 < lower_bound st (vmas s)" by blast+
    then show ?thesis by (auto simp: find_intersecting_vmas_def Let_def)
  qed
  then obtain i j where "find_intersecting_vmas st (add64 st (up64 n page_size)) (vmas s) = Some (i, j)" by auto
  then have d: "depopulate st n s = Some (s \<lparr> present := depopulate_loop st (up64 n page_size) (take (j - i) (drop i (vmas s))) (present s) \<rparr>)"
    by (simp add: depopulate_def)
  have "vm_ok (s \<lparr> present := depopulate_loop st (up64 n page_size) (take (j - i) (drop i (vmas s))) (present s) \<rparr>)"
    by (rule vm_ok_unpopulated [OF assms(1)]) (auto dest: depopulate_loop_mono)
  then show ?thesis
    using d True ismapped_vm [OF assms] by (auto simp: advise_def dest: depopulate_loop_mono)
qed

lemma huge_up:
  assumes "a \<le> upper_vma_limit"
  shows "up64 a huge_page_size = nalign_up a huge_page_size" "nalign_up a huge_page_size \<le> upper_vma_limit"
proof -
  show "up64 a huge_page_size = nalign_up a huge_page_size" by (rule up64_eq) (use assms huge_facts in auto)
  show "nalign_up a huge_page_size \<le> upper_vma_limit"
    by (rule nalign_up_least) (use assms huge_facts(2) in \<open>simp_all add: huge_page_size_def page_size_def pte_per_page_def upper_vma_limit_def\<close>)
qed

lemma internal_brk_inside:
  assumes "vm_ok s" "brk_ok b" "initial_program_break b \<le> addr" "addr < initial_program_break b + break_area_size b"
  shows "\<exists>s'. internal_brk addr (b, s) = Some (True, b \<lparr> program_break := addr \<rparr>, s') \<and> vm_ok s' \<and> vmas s' = vmas s \<and>
    (\<forall>p. present s' p \<longrightarrow> present s p)"
proof -
  have b: "0 < addr" "add64 (initial_program_break b) (break_area_size b) = initial_program_break b + break_area_size b"
      "program_break b \<le> upper_vma_limit" "addr \<le> upper_vma_limit"
    using assms limit_less(2) [of "initial_program_break b + break_area_size b"] by (auto simp: brk_ok_def)
  define st en where "st = nalign_up addr huge_page_size" "en = nalign_up (program_break b) huge_page_size"
  have u: "up64 addr huge_page_size = st" "up64 (program_break b) huge_page_size = en" "en \<le> upper_vma_limit" "0 < st"
    using huge_up [OF b(3)] huge_up [OF b(4)] nalign_up_ge [OF huge_facts(2), of addr] b(1) by (auto simp: st_en_def)
  show ?thesis
  proof (cases "addr < program_break b \<and> st < en")
    case False
    then have "internal_brk addr (b, s) = Some (True, b \<lparr> program_break := addr \<rparr>, s)"
      using assms(3,4) b by (auto simp: internal_brk_def u)
    then show ?thesis using assms(1) by simp
  next
    case True
    then have "0 < en - st" "st + (en - st) \<le> upper_vma_limit" using u(3) by simp_all
    note ad = advise_dontneed [OF assms(1) u(4) this]
    have "internal_brk addr (b, s) =
        (case advise st (en - st) Advise_dontneed s of None \<Rightarrow> None
         | Some (Inl _) \<Rightarrow> Some (True, b \<lparr> program_break := addr \<rparr>, s) | Some (Inr s) \<Rightarrow> Some (True, b \<lparr> program_break := addr \<rparr>, s))"
      using assms(3,4) b True by (simp add: internal_brk_def u)
    then show ?thesis using ad assms(1) by auto
  qed
qed



end
