(* ===== verification/PtElement.thy ===== *)
theory PtElement
  imports Mmap
begin

text \<open>
  Page table entries: the accessors of \<open>pt_element\<close> on x86-64 (\<open>arch/x64/arch-mmu.hh\<close>), the level
  traits of \<open>include/osv/mmu-defs.hh\<close>, the helpers of \<open>include/osv/mmu.hh\<close>, and the operations of
  \<open>core/mmu.cc\<close> on one entry: permission changes, copy-on-write marks, address translation and the
  splitting of a 2 MB entry into a table of 512 small ones.

  An entry is its 64-bit word. The level, a template parameter in the source, is a natural number. A
  failed assertion is \<open>None\<close>.
\<close>

section \<open>Levels\<close>

definition leaf_capable :: "nat \<Rightarrow> bool" where
  "leaf_capable n \<longleftrightarrow> n = 0 \<or> n = 1"

definition large_capable :: "nat \<Rightarrow> bool" where
  "large_capable n \<longleftrightarrow> n = 1"

definition intermediate_capable :: "nat \<Rightarrow> bool" where
  "intermediate_capable n \<longleftrightarrow> n \<noteq> 0"

text \<open>Ones for the bits an entry of this level provides, zeroes for those of the virtual address.\<close>

definition pte_level_mask :: "nat \<Rightarrow> u64" where
  "pte_level_mask level = NOT (push_bit (level * pte_per_page_shift + page_size_shift) 1 - 1)"

section \<open>Accessors\<close>

definition rsvd_bits_used :: nat where
  "rsvd_bits_used = 1"

definition max_phys_bits :: nat where
  "max_phys_bits = 52 - rsvd_bits_used"

definition pte_addr_mask :: "bool \<Rightarrow> u64" where
  "pte_addr_mask large =
     (push_bit max_phys_bits 1 - 1) AND NOT 0xfff AND NOT (push_bit page_size_shift (of_bool large))"

definition pte_set_bit :: "nat \<Rightarrow> bool \<Rightarrow> u64 \<Rightarrow> u64" where
  "pte_set_bit nr v x = (x AND NOT (push_bit nr 1)) OR push_bit nr (of_bool v)"

definition pte_empty :: "u64 \<Rightarrow> bool" where
  "pte_empty x \<longleftrightarrow> x = 0"

definition pte_valid :: "u64 \<Rightarrow> bool" where
  "pte_valid x \<longleftrightarrow> x AND 1 \<noteq> 0"

definition pte_writable :: "u64 \<Rightarrow> bool" where
  "pte_writable x \<longleftrightarrow> x AND 2 \<noteq> 0"

definition pte_executable :: "u64 \<Rightarrow> bool" where
  "pte_executable x \<longleftrightarrow> drop_bit 63 x = 0"

definition pte_large :: "nat \<Rightarrow> u64 \<Rightarrow> bool" where
  "pte_large n x \<longleftrightarrow> large_capable n \<and> x AND 0x80 \<noteq> 0"

definition pte_dirty :: "nat \<Rightarrow> u64 \<Rightarrow> bool option" where
  "pte_dirty n x = (if \<not> large_capable n \<or> pte_large n x then Some (x AND 0x40 \<noteq> 0) else None)"

definition pte_user :: "u64 \<Rightarrow> bool" where
  "pte_user x \<longleftrightarrow> x AND 4 \<noteq> 0"

definition pte_accessed :: "u64 \<Rightarrow> bool" where
  "pte_accessed x \<longleftrightarrow> x AND 0x20 \<noteq> 0"

definition sw_bit :: "nat \<Rightarrow> u64 \<Rightarrow> bool option" where
  "sw_bit off x = (if off < 10 then Some (drop_bit (53 + off) x AND 1 \<noteq> 0) else None)"

definition rsvd_bit :: "nat \<Rightarrow> u64 \<Rightarrow> bool option" where
  "rsvd_bit off x = (if off < rsvd_bits_used then Some (drop_bit (51 - off) x AND 1 \<noteq> 0) else None)"

definition pte_addr :: "nat \<Rightarrow> u64 \<Rightarrow> u64" where
  "pte_addr n x = x AND pte_addr_mask (pte_large n x)"

definition pte_pfn :: "nat \<Rightarrow> u64 \<Rightarrow> u64" where
  "pte_pfn n x = drop_bit page_size_shift (pte_addr n x)"

definition next_pt_addr :: "nat \<Rightarrow> u64 \<Rightarrow> u64 option" where
  "next_pt_addr n x = (if pte_large n x then None else Some (pte_addr n x))"

definition next_pt_pfn :: "nat \<Rightarrow> u64 \<Rightarrow> u64 option" where
  "next_pt_pfn n x = (if pte_large n x then None else Some (pte_pfn n x))"

definition set_valid :: "bool \<Rightarrow> u64 \<Rightarrow> u64" where
  "set_valid v = pte_set_bit 0 v"

definition set_writable :: "bool \<Rightarrow> u64 \<Rightarrow> u64" where
  "set_writable v = pte_set_bit 1 v"

definition set_executable :: "bool \<Rightarrow> u64 \<Rightarrow> u64" where
  "set_executable v = pte_set_bit 63 (\<not> v)"

definition set_dirty :: "bool \<Rightarrow> u64 \<Rightarrow> u64" where
  "set_dirty v = pte_set_bit 6 v"

definition set_large :: "bool \<Rightarrow> u64 \<Rightarrow> u64" where
  "set_large v = pte_set_bit 7 v"

definition set_user :: "bool \<Rightarrow> u64 \<Rightarrow> u64" where
  "set_user v = pte_set_bit 2 v"

definition set_accessed :: "bool \<Rightarrow> u64 \<Rightarrow> u64" where
  "set_accessed v = pte_set_bit 5 v"

definition set_sw_bit :: "nat \<Rightarrow> bool \<Rightarrow> u64 \<Rightarrow> u64 option" where
  "set_sw_bit off v x = (if off < 10 then Some (pte_set_bit (53 + off) v x) else None)"

definition set_rsvd_bit :: "nat \<Rightarrow> bool \<Rightarrow> u64 \<Rightarrow> u64 option" where
  "set_rsvd_bit off v x = (if off < rsvd_bits_used then Some (pte_set_bit (51 - off) v x) else None)"

definition set_addr :: "u64 \<Rightarrow> bool \<Rightarrow> u64 \<Rightarrow> u64" where
  "set_addr addr large x = (x AND NOT (pte_addr_mask large)) OR addr"

definition set_pfn :: "u64 \<Rightarrow> bool \<Rightarrow> u64 \<Rightarrow> u64" where
  "set_pfn pfn large = set_addr (push_bit page_size_shift pfn) large"

definition mod_addr :: "nat \<Rightarrow> u64 \<Rightarrow> u64 \<Rightarrow> u64" where
  "mod_addr n addr x = set_addr addr (pte_large n x) x"

section \<open>Operations on an entry\<close>

definition make_pte :: "nat \<Rightarrow> u64 \<Rightarrow> bool \<Rightarrow> u32 \<Rightarrow> u64 option" where
  "make_pte n addr leaf perm =
     (if leaf_capable n \<or> \<not> leaf
      then
        (let large = large_capable n \<and> leaf;
             pte = set_valid (perm \<noteq> 0) 0;
             pte = set_writable (perm AND perm_write \<noteq> 0) pte;
             pte = set_executable (perm AND perm_exec \<noteq> 0) pte;
             pte = set_dirty True pte;
             pte = set_large large pte;
             pte = set_addr addr large pte;
             pte = set_user True pte
         in Some (set_accessed True pte))
      else None)"

text \<open>The default permission of \<open>make_pte\<close> is \<open>perm_rwx\<close>. The static assertions are the guards.\<close>

definition perm_rwx :: u32 where
  "perm_rwx = perm_read OR perm_write OR perm_exec"

definition make_intermediate_pte :: "nat \<Rightarrow> u64 \<Rightarrow> u64 option" where
  "make_intermediate_pte n addr = (if intermediate_capable n then make_pte n addr False perm_rwx else None)"

definition make_leaf_pte :: "nat \<Rightarrow> u64 \<Rightarrow> u32 \<Rightarrow> u64 option" where
  "make_leaf_pte n addr perm = (if leaf_capable n then make_pte n addr True perm else None)"

definition pte_cow :: nat where
  "pte_cow = 0"

definition pte_is_cow :: "nat \<Rightarrow> u64 \<Rightarrow> bool" where
  "pte_is_cow n x \<longleftrightarrow> n = 0 \<and> sw_bit pte_cow x = Some True"

definition pte_mark_cow :: "u64 \<Rightarrow> bool \<Rightarrow> u64 option" where
  "pte_mark_cow x cow = set_sw_bit pte_cow cow (if cow then set_writable False x else x)"

text \<open>The new entry, and whether the translation caches must be flushed.\<close>

definition change_perm :: "nat \<Rightarrow> u32 \<Rightarrow> u64 \<Rightarrow> (bool \<times> u64) option" where
  "change_perm n perm x =
     (let old = (if pte_valid x then perm_read else 0) OR (if pte_writable x then perm_write else 0) OR
            (if pte_executable x then perm_exec else 0);
          perm = (if pte_is_cow n x then perm AND NOT perm_write else perm);
          pte = set_valid True x;
          pte = set_writable (perm AND perm_write \<noteq> 0) pte;
          pte = set_executable (perm AND perm_exec \<noteq> 0) pte
      in case set_rsvd_bit 0 (perm = 0) pte of
           None \<Rightarrow> None
         | Some pte' \<Rightarrow> Some (old AND NOT perm \<noteq> 0, pte'))"

text \<open>Clearing the accessed and dirty flags, with the flag that was set.\<close>

definition clear_accessed :: "u64 \<Rightarrow> bool \<times> u64" where
  "clear_accessed x = (pte_accessed x, if pte_accessed x then set_accessed False x else x)"

definition clear_dirty :: "nat \<Rightarrow> u64 \<Rightarrow> (bool \<times> u64) option" where
  "clear_dirty n x =
     (case pte_dirty n x of None \<Rightarrow> None | Some d \<Rightarrow> Some (d, if d then set_dirty False x else x))"

text \<open>The physical address that an entry gives the virtual address \<open>v\<close> (\<open>virt_to_phys_map::page\<close>).\<close>

definition v2p :: "nat \<Rightarrow> u64 \<Rightarrow> u64 \<Rightarrow> u64" where
  "v2p n x v = pte_addr n x OR (v AND NOT (pte_level_mask n))"

text \<open>
  The table that replaces a large entry and the entry that points to it; \<open>pt_page\<close> is the physical
  address of the page the table is allocated in.
\<close>

definition split_entry :: "u64 \<Rightarrow> nat \<Rightarrow> u64" where
  "split_entry org i = set_addr (pte_addr 1 org OR push_bit page_size_shift (word_of_nat i)) False org"

definition allocate_intermediate_level :: "u64 \<Rightarrow> u64 \<Rightarrow> (u64 list \<times> u64) option" where
  "allocate_intermediate_level pt_page org =
     (case make_intermediate_pte 1 pt_page of
        None \<Rightarrow> None
      | Some p \<Rightarrow> Some (map (split_entry org) [0..<pte_per_page], p))"

definition split_large_page :: "u64 \<Rightarrow> u64 \<Rightarrow> (u64 list \<times> u64) option" where
  "split_large_page pt_page x = allocate_intermediate_level pt_page (set_large False x)"

section \<open>Entries bit by bit\<close>

named_theorems pte_bits "entries as sets of bits"

lemma and_power_iff: "x AND push_bit n 1 \<noteq> 0 \<longleftrightarrow> bit x n" for x :: u64
  by (simp add: push_bit_eq_mult and_exp_eq_0_iff_not_bit)

lemma pte_flags [pte_bits]:
  "pte_valid x \<longleftrightarrow> bit x 0" "pte_writable x \<longleftrightarrow> bit x 1" "pte_user x \<longleftrightarrow> bit x 2"
  "pte_accessed x \<longleftrightarrow> bit x 5" "pte_large n x \<longleftrightarrow> n = 1 \<and> bit x 7"
  "pte_dirty n x = (if n = 1 \<and> \<not> bit x 7 then None else Some (bit x 6))"
  using and_power_iff [of x 0] and_power_iff [of x 1] and_power_iff [of x 2] and_power_iff [of x 5]
    and_power_iff [of x 6] and_power_iff [of x 7]
  by (simp_all add: pte_valid_def pte_writable_def pte_user_def pte_accessed_def pte_large_def
      pte_dirty_def large_capable_def push_bit_eq_mult)

lemma bit_above [simp]: "64 \<le> k \<Longrightarrow> \<not> bit x k" for x :: u64
  using bit_imp_le_length [of x k] by auto

lemma pte_top [pte_bits]: "pte_executable x \<longleftrightarrow> \<not> bit x 63"
proof
  assume "pte_executable x"
  then have "\<not> bit (drop_bit 63 x) 0" by (simp add: pte_executable_def)
  then show "\<not> bit x 63" by (simp add: bit_drop_bit_eq)
next
  assume *: "\<not> bit x 63"
  have "drop_bit 63 x = 0"
  proof (rule bit_word_eqI)
    fix k
    show "bit (drop_bit 63 x) k = bit (0 :: u64) k" using * by (cases k) (auto simp: bit_drop_bit_eq)
  qed
  then show "pte_executable x" by (simp add: pte_executable_def)
qed

lemma pte_soft [pte_bits]:
  "rsvd_bit 0 x = Some (bit x 51)" "off < 10 \<Longrightarrow> sw_bit off x = Some (bit x (53 + off))"
  using and_power_iff [of "drop_bit 51 x" 0] and_power_iff [of "drop_bit (53 + off) x" 0]
  by (simp_all only: rsvd_bit_def rsvd_bits_used_def sw_bit_def bit_drop_bit_eq push_bit_0_id id_apply)
    (simp_all add: bit_drop_bit_eq)

lemma bit_pte_set_bit [pte_bits]:
  "nr < 64 \<Longrightarrow> bit (pte_set_bit nr v x) k \<longleftrightarrow> (if k = nr then v else bit x k)"
  by (cases "k < 64") (auto simp: pte_set_bit_def bit_simps)

lemma bit_pte_addr_mask [pte_bits]:
  "bit (pte_addr_mask large) k \<longleftrightarrow> 12 \<le> k \<and> k < 51 \<and> \<not> (large \<and> k = 12)"
proof -
  have "push_bit max_phys_bits 1 - 1 = (mask 51 :: u64)" "(0xfff :: u64) = mask 12"
    by (simp_all add: max_phys_bits_def rsvd_bits_used_def mask_eq_exp_minus_1)
  then have "pte_addr_mask large = mask 51 AND NOT (mask 12) AND NOT (push_bit 12 (of_bool large))"
    by (simp only: pte_addr_mask_def page_size_shift_def)
  then show ?thesis by (cases "k < 64") (auto simp: bit_simps)
qed

lemma bit_pte_addr [pte_bits]:
  "bit (pte_addr n x) k \<longleftrightarrow> bit x k \<and> 12 \<le> k \<and> k < 51 \<and> \<not> (n = 1 \<and> bit x 7 \<and> k = 12)"
  by (auto simp: pte_addr_def bit_and_iff pte_bits)

lemma bit_set_addr [pte_bits]:
  "bit (set_addr a large x) k \<longleftrightarrow> bit a k \<or> bit x k \<and> \<not> (12 \<le> k \<and> k < 51 \<and> \<not> (large \<and> k = 12))"
  by (cases "k < 64") (auto simp: set_addr_def bit_simps pte_bits)

lemmas pte_setters = set_valid_def set_writable_def set_executable_def set_dirty_def set_large_def
  set_user_def set_accessed_def

text \<open>An address that fits the address field of an entry.\<close>

definition addr_fits :: "bool \<Rightarrow> u64 \<Rightarrow> bool" where
  "addr_fits large a \<longleftrightarrow> a AND NOT (pte_addr_mask large) = 0"

lemma addr_fits_bits:
  assumes "addr_fits large a"
  shows "bit a k \<Longrightarrow> 12 \<le> k \<and> k < 51 \<and> \<not> (large \<and> k = 12)"
proof -
  have "bit (a AND NOT (pte_addr_mask large)) k = bit (0 :: u64) k"
    using assms by (simp add: addr_fits_def)
  then show "bit a k \<Longrightarrow> 12 \<le> k \<and> k < 51 \<and> \<not> (large \<and> k = 12)"
    by (cases "k < 64") (auto simp: bit_simps pte_bits)
qed

section \<open>Making entries\<close>

lemma perm_bits:
  "perm AND perm_read \<noteq> 0 \<longleftrightarrow> bit perm 0" "perm AND perm_write \<noteq> 0 \<longleftrightarrow> bit perm 1"
  "perm AND perm_exec \<noteq> 0 \<longleftrightarrow> bit perm 2"
  using and_exp_eq_0_iff_not_bit [of perm 0] and_exp_eq_0_iff_not_bit [of perm 1] and_exp_eq_0_iff_not_bit [of perm 2]
  by (simp_all add: perm_read_def perm_write_def perm_exec_def)

lemma bit_perm [simp]:
  "bit perm_read k \<longleftrightarrow> k = 0" "bit perm_write k \<longleftrightarrow> k = 1" "bit perm_exec k \<longleftrightarrow> k = 2"
  using bit_exp_iff [where 'a = "32 word", of 0 k] bit_exp_iff [where 'a = "32 word", of 1 k]
    bit_exp_iff [where 'a = "32 word", of 2 k]
  by (auto simp: perm_read_def perm_write_def perm_exec_def)

text \<open>The entry \<open>make_pte\<close> builds, bit by bit.\<close>

lemma bit_make_pte:
  assumes "make_pte n a leaf perm = Some p" "addr_fits (large_capable n \<and> leaf) a"
  shows "bit p k \<longleftrightarrow> (if k = 0 then perm \<noteq> 0 else if k = 1 then bit perm 1 else if k = 63 then \<not> bit perm 2
    else if k = 7 then n = 1 \<and> leaf else k \<in> {2, 5, 6} \<or> bit a k)"
  using assms(1) addr_fits_bits [OF assms(2), of k] addr_fits_bits [OF assms(2), of 7]
  by (auto simp: make_pte_def Let_def pte_setters pte_bits perm_bits large_capable_def split: if_splits)

lemma make_pte_addr:
  assumes "make_pte n a leaf perm = Some p" "addr_fits (large_capable n \<and> leaf) a"
  shows "pte_addr n p = a"
proof (rule bit_word_eqI)
  fix k
  show "bit (pte_addr n p) k = bit a k"
    using addr_fits_bits [OF assms(2), of k] by (auto simp: pte_bits bit_make_pte [OF assms] large_capable_def)
qed

text \<open>Claim C33: an entry reads back what \<open>make_pte\<close> was given. For every address that fits the address
  field, the accessors of the new entry return that address, the requested permissions and the size
  of the page, and the entry is a user entry, marked accessed, not copy-on-write, and without the
  reserved bit that stands for \<open>PROT_NONE\<close>; only asking for a leaf at a level that has none fails.
\<close>

theorem make_pte_roundtrip:
  assumes "addr_fits (large_capable n \<and> leaf) a"
  shows "case make_pte n a leaf perm of
      None \<Rightarrow> leaf \<and> \<not> leaf_capable n
    | Some p \<Rightarrow> (leaf \<longrightarrow> leaf_capable n) \<and> pte_addr n p = a \<and> pte_pfn n p = drop_bit page_size_shift a \<and>
        (pte_valid p \<longleftrightarrow> perm \<noteq> 0) \<and> (pte_writable p \<longleftrightarrow> perm AND perm_write \<noteq> 0) \<and>
        (pte_executable p \<longleftrightarrow> perm AND perm_exec \<noteq> 0) \<and> (pte_large n p \<longleftrightarrow> n = 1 \<and> leaf) \<and>
        pte_user p \<and> pte_accessed p \<and> \<not> pte_is_cow n p \<and> rsvd_bit 0 p = Some False \<and>
        pte_dirty n p = (if n = 1 \<and> \<not> leaf then None else Some True) \<and>
        next_pt_addr n p = (if n = 1 \<and> leaf then None else Some a)"
proof (cases "make_pte n a leaf perm")
  case None
  then show ?thesis by (auto simp: make_pte_def Let_def split: if_splits)
next
  case (Some p)
  note b = bit_make_pte [OF Some assms] and f = addr_fits_bits [OF assms]
  have a: "pte_addr n p = a" by (rule make_pte_addr [OF Some assms])
  have "leaf \<longrightarrow> leaf_capable n" using Some by (auto simp: make_pte_def split: if_splits)
  moreover have "\<not> bit a 51" "\<not> bit a 53" using f [of 51] f [of 53] by auto
  ultimately show ?thesis
    unfolding Some using a
    by (simp add: pte_bits b perm_bits pte_pfn_def next_pt_addr_def pte_is_cow_def pte_cow_def)
qed

theorem make_pte_roundtrip_witness:
  "pte_addr 1 (the (make_pte 1 0x40000000 True perm_read)) = 0x40000000"
proof -
  have "addr_fits (large_capable 1 \<and> True) 0x40000000"
    by (simp add: addr_fits_def large_capable_def pte_addr_mask_def max_phys_bits_def rsvd_bits_used_def page_size_shift_def)
  from make_pte_roundtrip [OF this, of perm_read] show ?thesis
    by (simp add: leaf_capable_def split: option.splits)
qed

section \<open>Permissions\<close>

text \<open>
  What the processor grants: nothing through an entry that is not present or has a reserved bit set,
  writes only with the writable bit, execution only without the no-execute bit.
\<close>

definition pte_grants :: "u64 \<Rightarrow> u32 \<Rightarrow> bool" where
  "pte_grants x access \<longleftrightarrow> pte_valid x \<and> rsvd_bit 0 x = Some False \<and>
     (access AND perm_write \<noteq> 0 \<longrightarrow> pte_writable x) \<and> (access AND perm_exec \<noteq> 0 \<longrightarrow> pte_executable x)"

lemma change_perm_bits:
  "\<exists>flush y. change_perm n perm x = Some (flush, y) \<and>
     (let perm' = (if pte_is_cow n x then perm AND NOT perm_write else perm) in
        (flush \<longleftrightarrow> bit x 0 \<and> \<not> bit perm' 0 \<or> bit x 1 \<and> \<not> bit perm' 1 \<or> \<not> bit x 63 \<and> \<not> bit perm' 2) \<and>
        (\<forall>k. bit y k \<longleftrightarrow> (if k = 0 then True else if k = 1 then bit perm' 1 else if k = 63 then \<not> bit perm' 2
           else if k = 51 then perm' = 0 else bit x k)))"
proof -
  define perm' where "perm' = (if pte_is_cow n x then perm AND NOT perm_write else perm)"
  define old where "old = (if pte_valid x then perm_read else 0) OR (if pte_writable x then perm_write else 0) OR
    (if pte_executable x then perm_exec else 0)"
  define y where "y = pte_set_bit 51 (perm' = 0) (set_executable (perm' AND perm_exec \<noteq> 0)
    (set_writable (perm' AND perm_write \<noteq> 0) (set_valid True x)))"
  have o: "bit old k \<longleftrightarrow> k = 0 \<and> bit x 0 \<or> k = 1 \<and> bit x 1 \<or> k = 2 \<and> \<not> bit x 63" for k
    by (auto simp: old_def bit_or_iff pte_bits)
  have "old AND NOT perm' \<noteq> 0 \<longleftrightarrow> (\<exists>k. bit old k \<and> \<not> bit perm' k)"
  proof
    assume "old AND NOT perm' \<noteq> 0"
    then obtain k where "bit (old AND NOT perm') k" using bit_word_eqI [of "old AND NOT perm'" 0] by auto
    then show "\<exists>k. bit old k \<and> \<not> bit perm' k" by (auto simp: bit_simps)
  next
    assume "\<exists>k. bit old k \<and> \<not> bit perm' k"
    then obtain k where "bit old k" "\<not> bit perm' k" by blast
    then have "bit (old AND NOT perm') k" using bit_imp_le_length [of old k] by (simp add: bit_simps)
    then show "old AND NOT perm' \<noteq> 0" by auto
  qed
  then have "(old AND NOT perm' \<noteq> 0) \<longleftrightarrow> bit x 0 \<and> \<not> bit perm' 0 \<or> bit x 1 \<and> \<not> bit perm' 1 \<or> \<not> bit x 63 \<and> \<not> bit perm' 2"
    by (auto simp: o)
  moreover have "bit y k \<longleftrightarrow> (if k = 0 then True else if k = 1 then bit perm' 1 else if k = 63 then \<not> bit perm' 2
      else if k = 51 then perm' = 0 else bit x k)" for k
    by (auto simp: y_def pte_setters pte_bits perm_bits)
  moreover have "change_perm n perm x = Some (old AND NOT perm' \<noteq> 0, y)"
    by (simp add: change_perm_def Let_def set_rsvd_bit_def rsvd_bits_used_def old_def perm'_def y_def)
  ultimately show ?thesis by (auto simp: Let_def perm'_def)
qed

text \<open>Claim C13: \<open>change_perm\<close> installs exactly the requested permission and never forgets a needed flush.
  Afterwards the processor grants an access exactly when some permission is left and the write and
  execute rights the access needs were requested, where a copy-on-write page never gets the write
  right. The page address and all other flags stay. When the function reports that no flush is
  needed, every access the old entry granted is granted by the new one, so a stale cached
  translation cannot give more than the new entry.
\<close>

theorem change_perm_exact:
  "\<exists>flush y. change_perm n perm x = Some (flush, y) \<and>
     (let perm' = (if pte_is_cow n x then perm AND NOT perm_write else perm) in
        \<forall>access. pte_grants y access \<longleftrightarrow> perm' \<noteq> 0 \<and>
          access AND perm_write AND NOT perm' = 0 \<and> access AND perm_exec AND NOT perm' = 0) \<and>
     pte_addr n y = pte_addr n x \<and> pte_dirty n y = pte_dirty n x \<and> pte_is_cow n y = pte_is_cow n x \<and>
     pte_large n y = pte_large n x \<and> pte_user y = pte_user x \<and> pte_accessed y = pte_accessed x \<and>
     (flush \<or> (\<forall>access. pte_grants x access \<longrightarrow> pte_grants y access))"
proof -
  define perm' where "perm' = (if pte_is_cow n x then perm AND NOT perm_write else perm)"
  obtain flush y where y: "change_perm n perm x = Some (flush, y)"
      "flush \<longleftrightarrow> bit x 0 \<and> \<not> bit perm' 0 \<or> bit x 1 \<and> \<not> bit perm' 1 \<or> \<not> bit x 63 \<and> \<not> bit perm' 2"
      "\<And>k. bit y k \<longleftrightarrow> (if k = 0 then True else if k = 1 then bit perm' 1 else if k = 63 then \<not> bit perm' 2
         else if k = 51 then perm' = 0 else bit x k)"
    using change_perm_bits [of n perm x] by (auto simp: Let_def perm'_def)
  have single: "access AND p AND NOT perm' = 0 \<longleftrightarrow> (bit access k \<longrightarrow> bit perm' k)"
    if p: "\<And>j. bit p j \<longleftrightarrow> j = k" and k: "k < 32" for access p k
  proof -
    have "access AND p AND NOT perm' = 0 \<longleftrightarrow> (\<forall>j. \<not> bit (access AND p AND NOT perm') j)"
      using bit_word_eqI [of "access AND p AND NOT perm'" 0] by auto
    also have "\<dots> \<longleftrightarrow> (bit access k \<longrightarrow> bit perm' k)" using k by (auto simp: bit_simps p)
    finally show ?thesis .
  qed
  have g: "pte_grants y access \<longleftrightarrow> perm' \<noteq> 0 \<and> access AND perm_write AND NOT perm' = 0 \<and> access AND perm_exec AND NOT perm' = 0"
    for access
    using single [of perm_write 1 access] single [of perm_exec 2 access]
    by (auto simp: pte_grants_def pte_bits y(3) perm_bits)
  have a: "pte_addr n y = pte_addr n x" by (rule bit_word_eqI) (auto simp: pte_bits y(3))
  have f: "flush \<or> (pte_grants x access \<longrightarrow> pte_grants y access)" for access
    using y(2) by (auto simp: pte_grants_def pte_bits y(3) perm_bits)
  have "pte_dirty n y = pte_dirty n x" "pte_is_cow n y = pte_is_cow n x" "pte_large n y = pte_large n x"
      "pte_user y = pte_user x" "pte_accessed y = pte_accessed x"
    by (simp_all add: pte_is_cow_def pte_cow_def pte_bits y(3))
  then show ?thesis using y(1) g a f by (auto simp: Let_def perm'_def)
qed

theorem change_perm_exact_witness:
  "\<exists>flush y. change_perm 0 perm_read 0x1067 = Some (flush, y) \<and> pte_grants y perm_read \<and> \<not> pte_grants y perm_write \<and>
     pte_addr 0 y = pte_addr 0 0x1067 \<and> pte_user y"
proof -
  have "\<not> pte_is_cow 0 0x1067" by (simp add: pte_is_cow_def sw_bit_def pte_cow_def)
  moreover have "pte_user 0x1067" by (simp add: pte_user_def)
  ultimately show ?thesis
    using change_perm_exact [of 0 perm_read "0x1067"] by (auto simp: Let_def perm_read_def perm_write_def perm_exec_def)
qed

section \<open>Splitting a large page\<close>

lemma bit_pte_level_mask:
  assumes "n \<le> 4"
  shows "bit (pte_level_mask n) k \<longleftrightarrow> k < 64 \<and> 9 * n + 12 \<le> k"
proof -
  have "pte_level_mask n = NOT (mask (9 * n + 12))"
    by (simp add: pte_level_mask_def pte_per_page_shift_def page_size_shift_def mask_eq_exp_minus_1 push_bit_eq_mult mult.commute)
  then show ?thesis using assms by (auto simp: bit_simps)
qed

lemma bit_split_entry:
  assumes "i < 512"
  shows "bit (split_entry (set_large False x) i) k \<longleftrightarrow>
    k \<noteq> 7 \<and> (bit x k \<or> 12 \<le> k \<and> k < 21 \<and> bit i (k - 12))"
proof -
  have "take_bit 9 i = i" using assms by (simp add: take_bit_nat_eq_self_iff)
  then have "bit i (k - 12) \<Longrightarrow> k < 21" using bit_take_bit_iff [of 9 i "k - 12"] by simp
  then show ?thesis
    by (cases "k < 64") (auto simp: split_entry_def pte_setters pte_bits bit_simps page_size_shift_def)
qed

lemma pt_index_bits:
  "pt_index (unat v) 0 < 512" "bit (pt_index (unat v) 0) j \<longleftrightarrow> j < 9 \<and> bit v (12 + j)" for v :: u64
proof -
  have "pt_index (unat v) 0 = take_bit 9 (drop_bit 12 (unat v))"
    by (simp add: pt_index_def page_size_shift_def pte_per_page_def take_bit_eq_mask mask_eq_exp_minus_1)
  then show "pt_index (unat v) 0 < 512" "bit (pt_index (unat v) 0) j \<longleftrightarrow> j < 9 \<and> bit v (12 + j)"
    using take_bit_nat_less_exp [of 9 "drop_bit 12 (unat v)"] by (simp_all add: bit_simps)
qed

lemma v2p_split:
  assumes "pte_large 1 x" "pte_addr 1 x AND NOT (pte_level_mask 1) = 0" "\<not> bit x 12"
  shows "v2p 0 (split_entry (set_large False x) (pt_index (unat v) 0)) v = v2p 1 x v"
proof (rule bit_word_eqI)
  fix k
  assume "k < LENGTH(64)"
  then have k: "k < 64" by simp
  have "bit (pte_addr 1 x AND NOT (pte_level_mask 1)) k = bit (0 :: u64) k" by (simp only: assms(2))
  then have low: "bit x k \<Longrightarrow> 12 \<le> k \<Longrightarrow> 21 \<le> k"
    using k assms(1,3) by (auto simp: bit_simps pte_bits bit_pte_level_mask)
  show "bit (v2p 0 (split_entry (set_large False x) (pt_index (unat v) 0)) v) k = bit (v2p 1 x v) k"
    using k low assms(1,3)
    by (auto simp: v2p_def bit_or_iff bit_and_iff bit_not_iff pte_bits bit_pte_level_mask bit_split_entry pt_index_bits)
qed

text \<open>Claim C15: splitting a large page changes no translation. For a 2 MB entry of a naturally aligned
  page, the 512 entries of the new table give every virtual address the physical address the large
  entry gave it, with the same rights and flags, none of them is large, and the entry that replaces
  the large one leads to the table and restricts nothing.
\<close>

theorem split_large_page_exact:
  assumes "pte_large 1 x" "pte_addr 1 x AND NOT (pte_level_mask 1) = 0" "\<not> bit x 12" "addr_fits False pt_page"
  shows "\<exists>entries p. split_large_page pt_page x = Some (entries, p) \<and> length entries = 512 \<and>
    next_pt_addr 1 p = Some pt_page \<and> (\<forall>access. pte_grants p access) \<and>
    (\<forall>v. v2p 0 (entries ! pt_index (unat v) 0) v = v2p 1 x v) \<and>
    (\<forall>e \<in> set entries. (\<forall>access. pte_grants e access = pte_grants x access) \<and> pte_dirty 0 e = pte_dirty 1 x \<and>
       pte_accessed e = pte_accessed x \<and> pte_user e = pte_user x)"
proof -
  obtain p where p: "make_pte 1 pt_page False perm_rwx = Some p" by (simp add: make_pte_def)
  have fits: "addr_fits (large_capable 1 \<and> False) pt_page" using assms(4) by simp
  note b = bit_make_pte [OF p fits]
  have "\<not> bit pt_page 51" using addr_fits_bits [OF fits, of 51] by auto
  moreover have "perm_rwx \<noteq> 0" "bit perm_rwx 1" "bit perm_rwx 2"
    by (simp_all add: perm_rwx_def bit_or_iff) (simp add: perm_read_def perm_write_def perm_exec_def)
  ultimately have g: "pte_grants p access" for access by (simp add: pte_grants_def pte_bits b)
  have n: "next_pt_addr 1 p = Some pt_page"
    using make_pte_addr [OF p fits] by (simp add: next_pt_addr_def pte_bits b)
  let ?es = "map (split_entry (set_large False x)) [0..<512]"
  have "split_large_page pt_page x = Some (?es, p)"
    using p by (simp add: split_large_page_def allocate_intermediate_level_def make_intermediate_pte_def
        intermediate_capable_def pte_per_page_def)
  moreover have "v2p 0 (?es ! pt_index (unat v) 0) v = v2p 1 x v" for v
    using v2p_split [OF assms(1-3), of v] pt_index_bits(1) [of v] by simp
  moreover have "(\<forall>access. pte_grants e access = pte_grants x access) \<and> pte_dirty 0 e = pte_dirty 1 x \<and>
      pte_accessed e = pte_accessed x \<and> pte_user e = pte_user x" if "e \<in> set ?es" for e
    using that assms(1) by (auto simp: pte_grants_def pte_bits bit_split_entry)
  ultimately show ?thesis using g n by (intro exI [of _ ?es] exI [of _ p]) simp
qed

theorem split_large_page_exact_witness:
  "v2p 0 (fst (the (split_large_page 0x7000 0x400000e7)) ! 3) 0x12345603abc = v2p 1 0x400000e7 0x12345603abc"
proof -
  have "pte_large 1 0x400000e7" "pte_addr 1 0x400000e7 AND NOT (pte_level_mask 1) = 0" "\<not> bit (0x400000e7 :: u64) 12"
      "addr_fits False 0x7000"
    by (simp_all add: pte_large_def large_capable_def pte_addr_def pte_level_mask_def addr_fits_def pte_addr_mask_def
        max_phys_bits_def rsvd_bits_used_def page_size_shift_def pte_per_page_shift_def)
  from split_large_page_exact [OF this] obtain es p where
    "split_large_page 0x7000 0x400000e7 = Some (es, p)" "\<forall>v. v2p 0 (es ! pt_index (unat v) 0) v = v2p 1 0x400000e7 v"
    by blast
  moreover have "pt_index (unat (0x12345603abc :: u64)) 0 = 3"
    by (simp add: pt_index_def page_size_shift_def pte_per_page_def)
  ultimately show ?thesis by (metis fst_conv option.sel)
qed

end
