(* ===== verification/RwLock.thy ===== *)
theory RwLock
  imports Prelude
begin

text \<open>
  The reader-writer lock of \<open>core/rwlock.cc\<close>, as threads that interleave at every atomic access. One
  32-bit word holds the writer bit, the pending-writer bit, the number of readers and the number of
  pending readers. The mutex of the writers is taken as an atomic recursive mutex, the queue of
  waiting readers as a list with atomic \<open>push\<close> and \<open>pop\<close>; only the owner of the mutex pops.
  Threads are numbers; a waiting reader's record in the queue is named by its thread.
\<close>

section \<open>State\<close>

definition WRITER_LOCK :: u32 where
  "WRITER_LOCK = 0x80000000"

definition PENDING_WRITER :: u32 where
  "PENDING_WRITER = 0x40000000"

definition READERS_MASK :: u32 where
  "READERS_MASK = 0x3fff0000"

definition IND_READ_MASK :: u32 where
  "IND_READ_MASK = 0xffff0000"

definition PENDING_READERS_MASK :: u32 where
  "PENDING_READERS_MASK = 0x0000ffff"

definition READER_LOCK_INC :: u32 where
  "READER_LOCK_INC = 0x00010000"

text \<open>
  Where a thread is in each operation. Each constructor is the point just before one atomic access;
  its argument is the local \<open>prev_readers\<close> or \<open>pending_readers\<close>, or the popped record. \<open>Failed\<close> is a
  failed assertion.
\<close>

datatype tr_pc = TrLoad | TrCas u32

datatype r_pc = RLoad | RCas u32 | RAdd u32 | RCas2 u32 | RPush | RWait

datatype ru_pc = RuAdd | RuOwner | RuStore

datatype up_pc = UpTry | UpLoad | UpCas u32 | UpUnlock

datatype wt_pc = WtTry | WtLoad | WtCas u32 | WtUnlock

datatype w_pc = WLock | WRec | WFlag | WOr | WCas u32 | WClear | WWait | WAdd

datatype k_pc = KTest u32 | KLoad | KAdd nat | KStore nat u32

datatype un_pc = UnDepth | UnAnd | UnWake k_pc | UnUnlock

datatype dg_pc = DgAssert | DgLoad | DgCas u32 | DgLoad2 | DgWake k_pc | DgUnlock nat

datatype rw_pc = Out | Failed | TR tr_pc | R r_pc | RU ru_pc | UP up_pc | WT wt_pc | W w_pc | WU un_pc | DG dg_pc

text \<open>
  The fields of the class; \<open>cleared\<close> says that the value of a thread's wait record is null. The
  ghosts \<open>rhold\<close>, \<open>whold\<close> and \<open>pend\<close>, which no step reads, are the threads that own the lock for
  reading (also those on whose behalf a writer acquired it), that own it for writing, and that are
  counted as pending readers.
\<close>

record rwlock =
  readers :: u32
  writer_wait :: bool
  wmtx :: "nat option"
  wdepth :: nat
  read_waiters :: "nat list"
  cleared :: "nat \<Rightarrow> bool"
  rw_pcs :: "nat \<Rightarrow> rw_pc"
  rhold :: "nat \<Rightarrow> bool"
  whold :: "nat \<Rightarrow> bool"
  pend :: "nat \<Rightarrow> bool"

definition rwlock_init :: rwlock where
  "rwlock_init = \<lparr>readers = 0, writer_wait = False, wmtx = None, wdepth = 0, read_waiters = [],
     cleared = (\<lambda>_. False), rw_pcs = (\<lambda>_. Out), rhold = (\<lambda>_. False), whold = (\<lambda>_. False), pend = (\<lambda>_. False)\<rparr>"

definition at_pc :: "nat \<Rightarrow> rw_pc \<Rightarrow> rwlock \<Rightarrow> rwlock" where
  "at_pc t p m = m\<lparr>rw_pcs := (rw_pcs m)(t := p)\<rparr>"

definition read_held :: "nat \<Rightarrow> bool \<Rightarrow> rwlock \<Rightarrow> rwlock" where
  "read_held t b m = m\<lparr>rhold := (rhold m)(t := b)\<rparr>"

definition write_held :: "nat \<Rightarrow> bool \<Rightarrow> rwlock \<Rightarrow> rwlock" where
  "write_held t b m = m\<lparr>whold := (whold m)(t := b)\<rparr>"

definition pending :: "nat \<Rightarrow> bool \<Rightarrow> rwlock \<Rightarrow> rwlock" where
  "pending t b m = m\<lparr>pend := (pend m)(t := b)\<rparr>"

text \<open>The writers' mutex: \<open>lock\<close> blocks and \<open>try_lock\<close> fails while another thread owns it.\<close>

definition wmtx_free :: "nat \<Rightarrow> rwlock \<Rightarrow> bool" where
  "wmtx_free t m \<longleftrightarrow> wmtx m = None \<or> wmtx m = Some t"

definition wmtx_lock :: "nat \<Rightarrow> rwlock \<Rightarrow> rwlock" where
  "wmtx_lock t m = m\<lparr>wmtx := Some t, wdepth := wdepth m + 1\<rparr>"

text \<open>\<open>unlock\<close> by thread \<open>t\<close>, which then is at \<open>p\<close>; the mutex asserts that \<open>t\<close> owns it.\<close>

definition wmtx_unlock :: "nat \<Rightarrow> rw_pc \<Rightarrow> rwlock \<Rightarrow> rwlock" where
  "wmtx_unlock t p m =
     (if wmtx m \<noteq> Some t \<or> wdepth m = 0 then at_pc t Failed m
      else at_pc t p (if wdepth m > 1 then m\<lparr>wdepth := wdepth m - 1\<rparr> else m\<lparr>wmtx := None, wdepth := 0\<rparr>))"

section \<open>Operations\<close>

text \<open>
  Each step is one atomic access together with the local computation around it. A weak compare and
  exchange may fail although the word has the expected value; the flag \<open>spurious\<close> decides.
\<close>

definition too_many_readers :: "u32 \<Rightarrow> bool" where
  "too_many_readers v \<longleftrightarrow> \<not> (READERS_MASK AND v) + READER_LOCK_INC < PENDING_WRITER"

fun try_rlock_step :: "nat \<Rightarrow> bool \<Rightarrow> tr_pc \<Rightarrow> rwlock \<Rightarrow> rwlock" where
  "try_rlock_step t spurious TrLoad m =
     (if too_many_readers (readers m) then at_pc t Failed m else at_pc t (TR (TrCas (readers m))) m)"
| "try_rlock_step t spurious (TrCas v) m =
     (if \<not> v < PENDING_WRITER then at_pc t Out m
      else if readers m = v \<and> \<not> spurious
      then at_pc t Out (read_held t True (m\<lparr>readers := v + READER_LOCK_INC\<rparr>))
      else at_pc t (TR (TrCas (readers m))) m)"

fun rlock_step :: "nat \<Rightarrow> bool \<Rightarrow> r_pc \<Rightarrow> rwlock \<Rightarrow> rwlock" where
  "rlock_step t spurious RLoad m =
     (if too_many_readers (readers m) then at_pc t Failed m else at_pc t (R (RCas (readers m))) m)"
| "rlock_step t spurious (RCas v) m =
     (if \<not> v < PENDING_WRITER then at_pc t (R (RAdd v)) m
      else if readers m = v \<and> \<not> spurious
      then at_pc t Out (read_held t True (m\<lparr>readers := v + READER_LOCK_INC\<rparr>))
      else at_pc t (R (RCas (readers m))) m)"
| "rlock_step t spurious (RAdd v) m =
     (if \<not> (PENDING_READERS_MASK AND v) + 1 < READER_LOCK_INC then at_pc t Failed m
      else at_pc t (R (RCas2 (readers m + 1))) (pending t True (m\<lparr>readers := readers m + 1\<rparr>)))"
| "rlock_step t spurious (RCas2 v) m =
     (if \<not> v < PENDING_WRITER then at_pc t (R RPush) m
      else if readers m = v \<and> \<not> spurious
      then at_pc t Out (read_held t True (pending t False (m\<lparr>readers := v + READER_LOCK_INC - 1\<rparr>)))
      else at_pc t (R (RCas2 (readers m))) m)"
| "rlock_step t spurious RPush m =
     at_pc t (R RWait) (m\<lparr>cleared := (cleared m)(t := False), read_waiters := read_waiters m @ [t]\<rparr>)"
| "rlock_step t spurious RWait m = (if cleared m t then at_pc t Out m else m)"

fun runlock_step :: "nat \<Rightarrow> ru_pc \<Rightarrow> rwlock \<Rightarrow> rwlock" where
  "runlock_step t RuAdd m =
     (let prev = readers m; m' = read_held t False (m\<lparr>readers := prev - READER_LOCK_INC\<rparr>) in
        if \<not> 0 < prev \<or> \<not> prev < WRITER_LOCK then at_pc t Failed m'
        else if prev AND READERS_MASK = READER_LOCK_INC \<and> prev AND PENDING_WRITER \<noteq> 0 then at_pc t (RU RuOwner) m'
        else at_pc t Out m')"
| "runlock_step t RuOwner m = at_pc t (if wmtx m = None then Out else RU RuStore) m"
| "runlock_step t RuStore m = at_pc t Out (m\<lparr>writer_wait := False\<rparr>)"

fun try_upgrade_step :: "nat \<Rightarrow> up_pc \<Rightarrow> rwlock \<Rightarrow> rwlock" where
  "try_upgrade_step t UpTry m =
     (if wmtx_free t m then at_pc t (UP UpLoad) (wmtx_lock t m) else at_pc t Out m)"
| "try_upgrade_step t UpLoad m =
     at_pc t (UP (if readers m AND IND_READ_MASK = READER_LOCK_INC then UpCas (readers m) else UpUnlock)) m"
| "try_upgrade_step t (UpCas v) m =
     (if readers m = v
      then at_pc t Out (write_held t True (read_held t False (m\<lparr>readers := WRITER_LOCK OR (v AND PENDING_READERS_MASK)\<rparr>)))
      else at_pc t (UP UpUnlock) m)"
| "try_upgrade_step t UpUnlock m = wmtx_unlock t Out m"

fun try_wlock_step :: "nat \<Rightarrow> wt_pc \<Rightarrow> rwlock \<Rightarrow> rwlock" where
  "try_wlock_step t WtTry m =
     (if wmtx_free t m then at_pc t (WT WtLoad) (wmtx_lock t m) else at_pc t Out m)"
| "try_wlock_step t WtLoad m =
     (if readers m AND READERS_MASK = 0 \<and> readers m AND WRITER_LOCK = 0 then at_pc t (WT (WtCas (readers m))) m
      else if readers m AND WRITER_LOCK \<noteq> 0 then at_pc t Out m
      else at_pc t (WT WtUnlock) m)"
| "try_wlock_step t (WtCas v) m =
     (if readers m = v
      then at_pc t Out (write_held t True (m\<lparr>readers := WRITER_LOCK OR (v AND PENDING_READERS_MASK)\<rparr>))
      else at_pc t (WT WtUnlock) m)"
| "try_wlock_step t WtUnlock m = wmtx_unlock t Out m"

fun wlock_step :: "nat \<Rightarrow> bool \<Rightarrow> w_pc \<Rightarrow> rwlock \<Rightarrow> rwlock" where
  "wlock_step t spurious WLock m = (if wmtx_free t m then at_pc t (W WRec) (wmtx_lock t m) else m)"
| "wlock_step t spurious WRec m = at_pc t (if readers m AND WRITER_LOCK \<noteq> 0 then Out else W WFlag) m"
| "wlock_step t spurious WFlag m = at_pc t (W WOr) (m\<lparr>writer_wait := True\<rparr>)"
| "wlock_step t spurious WOr m =
     at_pc t (W (WCas (readers m OR PENDING_WRITER))) (m\<lparr>readers := readers m OR PENDING_WRITER\<rparr>)"
| "wlock_step t spurious (WCas v) m =
     (if v AND READERS_MASK \<noteq> 0 then at_pc t (W WWait) m
      else if readers m = v \<and> \<not> spurious
      then at_pc t (W WClear) (write_held t True (m\<lparr>readers := WRITER_LOCK OR (v AND PENDING_READERS_MASK)\<rparr>))
      else at_pc t (W (WCas (readers m))) m)"
| "wlock_step t spurious WClear m = at_pc t Out (m\<lparr>writer_wait := False\<rparr>)"
| "wlock_step t spurious WWait m = (if writer_wait m then m else at_pc t (W WAdd) m)"
| "wlock_step t spurious WAdd m = at_pc t Out (write_held t True (m\<lparr>readers := readers m + PENDING_WRITER\<rparr>))"

text \<open>One step of \<open>wake_pending_readers\<close>; \<open>None\<close> when its loop is left.\<close>

fun wake_pending_readers_step :: "k_pc \<Rightarrow> rwlock \<Rightarrow> k_pc option \<times> rwlock" where
  "wake_pending_readers_step (KTest p) m =
     (if p = 0 then (None, m)
      else case read_waiters m of
        [] \<Rightarrow> (Some KLoad, m)
      | w # ws \<Rightarrow> (Some (KAdd w), m\<lparr>read_waiters := ws\<rparr>))"
| "wake_pending_readers_step KLoad m = (Some (KTest (readers m AND PENDING_READERS_MASK)), m)"
| "wake_pending_readers_step (KAdd w) m =
     (Some (KStore w (readers m AND PENDING_READERS_MASK)),
      read_held w True (pending w False (m\<lparr>readers := readers m + (READER_LOCK_INC - 1)\<rparr>)))"
| "wake_pending_readers_step (KStore w p) m = (Some (KTest p), m\<lparr>cleared := (cleared m)(w := True)\<rparr>)"

fun wunlock_step :: "nat \<Rightarrow> un_pc \<Rightarrow> rwlock \<Rightarrow> rwlock" where
  "wunlock_step t UnDepth m =
     (if readers m AND WRITER_LOCK = 0 then at_pc t Failed m
      else if wdepth m > 1 then wmtx_unlock t Out m
      else at_pc t (WU UnAnd) m)"
| "wunlock_step t UnAnd m =
     at_pc t (WU (UnWake (KTest (readers m AND PENDING_READERS_MASK))))
       (write_held t False (m\<lparr>readers := readers m AND NOT WRITER_LOCK\<rparr>))"
| "wunlock_step t (UnWake k) m =
     (case wake_pending_readers_step k m of
        (None, m') \<Rightarrow> at_pc t (WU UnUnlock) m'
      | (Some k', m') \<Rightarrow> at_pc t (WU (UnWake k')) m')"
| "wunlock_step t UnUnlock m = wmtx_unlock t Out m"

fun downgrade_step :: "nat \<Rightarrow> bool \<Rightarrow> dg_pc \<Rightarrow> rwlock \<Rightarrow> rwlock" where
  "downgrade_step t spurious DgAssert m = at_pc t (if readers m AND WRITER_LOCK = 0 then Failed else DG DgLoad) m"
| "downgrade_step t spurious DgLoad m =
     at_pc t (if too_many_readers (readers m) then Failed else DG (DgCas (readers m))) m"
| "downgrade_step t spurious (DgCas v) m =
     (if readers m = v \<and> \<not> spurious
      then at_pc t (DG DgLoad2) (write_held t False (read_held t True (m\<lparr>readers := (v AND NOT WRITER_LOCK) + READER_LOCK_INC\<rparr>)))
      else at_pc t (DG (DgCas (readers m))) m)"
| "downgrade_step t spurious DgLoad2 m = at_pc t (DG (DgWake (KTest (readers m AND PENDING_READERS_MASK)))) m"
| "downgrade_step t spurious (DgWake k) m =
     (case wake_pending_readers_step k m of
        (None, m') \<Rightarrow> at_pc t (DG (DgUnlock (wdepth m'))) m'
      | (Some k', m') \<Rightarrow> at_pc t (DG (DgWake k')) m')"
| "downgrade_step t spurious (DgUnlock d) m =
     (if d = 0 then at_pc t Out m else wmtx_unlock t (DG (DgUnlock (d - 1))) m)"

text \<open>One step of thread \<open>t\<close>; a thread outside the lock, or asleep, does not move.\<close>

definition rw_step :: "nat \<Rightarrow> bool \<Rightarrow> rwlock \<Rightarrow> rwlock" where
  "rw_step t spurious m =
     (case rw_pcs m t of
        TR p \<Rightarrow> try_rlock_step t spurious p m
      | R p \<Rightarrow> rlock_step t spurious p m
      | RU p \<Rightarrow> runlock_step t p m
      | UP p \<Rightarrow> try_upgrade_step t p m
      | WT p \<Rightarrow> try_wlock_step t p m
      | W p \<Rightarrow> wlock_step t spurious p m
      | WU p \<Rightarrow> wunlock_step t p m
      | DG p \<Rightarrow> downgrade_step t spurious p m
      | _ \<Rightarrow> m)"

definition wowned :: "nat \<Rightarrow> rwlock \<Rightarrow> bool" where
  "wowned t m \<longleftrightarrow> wmtx m = Some t"

definition has_readers :: "rwlock \<Rightarrow> bool" where
  "has_readers m \<longleftrightarrow> readers m AND READERS_MASK \<noteq> 0"

text \<open>
  What the callers may do: release what they hold, upgrade a read lock, and call the other operations
  without holding the lock for reading. A writer may lock again for writing.
\<close>

inductive rw_call :: "nat \<Rightarrow> rwlock \<Rightarrow> rwlock \<Rightarrow> bool" for n where
  try_rlock: "t < n \<Longrightarrow> rw_pcs m t = Out \<Longrightarrow> \<not> rhold m t \<Longrightarrow> \<not> whold m t \<Longrightarrow> rw_call n m (at_pc t (TR TrLoad) m)"
| rlock: "t < n \<Longrightarrow> rw_pcs m t = Out \<Longrightarrow> \<not> rhold m t \<Longrightarrow> \<not> whold m t \<Longrightarrow> rw_call n m (at_pc t (R RLoad) m)"
| runlock: "t < n \<Longrightarrow> rw_pcs m t = Out \<Longrightarrow> rhold m t \<Longrightarrow> rw_call n m (at_pc t (RU RuAdd) m)"
| try_upgrade: "t < n \<Longrightarrow> rw_pcs m t = Out \<Longrightarrow> rhold m t \<Longrightarrow> rw_call n m (at_pc t (UP UpTry) m)"
| try_wlock: "t < n \<Longrightarrow> rw_pcs m t = Out \<Longrightarrow> \<not> rhold m t \<Longrightarrow> rw_call n m (at_pc t (WT WtTry) m)"
| wlock: "t < n \<Longrightarrow> rw_pcs m t = Out \<Longrightarrow> \<not> rhold m t \<Longrightarrow> rw_call n m (at_pc t (W WLock) m)"
| wunlock: "t < n \<Longrightarrow> rw_pcs m t = Out \<Longrightarrow> whold m t \<Longrightarrow> rw_call n m (at_pc t (WU UnDepth) m)"
| downgrade: "t < n \<Longrightarrow> rw_pcs m t = Out \<Longrightarrow> whold m t \<Longrightarrow> rw_call n m (at_pc t (DG DgAssert) m)"

inductive rw_run :: "nat \<Rightarrow> rwlock \<Rightarrow> bool" for n where
  init: "rw_run n rwlock_init"
| call: "rw_run n m \<Longrightarrow> rw_call n m m' \<Longrightarrow> rw_run n m'"
| step: "rw_run n m \<Longrightarrow> rw_run n (rw_step t spurious m)"

section \<open>The word\<close>

text \<open>The word with writer bit \<open>w\<close>, pending-writer bit \<open>p\<close>, \<open>r\<close> readers and \<open>q\<close> pending readers.\<close>

definition rw_word :: "bool \<Rightarrow> bool \<Rightarrow> nat \<Rightarrow> nat \<Rightarrow> u32" where
  "rw_word w p r q = word_of_nat (of_bool w * 2 ^ 31 + of_bool p * 2 ^ 30 + r * 2 ^ 16 + q)"

definition rw_fits :: "nat \<Rightarrow> nat \<Rightarrow> bool" where
  "rw_fits r q \<longleftrightarrow> r < 2 ^ 14 \<and> q < 2 ^ 16"


lemma and_field: "n AND push_bit i (mask j) = push_bit i (take_bit j (drop_bit i n))" for n :: nat
  by (rule bit_eqI) (auto simp: bit_simps)

lemma unat_rw_word:
  assumes "rw_fits r q"
  shows "unat (rw_word w p r q) = ((of_bool w * 2 + of_bool p) * 2 ^ 14 + r) * 2 ^ 16 + q"
proof -
  have "of_bool w * 2 ^ 31 + of_bool p * 2 ^ 30 + r * 2 ^ 16 + q < 2 ^ LENGTH(32)"
    using assms by (cases w; cases p) (auto simp: rw_fits_def)
  then have "unat (rw_word w p r q) = of_bool w * 2 ^ 31 + of_bool p * 2 ^ 30 + r * 2 ^ 16 + q"
    unfolding rw_word_def unat_of_nat by (rule mod_less)
  then show ?thesis by (simp add: algebra_simps)
qed

text \<open>Reading the fields of the word.\<close>

lemma unat_and_field:
  fixes x m :: u32
  assumes "unat m = push_bit i (mask j)"
  shows "unat (x AND m) = unat x div 2 ^ i mod 2 ^ j * 2 ^ i"
  by (simp only: unsigned_and_eq assms and_field) (simp add: push_bit_eq_mult take_bit_eq_mod drop_bit_eq_div)

lemma mask_fields:
  "unat READERS_MASK = push_bit 16 (mask 14)" "unat PENDING_READERS_MASK = push_bit 0 (mask 16)"
  "unat IND_READ_MASK = push_bit 16 (mask 16)" "unat WRITER_LOCK = push_bit 31 (mask 1)"
  "unat PENDING_WRITER = push_bit 30 (mask 1)"
  by (simp_all add: READERS_MASK_def PENDING_READERS_MASK_def IND_READ_MASK_def WRITER_LOCK_def PENDING_WRITER_def
      mask_eq_exp_minus_1 push_bit_eq_mult)

lemma rw_word_fields:
  assumes "rw_fits r q"
  shows "unat (rw_word w p r q AND READERS_MASK) = r * 2 ^ 16"
    and "unat (rw_word w p r q AND PENDING_READERS_MASK) = q"
    and "unat (rw_word w p r q AND IND_READ_MASK) = of_bool w * 2 ^ 31 + of_bool p * 2 ^ 30 + r * 2 ^ 16"
    and "unat (rw_word w p r q AND WRITER_LOCK) = of_bool w * 2 ^ 31"
    and "unat (rw_word w p r q AND PENDING_WRITER) = of_bool p * 2 ^ 30"
proof -
  let ?k = "of_bool w * 2 + of_bool p :: nat"
  let ?a = "?k * 2 ^ 14 + r"
  note u = unat_rw_word [OF assms, of w p]
  have b: "r < 2 ^ 14" "q < 2 ^ 16" using assms by (simp_all add: rw_fits_def)
  have hi: "unat (rw_word w p r q) div 2 ^ 16 = ?a" unfolding u using b(2) by (simp only: div_mult_self3 div_less)
  have lo: "unat (rw_word w p r q) mod 2 ^ 16 = q" unfolding u using b(2) by (simp only: mod_mult_self3 mod_less)
  have a: "?a mod 2 ^ 14 = r" "?a div 2 ^ 14 = ?k" using b(1) by (simp_all only: mod_mult_self3 div_mult_self3 div_less mod_less)
  have "?a < 2 ^ 16" using b(1) by (cases w; cases p) auto
  then have m: "?a mod 2 ^ 16 = ?a" by (rule mod_less)
  have "(2 :: nat) ^ 31 = 2 ^ 16 * (2 ^ 14 * 2)" "(2 :: nat) ^ 30 = 2 ^ 16 * 2 ^ 14" by simp_all
  then have hi2: "unat (rw_word w p r q) div 2 ^ 31 = ?k div 2" "unat (rw_word w p r q) div 2 ^ 30 = ?k"
    by (simp_all only: div_mult2_eq hi a)
  show "unat (rw_word w p r q AND READERS_MASK) = r * 2 ^ 16"
    by (simp only: unat_and_field [OF mask_fields(1)] hi a)
  show "unat (rw_word w p r q AND PENDING_READERS_MASK) = q"
    using lo by (simp add: unat_and_field [OF mask_fields(2)])
  show "unat (rw_word w p r q AND IND_READ_MASK) = of_bool w * 2 ^ 31 + of_bool p * 2 ^ 30 + r * 2 ^ 16"
    by (simp only: unat_and_field [OF mask_fields(3)] hi m) simp
  show "unat (rw_word w p r q AND WRITER_LOCK) = of_bool w * 2 ^ 31"
    by (simp only: unat_and_field [OF mask_fields(4)] hi2) simp
  show "unat (rw_word w p r q AND PENDING_WRITER) = of_bool p * 2 ^ 30"
    by (simp only: unat_and_field [OF mask_fields(5)] hi2) simp
qed

text \<open>The tests of the code on the word.\<close>

lemma rw_word_tests:
  assumes "rw_fits r q"
  shows "rw_word w p r q AND READERS_MASK = 0 \<longleftrightarrow> r = 0"
    and "rw_word w p r q AND READERS_MASK = READER_LOCK_INC \<longleftrightarrow> r = 1"
    and "rw_word w p r q AND PENDING_READERS_MASK = 0 \<longleftrightarrow> q = 0"
    and "rw_word w p r q AND IND_READ_MASK = READER_LOCK_INC \<longleftrightarrow> \<not> w \<and> \<not> p \<and> r = 1"
    and "rw_word w p r q AND WRITER_LOCK = 0 \<longleftrightarrow> \<not> w"
    and "rw_word w p r q AND PENDING_WRITER = 0 \<longleftrightarrow> \<not> p"
    and "rw_word w p r q < PENDING_WRITER \<longleftrightarrow> \<not> w \<and> \<not> p"
    and "rw_word w p r q < WRITER_LOCK \<longleftrightarrow> \<not> w"
    and "0 < rw_word w p r q \<longleftrightarrow> w \<or> p \<or> 0 < r \<or> 0 < q"
proof -
  note f = rw_word_fields [OF assms, of w p]
  show "rw_word w p r q AND READERS_MASK = 0 \<longleftrightarrow> r = 0" using f(1) by (simp add: word_unat_eq_iff)
  show "rw_word w p r q AND READERS_MASK = READER_LOCK_INC \<longleftrightarrow> r = 1"
    using f(1) by (auto simp: word_unat_eq_iff READER_LOCK_INC_def)
  show "rw_word w p r q AND PENDING_READERS_MASK = 0 \<longleftrightarrow> q = 0" using f(2) by (simp add: word_unat_eq_iff)
  have r: "r < 16384" "q < 65536" using assms by (simp_all add: rw_fits_def)
  show "rw_word w p r q AND IND_READ_MASK = READER_LOCK_INC \<longleftrightarrow> \<not> w \<and> \<not> p \<and> r = 1"
    using f(3) r by (auto simp: word_unat_eq_iff READER_LOCK_INC_def)
  show "rw_word w p r q AND WRITER_LOCK = 0 \<longleftrightarrow> \<not> w" using f(4) by (simp add: word_unat_eq_iff)
  show "rw_word w p r q AND PENDING_WRITER = 0 \<longleftrightarrow> \<not> p" using f(5) by (simp add: word_unat_eq_iff)
  note u = unat_rw_word [OF assms, of w p]
  show "rw_word w p r q < PENDING_WRITER \<longleftrightarrow> \<not> w \<and> \<not> p"
    unfolding word_less_nat_alt u using r by (simp add: PENDING_WRITER_def)
  show "rw_word w p r q < WRITER_LOCK \<longleftrightarrow> \<not> w"
    unfolding word_less_nat_alt u using r by (simp add: WRITER_LOCK_def)
  show "0 < rw_word w p r q \<longleftrightarrow> w \<or> p \<or> 0 < r \<or> 0 < q"
    unfolding word_less_nat_alt u by auto
qed

lemma too_many_readers_iff:
  assumes "rw_fits r q"
  shows "too_many_readers (rw_word w p r q) \<longleftrightarrow> \<not> r + 1 < 2 ^ 14"
proof -
  have "unat (READERS_MASK AND rw_word w p r q) = r * 2 ^ 16"
    using rw_word_fields(1) [OF assms, of w p] by (simp add: and.commute)
  moreover have "r < 2 ^ 14" using assms by (simp add: rw_fits_def)
  ultimately show ?thesis
    by (simp add: too_many_readers_def word_less_nat_alt unat_word_ariths READER_LOCK_INC_def PENDING_WRITER_def)
qed

text \<open>The updates of the code on the word.\<close>

lemma rw_word_add:
  "rw_word w p r q + READER_LOCK_INC = rw_word w p (r + 1) q"
  "rw_word w p r q + 1 = rw_word w p r (q + 1)"
  "rw_word False True r q + PENDING_WRITER = rw_word True False r q"
  "rw_word False p r q + WRITER_LOCK = rw_word True p r q"
  "rw_word w False r q + PENDING_WRITER = rw_word w True r q"
  by (simp_all add: rw_word_def READER_LOCK_INC_def PENDING_WRITER_def WRITER_LOCK_def algebra_simps)

lemma rw_word_sub: "0 < r \<Longrightarrow> rw_word w p r q - READER_LOCK_INC = rw_word w p (r - 1) q"
  using rw_word_add(1) [of w p "r - 1" q] by (simp add: algebra_simps)

lemma rw_word_grant:
  assumes "0 < q"
  shows "rw_word w p r q + READER_LOCK_INC - 1 = rw_word w p (r + 1) (q - 1)"
    and "rw_word w p r q + (READER_LOCK_INC - 1) = rw_word w p (r + 1) (q - 1)"
proof -
  have "rw_word w p r q = rw_word w p r (q - 1) + 1" using assms by (simp add: rw_word_add)
  then show "rw_word w p r q + READER_LOCK_INC - 1 = rw_word w p (r + 1) (q - 1)"
    using rw_word_add(1) [of w p r "q - 1"] by simp
  then show "rw_word w p r q + (READER_LOCK_INC - 1) = rw_word w p (r + 1) (q - 1)" by (simp add: algebra_simps)
qed

lemma rw_word_bits:
  assumes "rw_fits r q"
  shows "rw_word w p r q OR PENDING_WRITER = rw_word w True r q"
    and "rw_word w p r q AND NOT WRITER_LOCK = rw_word False p r q"
    and "WRITER_LOCK OR (rw_word w p r q AND PENDING_READERS_MASK) = rw_word True False 0 q"
proof -
  have plus: "x + y = x OR y" if "x AND y = 0" for x y :: u32 using that by (rule disjunctive_add_eq_or)
  have pw: "rw_word w False r q OR PENDING_WRITER = rw_word w True r q"
    using plus [of "rw_word w False r q" PENDING_WRITER] rw_word_tests(6) [OF assms] by (simp add: rw_word_add)
  have again: "(x OR m) OR m = x OR m" for x m :: u32 by (rule bit_word_eqI) (auto simp: bit_simps)
  show "rw_word w p r q OR PENDING_WRITER = rw_word w True r q"
    using pw again [of "rw_word w False r q" PENDING_WRITER] by (cases p) simp_all
  have wl: "rw_word False p r q OR WRITER_LOCK = rw_word True p r q"
    using plus [of "rw_word False p r q" WRITER_LOCK] rw_word_tests(5) [OF assms] by (simp add: rw_word_add)
  have clear: "(x OR m) AND NOT m = x" "x AND NOT m = x" if "x AND m = 0" for x m :: u32
  proof -
    have "\<not> (bit x k \<and> bit m k)" for k using bit_and_iff [of x m k] that by simp
    then show "(x OR m) AND NOT m = x" "x AND NOT m = x" by (auto intro!: bit_word_eqI simp: bit_simps)
  qed
  have "rw_word False p r q AND WRITER_LOCK = 0" using rw_word_tests(5) [OF assms, of False p] by simp
  from clear [OF this] show "rw_word w p r q AND NOT WRITER_LOCK = rw_word False p r q"
    using wl by (cases w) simp_all
  have "rw_word w p r q AND PENDING_READERS_MASK = rw_word False False 0 q"
    using rw_word_fields(2) [OF assms, of w p] unat_rw_word [of 0 q False False] assms
    by (simp add: word_unat_eq_iff rw_fits_def)
  moreover have "rw_word False False 0 q OR WRITER_LOCK = rw_word True False 0 q"
    using plus [of "rw_word False False 0 q" WRITER_LOCK] rw_word_tests(5) [of 0 q False False] assms
    by (simp add: rw_word_add rw_fits_def)
  ultimately show "WRITER_LOCK OR (rw_word w p r q AND PENDING_READERS_MASK) = rw_word True False 0 q"
    by (simp add: or.commute)
qed

end
