(* ===== verification/RwProtocol.thy ===== *)
theory RwProtocol
  imports RwLock
begin

text \<open>
  The protocol of the reader-writer lock: the stages a thread goes through, the invariant that ties
  the stages to the word, the mutex and the queue, and the actions that keep it. The program counters
  of the operations are mapped to stages; every step of every operation is one of the actions or
  leaves the stage alone.
\<close>

section \<open>Counting threads\<close>

definition cnt :: "nat \<Rightarrow> (nat \<Rightarrow> bool) \<Rightarrow> nat" where
  "cnt n f = card {t. t < n \<and> f t}"

lemma cnt_add: "t < n \<Longrightarrow> \<not> f t \<Longrightarrow> cnt n (f(t := True)) = cnt n f + 1"
proof -
  assume "t < n" "\<not> f t"
  then have "{s. s < n \<and> (f(t := True)) s} = insert t {s. s < n \<and> f s}" by auto
  with \<open>\<not> f t\<close> show ?thesis by (simp add: cnt_def)
qed

lemma cnt_sub: "t < n \<Longrightarrow> f t \<Longrightarrow> cnt n (f(t := False)) = cnt n f - 1"
proof -
  assume "t < n" "f t"
  then have "{s. s < n \<and> (f(t := False)) s} = {s. s < n \<and> f s} - {t}" by auto
  with \<open>t < n\<close> \<open>f t\<close> show ?thesis by (simp add: cnt_def)
qed

lemma cnt_0_iff: "cnt n f = 0 \<longleftrightarrow> (\<forall>t < n. \<not> f t)"
  by (auto simp: cnt_def)

lemma cnt_pos: "t < n \<Longrightarrow> f t \<Longrightarrow> 0 < cnt n f"
  using cnt_0_iff [of n f] by auto

lemma cnt_less: "t < n \<Longrightarrow> \<not> f t \<Longrightarrow> cnt n f < n"
proof -
  assume "t < n" "\<not> f t"
  then have "{s. s < n \<and> f s} \<subset> {..< n}" by auto
  then show ?thesis using psubset_card_mono [of "{..< n}"] by (simp add: cnt_def)
qed

lemma cnt_le: "cnt n f \<le> n"
  using card_mono [of "{..< n}" "{s. s < n \<and> f s}"] by (auto simp: cnt_def)

lemma cnt_cong: "(\<And>t. t < n \<Longrightarrow> f t = g t) \<Longrightarrow> cnt n f = cnt n g"
  unfolding cnt_def by (rule arg_cong [where f = card]) auto

lemma cnt_only: "t < n \<Longrightarrow> f t \<Longrightarrow> cnt n f = 1 \<Longrightarrow> s < n \<Longrightarrow> f s \<Longrightarrow> s = t"
  using cnt_sub [of t n f] cnt_0_iff [of n "f(t := False)"] by (auto split: if_splits)

section \<open>Stages\<close>

text \<open>
  \<open>Pend\<close> is counted as pending but may still take the lock, \<open>Commit\<close> has seen a writer and will
  queue itself, \<open>Asleep\<close> is queued or woken. \<open>Last\<close> is the last reader on its way to wake the pending
  writer. The others own the mutex: \<open>PwGo\<close> and \<open>PwWait\<close> are a pending writer that has seen no readers
  and one that waits for them, \<open>Serve\<close>, \<open>Grab\<close> and \<open>Give\<close> are the loop that wakes the readers.
\<close>

datatype stage = Idle | Pend | Commit | Asleep | Last | Mtx | PwGo | PwWait | Serve | Grab nat | Give nat

fun needs_m :: "stage \<Rightarrow> bool" where
  "needs_m Mtx \<longleftrightarrow> True" | "needs_m PwGo \<longleftrightarrow> True" | "needs_m PwWait \<longleftrightarrow> True" | "needs_m Serve \<longleftrightarrow> True"
| "needs_m (Grab w) \<longleftrightarrow> True" | "needs_m (Give w) \<longleftrightarrow> True" | "needs_m _ \<longleftrightarrow> False"

definition serving :: "stage \<Rightarrow> bool" where
  "serving s \<longleftrightarrow> needs_m s \<and> s \<noteq> Mtx"

text \<open>
  What holds of a thread, given the owner \<open>mx\<close> of the mutex, the flag \<open>ww\<close> (\<open>writer_wait\<close>), whether
  the lock is held for writing (\<open>wb\<close>), the stage \<open>os\<close> of the owner and the last reader \<open>lst\<close>. The
  thread \<open>t\<close> is in stage \<open>s\<close>; \<open>r\<close>, \<open>w\<close> and \<open>p\<close> say whether it holds the lock for reading or writing or
  is pending, \<open>c\<close> whether its record is cleared, \<open>i\<close> whether it is in the queue.
\<close>

definition tok :: "nat \<Rightarrow> nat option \<Rightarrow> bool \<Rightarrow> bool \<Rightarrow> stage \<Rightarrow> nat option \<Rightarrow>
    nat \<Rightarrow> stage \<Rightarrow> bool \<Rightarrow> bool \<Rightarrow> bool \<Rightarrow> bool \<Rightarrow> bool \<Rightarrow> bool" where
  "tok n mx ww wb os lst t s r w p c i \<longleftrightarrow>
     (mx = Some t \<longleftrightarrow> w \<or> needs_m s) \<and> (w \<longrightarrow> s = Idle \<or> s = Mtx) \<and>
     (w \<or> needs_m s \<longrightarrow> os = s \<and> wb = w) \<and>
     (p \<longleftrightarrow> s = Pend \<or> s = Commit \<or> s = Asleep \<and> \<not> r) \<and>
     (r \<longrightarrow> s \<noteq> Pend \<and> s \<noteq> Commit \<and> s \<noteq> Last \<and> s \<noteq> PwGo \<and> s \<noteq> PwWait \<and>
        \<not> wb \<and> os \<noteq> PwGo \<and> lst = None \<and> (os = PwWait \<longrightarrow> ww)) \<and>
     (s = Commit \<or> s = Asleep \<and> \<not> r \<longrightarrow> wb \<or> serving os) \<and>
     (i \<longrightarrow> s = Asleep \<and> \<not> r \<and> \<not> c) \<and>
     (s = Asleep \<longrightarrow> c \<and> r \<or> i \<or> os = Grab t \<or> os = Give t) \<and>
     (os = Grab t \<longrightarrow> s = Asleep \<and> \<not> r \<and> \<not> c \<and> \<not> i) \<and> (os = Give t \<longrightarrow> s = Asleep \<and> r \<and> \<not> c) \<and>
     (s = Last \<longleftrightarrow> lst = Some t) \<and> (n \<le> t \<longrightarrow> s = Idle \<and> \<not> r \<and> \<not> w)"

definition glob :: "nat option \<Rightarrow> bool \<Rightarrow> bool \<Rightarrow> stage \<Rightarrow> nat option \<Rightarrow> nat list \<Rightarrow> (nat \<Rightarrow> bool) \<Rightarrow> bool" where
  "glob mx ww wb os lst q rh \<longleftrightarrow> distinct q \<and> (mx = None \<longrightarrow> \<not> wb \<and> os = Idle) \<and>
     (os = PwWait \<and> ww \<longrightarrow> (\<exists>s. rh s) \<or> lst \<noteq> None) \<and> (lst \<noteq> None \<longrightarrow> ww \<and> os = PwWait)"

text \<open>The bits and counters of the word.\<close>

definition gword :: "nat \<Rightarrow> bool \<Rightarrow> stage \<Rightarrow> u32 \<Rightarrow> (nat \<Rightarrow> bool) \<Rightarrow> (nat \<Rightarrow> bool) \<Rightarrow> bool" where
  "gword n wb os rd rh pe \<longleftrightarrow> rd = rw_word wb (os = PwGo \<or> os = PwWait) (cnt n rh) (cnt n pe)"

definition ginv :: "nat \<Rightarrow> (nat \<Rightarrow> stage) \<Rightarrow> u32 \<Rightarrow> nat option \<Rightarrow> bool \<Rightarrow> nat list \<Rightarrow> (nat \<Rightarrow> bool) \<Rightarrow>
    (nat \<Rightarrow> bool) \<Rightarrow> (nat \<Rightarrow> bool) \<Rightarrow> (nat \<Rightarrow> bool) \<Rightarrow> bool \<Rightarrow> stage \<Rightarrow> nat option \<Rightarrow> bool" where
  "ginv n st rd mx ww q cl rh wh pe wb os lst \<longleftrightarrow>
     (\<forall>t. tok n mx ww wb os lst t (st t) (rh t) (wh t) (pe t) (cl t) (t \<in> set q)) \<and>
     glob mx ww wb os lst q rh \<and> gword n wb os rd rh pe"

section \<open>Actions\<close>

text \<open>An action of thread \<open>t\<close>: what it does to \<open>t\<close> is legal, and what it does to the others is harmless.\<close>

lemma ginv_act:
  assumes "ginv n st rd mx ww q cl rh wh pe wb os lst"
    and "\<And>u. u \<noteq> t \<Longrightarrow> tok n mx ww wb os lst u (st u) (rh u) (wh u) (pe u) (cl u) (u \<in> set q) \<Longrightarrow>
      tok n mx' ww' wb' os' lst' u (st' u) (rh' u) (wh' u) (pe' u) (cl' u) (u \<in> set q')"
    and "tok n mx ww wb os lst t (st t) (rh t) (wh t) (pe t) (cl t) (t \<in> set q) \<Longrightarrow>
      tok n mx' ww' wb' os' lst' t (st' t) (rh' t) (wh' t) (pe' t) (cl' t) (t \<in> set q')"
    and "glob mx ww wb os lst q rh \<Longrightarrow> glob mx' ww' wb' os' lst' q' rh'"
    and "gword n wb os rd rh pe \<Longrightarrow> gword n wb' os' rd' rh' pe'"
  shows "ginv n st' rd' mx' ww' q' cl' rh' wh' pe' wb' os' lst'"
  using assms unfolding ginv_def by metis

lemma cnt_fits: "n < 2 ^ 14 \<Longrightarrow> rw_fits (cnt n f) (cnt n g)"
  using cnt_le [of n f] cnt_le [of n g] by (simp add: rw_fits_def)

text \<open>What the tests of the code see.\<close>

lemma gword_tests:
  assumes "gword n wb os rd rh pe" "n < 2 ^ 14"
  shows "rd < PENDING_WRITER \<longleftrightarrow> \<not> wb \<and> os \<noteq> PwGo \<and> os \<noteq> PwWait"
    and "rd AND WRITER_LOCK = 0 \<longleftrightarrow> \<not> wb" and "rd < WRITER_LOCK \<longleftrightarrow> \<not> wb"
    and "rd AND READERS_MASK = 0 \<longleftrightarrow> (\<forall>t < n. \<not> rh t)"
    and "rd AND READERS_MASK = READER_LOCK_INC \<longleftrightarrow> cnt n rh = 1"
    and "rd AND IND_READ_MASK = READER_LOCK_INC \<longleftrightarrow> \<not> wb \<and> os \<noteq> PwGo \<and> os \<noteq> PwWait \<and> cnt n rh = 1"
    and "rd AND PENDING_WRITER = 0 \<longleftrightarrow> os \<noteq> PwGo \<and> os \<noteq> PwWait"
    and "rd AND PENDING_READERS_MASK = 0 \<longleftrightarrow> (\<forall>t < n. \<not> pe t)"
    and "unat (rd AND PENDING_READERS_MASK) = cnt n pe"
    and "too_many_readers rd \<longleftrightarrow> \<not> cnt n rh + 1 < 2 ^ 14"
    and "\<exists>t < n. rh t \<Longrightarrow> 0 < rd"
proof -
  note f = cnt_fits [OF assms(2), of rh pe]
  note rd = assms(1) [unfolded gword_def]
  note t = rw_word_tests [OF f, of wb "os = PwGo \<or> os = PwWait"]
  show "rd < PENDING_WRITER \<longleftrightarrow> \<not> wb \<and> os \<noteq> PwGo \<and> os \<noteq> PwWait"
    "rd AND WRITER_LOCK = 0 \<longleftrightarrow> \<not> wb" "rd < WRITER_LOCK \<longleftrightarrow> \<not> wb"
    "rd AND READERS_MASK = 0 \<longleftrightarrow> (\<forall>t < n. \<not> rh t)"
    "rd AND READERS_MASK = READER_LOCK_INC \<longleftrightarrow> cnt n rh = 1"
    "rd AND IND_READ_MASK = READER_LOCK_INC \<longleftrightarrow> \<not> wb \<and> os \<noteq> PwGo \<and> os \<noteq> PwWait \<and> cnt n rh = 1"
    "rd AND PENDING_WRITER = 0 \<longleftrightarrow> os \<noteq> PwGo \<and> os \<noteq> PwWait"
    "rd AND PENDING_READERS_MASK = 0 \<longleftrightarrow> (\<forall>t < n. \<not> pe t)"
    unfolding rd t cnt_0_iff by auto
  show "unat (rd AND PENDING_READERS_MASK) = cnt n pe" unfolding rd by (rule rw_word_fields(2) [OF f])
  show "too_many_readers rd \<longleftrightarrow> \<not> cnt n rh + 1 < 2 ^ 14" unfolding rd by (rule too_many_readers_iff [OF f])
  show "\<exists>t < n. rh t \<Longrightarrow> 0 < rd" unfolding rd t using cnt_pos [of _ n rh] by auto
qed

lemma ginvD:
  assumes "ginv n st rd mx ww q cl rh wh pe wb os lst"
  shows "tok n mx ww wb os lst t (st t) (rh t) (wh t) (pe t) (cl t) (t \<in> set q)"
    and "glob mx ww wb os lst q rh" and "gword n wb os rd rh pe"
  using assms by (simp_all add: ginv_def)

lemma g_read:
  assumes "ginv n st rd mx ww q cl rh wh pe wb os lst" "st t = Idle" "\<not> rh t" "t < n" "rd < PENDING_WRITER" "n < 2 ^ 14"
  shows "ginv n st (rd + READER_LOCK_INC) mx ww q cl (rh(t := True)) wh pe wb os lst"
proof -
  have g: "\<not> wb" "os \<noteq> PwGo" "os \<noteq> PwWait" "lst = None"
    using ginvD [OF assms(1)] assms(5,6) gword_tests(1) [of n wb os rd rh pe] by (simp_all add: glob_def)
  show ?thesis
    apply (rule ginv_act [OF assms(1), of t])
    subgoal for u by simp
    subgoal using assms(2,4) g by (simp add: tok_def)
    subgoal using g by (simp add: glob_def)
    subgoal using cnt_add [of t n rh] assms by (simp add: gword_def rw_word_add)
    done
qed

lemma add_one_less:
  assumes "gword n wb os rd rh pe" "n < 2 ^ 14"
  shows "rd + 1 < PENDING_WRITER \<longleftrightarrow> rd < PENDING_WRITER"
proof -
  have f: "rw_fits (cnt n rh) (cnt n pe)" "rw_fits (cnt n rh) (cnt n pe + 1)"
    using cnt_le [of n rh] cnt_le [of n pe] assms(2) by (simp_all add: rw_fits_def)
  show ?thesis using assms(1) by (simp add: gword_def rw_word_add rw_word_tests(7) [OF f(1)] rw_word_tests(7) [OF f(2), simplified])
qed

lemma g_pend:
  assumes "ginv n st rd mx ww q cl rh wh pe wb os lst" "st t = Idle" "\<not> rh t" "\<not> wh t" "t < n" "n < 2 ^ 14"
  shows "ginv n (st(t := if rd + 1 < PENDING_WRITER then Pend else Commit)) (rd + 1) mx ww q cl rh wh (pe(t := True)) wb os lst"
proof -
  note w = ginvD(3) [OF assms(1)]
  note g = add_one_less [OF w assms(6)] gword_tests(1) [OF w assms(6)]
  show ?thesis
    apply (rule ginv_act [OF assms(1), of t])
    subgoal for u by simp
    subgoal using assms(2-5) g by (auto simp: tok_def serving_def)
    subgoal by (simp add: glob_def)
    subgoal using cnt_add [of t n pe] assms(2-5) ginvD(1) [OF assms(1), of t] by (simp add: gword_def rw_word_add tok_def)
    done
qed

lemma g_repend:
  assumes "ginv n st rd mx ww q cl rh wh pe wb os lst" "st t = Pend" "n < 2 ^ 14"
  shows "ginv n (st(t := if rd < PENDING_WRITER then Pend else Commit)) rd mx ww q cl rh wh pe wb os lst"
proof -
  note g = gword_tests(1) [OF ginvD(3) [OF assms(1)] assms(3)]
  show ?thesis
    apply (rule ginv_act [OF assms(1), of t])
    subgoal for u by simp
    subgoal using assms(2) g by (auto simp: tok_def serving_def)
    subgoal by (simp add: glob_def)
    subgoal by simp
    done
qed

lemma g_grant_self:
  assumes "ginv n st rd mx ww q cl rh wh pe wb os lst" "st t = Pend" "rd < PENDING_WRITER" "n < 2 ^ 14"
  shows "ginv n (st(t := Idle)) (rd + READER_LOCK_INC - 1) mx ww q cl (rh(t := True)) wh (pe(t := False)) wb os lst"
proof -
  have g: "\<not> wb" "os \<noteq> PwGo" "os \<noteq> PwWait" "lst = None"
    using ginvD [OF assms(1)] assms(3,4) gword_tests(1) [of n wb os rd rh pe] by (simp_all add: glob_def)
  have t: "\<not> rh t" "pe t" "t < n" using ginvD(1) [OF assms(1), of t] assms(2) by (auto simp: tok_def not_le [symmetric])
  show ?thesis
    apply (rule ginv_act [OF assms(1), of t])
    subgoal for u by simp
    subgoal using assms(2) g t by (simp add: tok_def)
    subgoal using g by (simp add: glob_def)
    subgoal using cnt_add [of t n rh] cnt_sub [of t n pe] cnt_pos [of t n pe] t by (simp add: gword_def rw_word_grant(1))
    done
qed

lemma g_push:
  assumes "ginv n st rd mx ww q cl rh wh pe wb os lst" "st t = Commit"
  shows "ginv n (st(t := Asleep)) rd mx ww (q @ [t]) (cl(t := False)) rh wh pe wb os lst"
  apply (rule ginv_act [OF assms(1), of t])
  subgoal for u by simp
  subgoal using assms(2) by (simp add: tok_def)
  subgoal using ginvD(1) [OF assms(1), of t] assms(2) by (simp add: glob_def tok_def)
  subgoal by simp
  done

lemma g_wake:
  assumes "ginv n st rd mx ww q cl rh wh pe wb os lst" "st t = Asleep" "cl t"
  shows "ginv n (st(t := Idle)) rd mx ww q cl rh wh pe wb os lst"
  apply (rule ginv_act [OF assms(1), of t])
  subgoal for u by simp
  subgoal using assms(2,3) by (auto simp: tok_def)
  subgoal by simp
  subgoal by simp
  done

lemma ginv_reader_less:
  assumes "ginv n st rd mx ww q cl rh wh pe wb os lst" "rh u"
  shows "u < n"
proof -
  have "n \<le> u \<longrightarrow> st u = Idle \<and> \<not> rh u \<and> \<not> wh u"
    using ginvD(1) [OF assms(1), of u] unfolding tok_def by (elim conjE)
  with assms(2) show ?thesis by auto
qed

lemma g_runlock:
  assumes "ginv n st rd mx ww q cl rh wh pe wb os lst" "st t = Idle" "rh t" "n < 2 ^ 14"
  shows "if rd AND READERS_MASK = READER_LOCK_INC \<and> rd AND PENDING_WRITER \<noteq> 0
    then ginv n (st(t := Last)) (rd - READER_LOCK_INC) mx ww q cl (rh(t := False)) wh pe wb os (Some t)
    else ginv n st (rd - READER_LOCK_INC) mx ww q cl (rh(t := False)) wh pe wb os lst"
proof -
  note i = ginvD [OF assms(1)]
  note g = gword_tests(5,7) [OF i(3) assms(4)]
  have t: "t < n" "\<not> wb" "os \<noteq> PwGo" "lst = None" "os = PwWait \<longrightarrow> ww" "mx \<noteq> Some t"
    using i(1) [of t] assms(2,3) by (simp_all add: tok_def not_le [symmetric]) (blast+)?
  have w: "gword n wb os (rd - READER_LOCK_INC) (rh(t := False)) pe"
    using cnt_sub [of t n rh] cnt_pos [of t n rh] t(1) assms(3) i(3) by (simp add: gword_def rw_word_sub)
  show ?thesis
  proof (cases "cnt n rh = 1 \<and> os = PwWait")
    case True
    have only: "rh u \<Longrightarrow> u = t" for u
      using cnt_only [of t n rh u] True t(1) assms(3) ginv_reader_less [OF assms(1), of u] by blast
    have "ginv n (st(t := Last)) (rd - READER_LOCK_INC) mx ww q cl (rh(t := False)) wh pe wb os (Some t)"
      apply (rule ginv_act [OF assms(1), of t])
      subgoal for u using only [of u] t(4) by (cases "st u"; simp add: tok_def serving_def; blast?)
      subgoal using assms(2,3) t True by (simp add: tok_def)
      subgoal using True t(5) by (simp add: glob_def)
      subgoal by (rule w)
      done
    then show ?thesis using True g by simp
  next
    case False
    have "ginv n st (rd - READER_LOCK_INC) mx ww q cl (rh(t := False)) wh pe wb os lst"
      apply (rule ginv_act [OF assms(1), of t])
      subgoal for u by simp
      subgoal using assms(2,3) t by (simp add: tok_def)
      subgoal
      proof -
        assume gl: "glob mx ww wb os lst q rh"
        have "\<exists>s. (rh(t := False)) s" if "os = PwWait"
        proof -
          have "cnt n rh \<noteq> 1" using False that by simp
          then have "cnt n (rh(t := False)) \<noteq> 0"
            using cnt_sub [of t n rh] cnt_pos [of t n rh] t(1) assms(3) by simp
          then show ?thesis unfolding cnt_0_iff by blast
        qed
        then show ?thesis using gl by (simp add: glob_def)
      qed
      subgoal by (rule w)
      done
    then show ?thesis using False g t(3) by auto
  qed
qed

lemma g_woke:
  assumes "ginv n st rd mx ww q cl rh wh pe wb os lst" "st t = Last"
  shows "ginv n (st(t := Idle)) rd mx False q cl rh wh pe wb os None"
proof -
  have t: "lst = Some t" "mx \<noteq> Some t" "\<not> rh t" using ginvD(1) [OF assms(1), of t] assms(2) by (auto simp: tok_def)
  have w: "os = PwWait" using ginvD(2) [OF assms(1)] t(1) by (simp add: glob_def)
  show ?thesis
    apply (rule ginv_act [OF assms(1), of t])
    subgoal for u using t by (cases "st u"; simp add: tok_def serving_def; blast?)
    subgoal using assms(2) t w by (simp add: tok_def)
    subgoal using w by (simp add: glob_def)
    subgoal by simp
    done
qed

text \<open>The writers' mutex.\<close>

lemma g_lock:
  assumes "ginv n st rd None ww q cl rh wh pe wb os lst" "st t = Idle" "t < n"
  shows "ginv n (st(t := Mtx)) rd (Some t) ww q cl rh wh pe wb Mtx lst"
proof -
  have g: "\<not> wb" "os = Idle" "lst = None" using ginvD(2) [OF assms(1)] by (auto simp: glob_def)
  show ?thesis
    apply (rule ginv_act [OF assms(1), of t])
    subgoal for u using g by (cases "st u"; simp add: tok_def serving_def; blast?)
    subgoal using assms(2,3) g by (simp add: tok_def)
    subgoal using g by (simp add: glob_def)
    subgoal using g by (simp add: gword_def)
    done
qed

lemma g_relock:
  assumes "ginv n st rd mx ww q cl rh wh pe wb os lst" "st t = Idle" "wh t"
  shows "ginv n (st(t := Mtx)) rd mx ww q cl rh wh pe wb Mtx lst"
proof -
  have g: "mx = Some t" "wb" "os = Idle" "lst = None" "\<not> rh t" "t < n"
    using ginvD(1) [OF assms(1), of t] ginvD(2) [OF assms(1)] assms(2,3) by (simp_all add: glob_def tok_def not_le [symmetric]) (blast+)?
  show ?thesis
    apply (rule ginv_act [OF assms(1), of t])
    subgoal for u using g by (cases "st u"; simp add: tok_def serving_def; blast?)
    subgoal using assms(2,3) g by (simp add: tok_def)
    subgoal using g by (simp add: glob_def)
    subgoal using g by (simp add: gword_def)
    done
qed

lemma g_unlock:
  assumes "ginv n st rd mx ww q cl rh wh pe wb os lst" "st t = Mtx" "\<not> wh t"
  shows "ginv n (st(t := Idle)) rd None ww q cl rh wh pe wb Idle lst"
proof -
  have g: "mx = Some t" "\<not> wb" "os = Mtx" "lst = None" "t < n"
    using ginvD(1) [OF assms(1), of t] ginvD(2) [OF assms(1)] assms(2,3) by (simp_all add: glob_def tok_def not_le [symmetric]) (blast+)?
  show ?thesis
    apply (rule ginv_act [OF assms(1), of t])
    subgoal for u using g by (cases "st u"; simp add: tok_def serving_def; blast?)
    subgoal using assms(2,3) g by (simp add: tok_def)
    subgoal using g by (simp add: glob_def)
    subgoal using g by (simp add: gword_def)
    done
qed

lemma g_return:
  assumes "ginv n st rd mx ww q cl rh wh pe wb os lst" "st t = Mtx" "wh t"
  shows "ginv n (st(t := Idle)) rd mx ww q cl rh wh pe wb Idle lst"
proof -
  have g: "mx = Some t" "wb" "os = Mtx" "lst = None" "t < n"
    using ginvD(1) [OF assms(1), of t] ginvD(2) [OF assms(1)] assms(2,3) by (simp_all add: glob_def tok_def not_le [symmetric]) (blast+)?
  show ?thesis
    apply (rule ginv_act [OF assms(1), of t])
    subgoal for u using g by (cases "st u"; simp add: tok_def serving_def; blast?)
    subgoal using assms(2,3) g by (simp add: tok_def)
    subgoal using g by (simp add: glob_def)
    subgoal using g by (simp add: gword_def)
    done
qed

text \<open>Writers.\<close>

lemma g_upgrade:
  assumes "ginv n st rd mx ww q cl rh wh pe wb os lst" "st t = Mtx" "rh t" "\<not> wh t"
    and "rd AND IND_READ_MASK = READER_LOCK_INC" "n < 2 ^ 14"
  shows "ginv n (st(t := Idle)) (WRITER_LOCK OR (rd AND PENDING_READERS_MASK)) mx ww q cl (rh(t := False)) (wh(t := True)) pe True Idle lst"
proof -
  note i = ginvD [OF assms(1)]
  have c: "cnt n rh = 1" using gword_tests(6) [OF i(3) assms(6)] assms(5) by simp
  have g: "mx = Some t" "\<not> wb" "os = Mtx" "lst = None" "t < n" "\<not> pe t" "t \<notin> set q"
    using i(1) [of t] i(2) assms(2,4) by (simp_all add: glob_def tok_def not_le [symmetric]) (blast+)?
  have only: "u \<noteq> t \<Longrightarrow> \<not> rh u" for u
    using cnt_only [of t n rh u] c g(5) assms(3) ginv_reader_less [OF assms(1), of u] by blast
  show ?thesis
    apply (rule ginv_act [OF assms(1), of t])
    subgoal for u using g only [of u] by (cases "st u"; simp add: tok_def serving_def; blast?)
    subgoal using assms(2-4) g by (simp add: tok_def)
    subgoal using g by (simp add: glob_def)
    subgoal using cnt_sub [of t n rh] c g assms(3) rw_word_bits(3) [OF cnt_fits [OF assms(6), of rh pe], of wb False]
      by (simp add: gword_def)
    done
qed

lemma g_write:
  assumes "ginv n st rd mx ww q cl rh wh pe wb os lst" "st t = Mtx \<or> st t = PwGo" "\<not> wh t" "s' = Idle \<or> s' = Mtx"
    and "rd AND READERS_MASK = 0" "n < 2 ^ 14"
  shows "ginv n (st(t := s')) (WRITER_LOCK OR (rd AND PENDING_READERS_MASK)) mx ww q cl rh (wh(t := True)) pe True s' lst"
proof -
  note i = ginvD [OF assms(1)]
  have "mx = Some t \<and> \<not> wb \<and> os = st t \<and> lst = None \<and> t < n \<and> \<not> pe t \<and> t \<notin> set q"
    using i(1) [of t] i(2) assms(3) by (rule_tac disjE [OF assms(2)]; simp add: glob_def tok_def not_le [symmetric]; blast?)
  then have g: "mx = Some t" "\<not> wb" "os = st t" "lst = None" "t < n" "\<not> pe t" "t \<notin> set q" by simp_all
  have none: "\<not> rh u" for u
    using gword_tests(4) [OF i(3) assms(6)] assms(5) ginv_reader_less [OF assms(1), of u] by blast
  have c: "cnt n rh = 0" using none by (simp add: cnt_0_iff)
  have s: "(w' \<or> needs_m s') = (w' \<or> s' = Mtx)" "s' \<noteq> Pend" "s' \<noteq> Commit" "s' \<noteq> Asleep" "s' \<noteq> Last" "s' \<noteq> PwGo" "s' \<noteq> PwWait"
      "s' \<noteq> Grab v" "s' \<noteq> Give v" "st t \<noteq> Grab v" "st t \<noteq> Give v" for w' v
    using assms(2,4) by auto
  show ?thesis
    apply (rule ginv_act [OF assms(1), of t])
    subgoal for u using g none [of u] s by (cases "st u"; simp add: tok_def serving_def)
    subgoal using assms(3,4) g none [of t] s by (simp add: tok_def)
    subgoal using g s by (simp add: glob_def)
    subgoal using c s rw_word_bits(3) [OF cnt_fits [OF assms(6), of rh pe], of wb "os = PwGo \<or> os = PwWait"]
      by (simp add: gword_def)
    done
qed

lemma g_write_add:
  assumes "ginv n st rd mx ww q cl rh wh pe wb os lst" "st t = PwGo"
  shows "ginv n (st(t := Idle)) (rd + PENDING_WRITER) mx ww q cl rh (wh(t := True)) pe True Idle lst"
proof -
  note i = ginvD [OF assms(1)]
  have g: "mx = Some t" "\<not> wb" "os = PwGo" "lst = None" "t < n" "\<not> pe t" "t \<notin> set q" "\<not> wh t"
    using i(1) [of t] i(2) assms(2) by (simp_all add: glob_def tok_def not_le [symmetric]) (blast+)?
  have none: "\<not> rh u" for u using i(1) [of u] g(3) by (simp add: tok_def)
  show ?thesis
    apply (rule ginv_act [OF assms(1), of t])
    subgoal for u using g none [of u] by (cases "st u"; simp add: tok_def serving_def; blast?)
    subgoal using assms(2) g none [of t] by (simp add: tok_def)
    subgoal using g by (simp add: glob_def)
    subgoal using g by (simp add: gword_def rw_word_add)
    done
qed

lemma g_pending_writer:
  assumes "ginv n st rd mx ww q cl rh wh pe wb os lst" "st t = Mtx" "\<not> wh t" "\<not> rh t" "ww" "n < 2 ^ 14"
  shows "if (rd OR PENDING_WRITER) AND READERS_MASK = 0
    then ginv n (st(t := PwGo)) (rd OR PENDING_WRITER) mx ww q cl rh wh pe wb PwGo lst
    else ginv n (st(t := PwWait)) (rd OR PENDING_WRITER) mx ww q cl rh wh pe wb PwWait lst"
proof -
  note i = ginvD [OF assms(1)]
  have g: "mx = Some t" "\<not> wb" "os = Mtx" "lst = None" "t < n"
    using i(1) [of t] i(2) assms(2,3) by (simp_all add: glob_def tok_def not_le [symmetric]) (blast+)?
  have w: "gword n wb os' (rd OR PENDING_WRITER) rh pe" if "os' = PwGo \<or> os' = PwWait" for os'
    using i(3) g that rw_word_bits(1) [OF cnt_fits [OF assms(6), of rh pe], of wb False] by (simp add: gword_def)
  note z = gword_tests(4) [OF w [of PwGo] assms(6)]
  show ?thesis
  proof (cases "\<forall>u < n. \<not> rh u")
    case True
    then have none: "\<not> rh u" for u using ginv_reader_less [OF assms(1), of u] by blast
    have "ginv n (st(t := PwGo)) (rd OR PENDING_WRITER) mx ww q cl rh wh pe wb PwGo lst"
      apply (rule ginv_act [OF assms(1), of t])
      subgoal for u using g none [of u] by (cases "st u"; simp add: tok_def serving_def; blast?)
      subgoal using assms(2-4) g by (simp add: tok_def)
      subgoal using g by (simp add: glob_def)
      subgoal using w by simp
      done
    then show ?thesis using z True by simp
  next
    case False
    then obtain v where "rh v" by blast
    have "ginv n (st(t := PwWait)) (rd OR PENDING_WRITER) mx ww q cl rh wh pe wb PwWait lst"
      apply (rule ginv_act [OF assms(1), of t])
      subgoal for u using g assms(5) by (cases "st u"; simp add: tok_def serving_def; blast?)
      subgoal using assms(2-5) g by (simp add: tok_def)
      subgoal using g \<open>rh v\<close> by (auto simp: glob_def)
      subgoal using w by simp
      done
    then show ?thesis using z False by simp
  qed
qed

lemma g_proceed:
  assumes "ginv n st rd mx False q cl rh wh pe wb os lst" "st t = PwWait"
  shows "ginv n (st(t := PwGo)) rd mx False q cl rh wh pe wb PwGo lst"
proof -
  note i = ginvD [OF assms(1)]
  have g: "mx = Some t" "\<not> wb" "os = PwWait" "lst = None" "t < n" "\<not> wh t"
    using i(1) [of t] i(2) assms(2) by (simp_all add: glob_def tok_def not_le [symmetric]) (blast+)?
  show ?thesis
    apply (rule ginv_act [OF assms(1), of t])
    subgoal for u using g by (cases "st u"; simp add: tok_def serving_def; blast?)
    subgoal using assms(2) g by (simp add: tok_def)
    subgoal using g by (simp add: glob_def)
    subgoal using g by (simp add: gword_def)
    done
qed

lemma g_flag:
  assumes "ginv n st rd mx ww q cl rh wh pe wb os lst" "st t = Mtx"
  shows "ginv n st rd mx ww' q cl rh wh pe wb os lst"
proof -
  note i = ginvD [OF assms(1)]
  have g: "os = Mtx" "lst = None"
    using i(1) [of t] i(2) assms(2) by (simp_all add: glob_def tok_def)
  show ?thesis
    apply (rule ginv_act [OF assms(1), of t])
    subgoal for u using g by (simp add: tok_def)
    subgoal using g by (simp add: tok_def)
    subgoal using g by (simp add: glob_def)
    subgoal by simp
    done
qed

text \<open>Releasing the lock for writing and waking the readers.\<close>

lemma g_wunlock:
  assumes "ginv n st rd mx ww q cl rh wh pe wb os lst" "st t = Idle" "wh t" "n < 2 ^ 14"
  shows "if rd AND PENDING_READERS_MASK = 0
    then ginv n (st(t := Mtx)) (rd AND NOT WRITER_LOCK) mx ww q cl rh (wh(t := False)) pe False Mtx lst
    else ginv n (st(t := Serve)) (rd AND NOT WRITER_LOCK) mx ww q cl rh (wh(t := False)) pe False Serve lst"
proof -
  note i = ginvD [OF assms(1)]
  have g: "mx = Some t" "wb" "os = Idle" "lst = None" "t < n" "\<not> pe t" "t \<notin> set q" "\<not> rh t"
    using i(1) [of t] i(2) assms(2,3) by (simp_all add: glob_def tok_def not_le [symmetric]) (blast+)?
  have w: "gword n False os' (rd AND NOT WRITER_LOCK) rh pe" if "os' = Mtx \<or> os' = Serve" for os'
    using i(3) g that rw_word_bits(2) [OF cnt_fits [OF assms(4), of rh pe], of wb False] by (auto simp: gword_def)
  note z = gword_tests(8) [OF i(3) assms(4)]
  show ?thesis
  proof (cases "\<forall>u < n. \<not> pe u")
    case True
    have "ginv n (st(t := Mtx)) (rd AND NOT WRITER_LOCK) mx ww q cl rh (wh(t := False)) pe False Mtx lst"
      apply (rule ginv_act [OF assms(1), of t])
      subgoal for u using g True by (cases "st u"; simp add: tok_def serving_def not_le [symmetric]; blast?)
      subgoal using assms(2) g by (simp add: tok_def)
      subgoal using g by (simp add: glob_def)
      subgoal using w by simp
      done
    then show ?thesis using z True by simp
  next
    case False
    have "ginv n (st(t := Serve)) (rd AND NOT WRITER_LOCK) mx ww q cl rh (wh(t := False)) pe False Serve lst"
      apply (rule ginv_act [OF assms(1), of t])
      subgoal for u using g by (cases "st u"; simp add: tok_def serving_def; blast?)
      subgoal using assms(2) g by (simp add: tok_def)
      subgoal using g by (simp add: glob_def)
      subgoal using w by simp
      done
    then show ?thesis using z False by simp
  qed
qed

lemma g_downgrade:
  assumes "ginv n st rd mx ww q cl rh wh pe wb os lst" "st t = Idle" "wh t" "n < 2 ^ 14"
  shows "ginv n (st(t := Serve)) ((rd AND NOT WRITER_LOCK) + READER_LOCK_INC) mx ww q cl (rh(t := True)) (wh(t := False)) pe False Serve lst"
proof -
  note i = ginvD [OF assms(1)]
  have g: "mx = Some t" "wb" "os = Idle" "lst = None" "t < n" "\<not> pe t" "t \<notin> set q" "\<not> rh t"
    using i(1) [of t] i(2) assms(2,3) by (simp_all add: glob_def tok_def not_le [symmetric]) (blast+)?
  show ?thesis
    apply (rule ginv_act [OF assms(1), of t])
    subgoal for u using g by (cases "st u"; simp add: tok_def serving_def; blast?)
    subgoal using assms(2) g by (simp add: tok_def)
    subgoal using g by (simp add: glob_def)
    subgoal using g cnt_add [of t n rh] rw_word_bits(2) [OF cnt_fits [OF assms(4), of rh pe], of wb False]
      by (simp add: gword_def rw_word_add)
    done
qed

lemma g_recount:
  assumes "ginv n st rd mx ww q cl rh wh pe wb os lst" "st t = Serve" "n < 2 ^ 14"
  shows "if rd AND PENDING_READERS_MASK = 0 then ginv n (st(t := Mtx)) rd mx ww q cl rh wh pe wb Mtx lst
    else ginv n st rd mx ww q cl rh wh pe wb os lst"
proof -
  note i = ginvD [OF assms(1)]
  have g: "mx = Some t" "\<not> wb" "os = Serve" "lst = None" "t < n"
    using i(1) [of t] i(2) assms(2) by (simp_all add: glob_def tok_def not_le [symmetric]) (blast+)?
  note z = gword_tests(8) [OF i(3) assms(3)]
  show ?thesis
  proof (cases "\<forall>u < n. \<not> pe u")
    case True
    have "ginv n (st(t := Mtx)) rd mx ww q cl rh wh pe wb Mtx lst"
      apply (rule ginv_act [OF assms(1), of t])
      subgoal for u using g True by (cases "st u"; simp add: tok_def serving_def not_le [symmetric]; blast?)
      subgoal using assms(2) g by (simp add: tok_def)
      subgoal using g by (simp add: glob_def)
      subgoal using g by (simp add: gword_def)
      done
    then show ?thesis using z True by simp
  next
    case False
    then show ?thesis using z assms(1) by auto
  qed
qed

lemma g_pop:
  assumes "ginv n st rd mx ww (v # vs) cl rh wh pe wb os lst" "st t = Serve"
  shows "ginv n (st(t := Grab v)) rd mx ww vs cl rh wh pe wb (Grab v) lst"
proof -
  note i = ginvD [OF assms(1)]
  have g: "mx = Some t" "\<not> wb" "os = Serve" "lst = None" "t < n" "\<not> wh t" "t \<noteq> v" "t \<notin> set vs"
    using i(1) [of t] i(2) assms(2) by (simp_all add: glob_def tok_def not_le [symmetric]) (blast+)?
  have a: "v \<notin> set vs" using i(2) by (simp add: glob_def)
  have b: "st v = Asleep" "\<not> rh v" "\<not> cl v" using i(1) [of v] by (simp_all add: tok_def)
  have v: "v \<notin> set vs" "st v = Asleep" "\<not> rh v" "\<not> cl v" "v < n" "pe v" "\<not> wh v"
    using i(1) [of v] a b by (simp_all add: tok_def not_le [symmetric])
  show ?thesis
    apply (rule ginv_act [OF assms(1), of t])
    subgoal for u using g v by (cases "u = v"; cases "st u"; simp add: tok_def serving_def; blast?)
    subgoal using assms(2) g by (simp add: tok_def)
    subgoal using g by (simp add: glob_def)
    subgoal using g by (simp add: gword_def)
    done
qed

lemma g_take:
  assumes "ginv n st rd mx ww q cl rh wh pe wb os lst" "st t = Grab v"
  shows "ginv n (st(t := Give v)) (rd + (READER_LOCK_INC - 1)) mx ww q cl (rh(v := True)) wh (pe(v := False)) wb (Give v) lst"
proof -
  note i = ginvD [OF assms(1)]
  have g: "mx = Some t" "\<not> wb" "os = Grab v" "lst = None" "t < n" "\<not> wh t" "\<not> pe t" "t \<notin> set q"
    using i(1) [of t] i(2) assms(2) by (simp_all add: glob_def tok_def not_le [symmetric]) (blast+)?
  have a: "st v = Asleep" "\<not> rh v" "\<not> cl v" "v \<notin> set q" using i(1) [of v] g(3) by (simp_all add: tok_def)
  have v: "st v = Asleep" "\<not> rh v" "pe v" "v < n" "\<not> cl v" "v \<notin> set q" "\<not> wh v"
    using i(1) [of v] g(3) a by (simp_all add: tok_def not_le [symmetric])
  have "t \<noteq> v" using v(1) assms(2) by auto
  show ?thesis
    apply (rule ginv_act [OF assms(1), of t])
    subgoal for u using g v by (cases "u = v"; cases "st u"; simp add: tok_def serving_def; blast?)
    subgoal using assms(2) g \<open>t \<noteq> v\<close> by (simp add: tok_def)
    subgoal using g by (simp add: glob_def)
    subgoal using g cnt_add [of v n rh] cnt_sub [of v n pe] cnt_pos [of v n pe] v by (simp add: gword_def rw_word_grant(2))
    done
qed

lemma g_give:
  assumes "ginv n st rd mx ww q cl rh wh pe wb os lst" "st t = Give v"
  shows "ginv n (st(t := Serve)) rd mx ww q (cl(v := True)) rh wh pe wb Serve lst"
proof -
  note i = ginvD [OF assms(1)]
  have g: "mx = Some t" "\<not> wb" "os = Give v" "lst = None" "t < n" "\<not> wh t" "\<not> pe t" "t \<notin> set q"
    using i(1) [of t] i(2) assms(2) by (simp_all add: glob_def tok_def not_le [symmetric]) (blast+)?
  have v: "st v = Asleep" "rh v" "\<not> cl v" using i(1) [of v] g(3) by (simp_all add: tok_def)
  have "t \<noteq> v" using v(1) assms(2) by auto
  show ?thesis
    apply (rule ginv_act [OF assms(1), of t])
    subgoal for u using g v by (cases "u = v"; cases "st u"; simp add: tok_def serving_def; blast?)
    subgoal using assms(2) g \<open>t \<noteq> v\<close> by (simp add: tok_def)
    subgoal using g by (simp add: glob_def)
    subgoal using g by (simp add: gword_def)
    done
qed

end
