(* ===== verification/RwSafety.thy ===== *)
theory RwSafety
  imports RwProtocol
begin

text \<open>
  Every step of every operation of the reader-writer lock is an action of the protocol, so the
  protocol's invariant holds in every reachable state. From it follow that readers and writers exclude
  each other, that no assertion fails, and that no thread is left waiting.
\<close>

section \<open>Program counters as stages\<close>

fun kstage :: "k_pc \<Rightarrow> stage" where
  "kstage (KTest p) = (if p = 0 then Mtx else Serve)"
| "kstage KLoad = Serve"
| "kstage (KAdd v) = Grab v"
| "kstage (KStore v p) = Give v"

fun stage_of :: "rw_pc \<Rightarrow> stage" where
  "stage_of (R (RCas2 v)) = (if v < PENDING_WRITER then Pend else Commit)"
| "stage_of (R RPush) = Commit"
| "stage_of (R RWait) = Asleep"
| "stage_of (RU p) = (if p = RuAdd then Idle else Last)"
| "stage_of (UP p) = (if p = UpTry then Idle else Mtx)"
| "stage_of (WT p) = (if p = WtTry then Idle else Mtx)"
| "stage_of (W WLock) = Idle"
| "stage_of (W (WCas v)) = (if v AND READERS_MASK = 0 then PwGo else PwWait)"
| "stage_of (W WWait) = PwWait"
| "stage_of (W WAdd) = PwGo"
| "stage_of (W _) = Mtx"
| "stage_of (WU (UnWake k)) = kstage k"
| "stage_of (WU UnUnlock) = Mtx"
| "stage_of (DG DgLoad2) = Serve"
| "stage_of (DG (DgWake k)) = kstage k"
| "stage_of (DG (DgUnlock d)) = (if d = 0 then Idle else Mtx)"
| "stage_of _ = Idle"

text \<open>
  What a thread at a program counter knows: of its local variables, of what it holds (\<open>r\<close>, \<open>w\<close>), and,
  when it owns the mutex, of the depth \<open>d\<close> and of \<open>writer_wait\<close>.
\<close>

fun kok :: "k_pc \<Rightarrow> bool" where
  "kok (KStore v p) \<longleftrightarrow> p \<noteq> 0"
| "kok _ \<longleftrightarrow> True"

fun loc :: "nat \<Rightarrow> nat \<Rightarrow> bool \<Rightarrow> bool \<Rightarrow> bool \<Rightarrow> rw_pc \<Rightarrow> bool" where
  "loc n d ww r w Out \<longleftrightarrow> True"
| "loc n d ww r w Failed \<longleftrightarrow> False"
| "loc n d ww r w (TR p) \<longleftrightarrow> \<not> r \<and> \<not> w"
| "loc n d ww r w (R p) \<longleftrightarrow>
     (case p of RLoad \<Rightarrow> \<not> r \<and> \<not> w
      | RCas v \<Rightarrow> \<not> r \<and> \<not> w \<and> unat (v AND PENDING_READERS_MASK) < n
      | RAdd v \<Rightarrow> \<not> r \<and> \<not> w \<and> unat (v AND PENDING_READERS_MASK) < n
      | _ \<Rightarrow> True)"
| "loc n d ww r w (RU p) \<longleftrightarrow> (p = RuAdd \<longrightarrow> r)"
| "loc n d ww r w (UP p) \<longleftrightarrow> r \<and> (p \<noteq> UpTry \<longrightarrow> \<not> w \<and> d = 1) \<and>
     (case p of UpCas v \<Rightarrow> v AND IND_READ_MASK = READER_LOCK_INC | _ \<Rightarrow> True)"
| "loc n d ww r w (WT p) \<longleftrightarrow> \<not> r \<and>
     (case p of WtTry \<Rightarrow> True
      | WtLoad \<Rightarrow> (if w then 2 \<le> d else d = 1)
      | WtCas v \<Rightarrow> \<not> w \<and> d = 1 \<and> v AND READERS_MASK = 0
      | WtUnlock \<Rightarrow> \<not> w \<and> d = 1)"
| "loc n d ww r w (W p) \<longleftrightarrow>
     (case p of WLock \<Rightarrow> \<not> r
      | WRec \<Rightarrow> \<not> r \<and> (if w then 2 \<le> d else d = 1)
      | WFlag \<Rightarrow> \<not> r \<and> \<not> w \<and> d = 1
      | WOr \<Rightarrow> \<not> r \<and> \<not> w \<and> d = 1 \<and> ww
      | WClear \<Rightarrow> w \<and> d = 1
      | _ \<Rightarrow> d = 1)"
| "loc n d ww r w (WU p) \<longleftrightarrow>
     (case p of UnDepth \<Rightarrow> w | UnAnd \<Rightarrow> w \<and> d = 1 | UnWake k \<Rightarrow> \<not> w \<and> d = 1 \<and> kok k | UnUnlock \<Rightarrow> \<not> w \<and> d = 1)"
| "loc n d ww r w (DG p) \<longleftrightarrow>
     (case p of DgLoad2 \<Rightarrow> \<not> w | DgWake k \<Rightarrow> \<not> w \<and> kok k | DgUnlock e \<Rightarrow> e \<noteq> 0 \<longrightarrow> \<not> w \<and> d = e | _ \<Rightarrow> w)"

definition st :: "rwlock \<Rightarrow> nat \<Rightarrow> stage" where
  "st m = (\<lambda>u. stage_of (rw_pcs m u))"

definition gi :: "nat \<Rightarrow> rwlock \<Rightarrow> bool \<Rightarrow> stage \<Rightarrow> nat option \<Rightarrow> bool" where
  "gi n m = ginv n (st m) (readers m) (wmtx m) (writer_wait m) (read_waiters m) (cleared m) (rhold m) (whold m) (pend m)"

definition locs :: "nat \<Rightarrow> rwlock \<Rightarrow> nat \<Rightarrow> bool" where
  "locs n m u \<longleftrightarrow> loc n (wdepth m) (writer_wait m) (rhold m u) (whold m u) (rw_pcs m u) \<and> (n \<le> u \<longrightarrow> rw_pcs m u = Out)"

definition depth_ok :: "rwlock \<Rightarrow> bool" where
  "depth_ok m \<longleftrightarrow> (wmtx m = None \<longleftrightarrow> wdepth m = 0)"

definition rwinv :: "nat \<Rightarrow> rwlock \<Rightarrow> bool" where
  "rwinv n m \<longleftrightarrow> (\<exists>wb os lst. gi n m wb os lst) \<and> (\<forall>u. locs n m u) \<and> depth_ok m"

lemma rw_fields [simp]:
  "readers (at_pc t p m) = readers m" "wmtx (at_pc t p m) = wmtx m" "wdepth (at_pc t p m) = wdepth m"
  "writer_wait (at_pc t p m) = writer_wait m" "read_waiters (at_pc t p m) = read_waiters m"
  "cleared (at_pc t p m) = cleared m" "rhold (at_pc t p m) = rhold m" "whold (at_pc t p m) = whold m"
  "pend (at_pc t p m) = pend m" "rw_pcs (at_pc t p m) = (rw_pcs m)(t := p)"
  by (simp_all add: at_pc_def)

lemma st_at_pc [simp]: "st (at_pc t p m) = (st m)(t := stage_of p)"
  by (auto simp: st_def)

lemma st_fields [simp]:
  "st (m\<lparr>readers := x\<rparr>) = st m" "st (m\<lparr>writer_wait := b\<rparr>) = st m" "st (m\<lparr>wmtx := x'\<rparr>) = st m"
  "st (m\<lparr>wdepth := d\<rparr>) = st m" "st (m\<lparr>read_waiters := q\<rparr>) = st m" "st (m\<lparr>cleared := c\<rparr>) = st m"
  "st (m\<lparr>rhold := c\<rparr>) = st m" "st (m\<lparr>whold := c\<rparr>) = st m" "st (m\<lparr>pend := c\<rparr>) = st m"
  by (simp_all add: st_def)

lemmas ghosts = read_held_def write_held_def pending_def wmtx_lock_def

text \<open>A step of thread \<open>t\<close>: the protocol's action, and what the threads know afterwards.\<close>

lemma rwinv_act:
  assumes "rwinv n m" "gi n m' wb os lst" "depth_ok m'" "locs n m' t" "\<And>u. u \<noteq> t \<Longrightarrow> locs n m u \<Longrightarrow> locs n m' u"
  shows "rwinv n m'"
  using assms unfolding rwinv_def by metis

text \<open>The knowledge of a thread that owns neither mutex nor lock depends on nothing the others change.\<close>

lemma needs_m_kstage [simp]: "needs_m (kstage k)"
  by (cases k) auto

lemma loc_free:
  assumes "loc n d ww r w p" "\<not> needs_m (stage_of p)" "\<not> w"
  shows "loc n d' ww' r w p"
  using assms
proof (cases p)
  case (WT x)
  then show ?thesis using assms by (cases x) auto
next
  case (W x)
  then show ?thesis using assms by (cases x) (auto split: if_splits)
next
  case (WU x)
  then show ?thesis using assms by (cases x) auto
next
  case (DG x)
  then show ?thesis using assms by (cases x) (auto split: if_splits)
qed auto

lemma loc_flag:
  assumes "loc n d ww r w p" "p \<noteq> W WOr"
  shows "loc n d ww' r w p"
proof (cases p)
  case (W x)
  then show ?thesis using assms by (cases x) simp_all
qed (use assms in simp_all)

lemma owner_stage:
  assumes "gi n m wb os lst" "needs_m (st m u)"
  shows "st m u = os" "wmtx m = Some u"
proof -
  note t = ginvD(1) [OF assms(1) [unfolded gi_def], of u, unfolded tok_def]
  have "wmtx m = Some u \<longleftrightarrow> whold m u \<or> needs_m (st m u)" using t by (elim conjE)
  moreover have "whold m u \<or> needs_m (st m u) \<longrightarrow> os = st m u \<and> wb = whold m u" using t by (elim conjE)
  ultimately show "st m u = os" "wmtx m = Some u" using assms(2) by simp_all
qed

lemma tok_reader:
  assumes "tok n mx ww wb os lst t s r w p c i" "r"
  shows "\<not> wb" "os \<noteq> PwGo" "lst = None" "os = PwWait \<Longrightarrow> ww"
  using assms by (simp_all add: tok_def)

lemma writer_owns:
  assumes "gi n m wb os lst" "whold m u"
  shows "wmtx m = Some u" "wb" "\<not> rhold m v" "st m u = Idle \<or> st m u = Mtx"
proof -
  note t = ginvD(1) [OF assms(1) [unfolded gi_def], of u, unfolded tok_def]
  have "wmtx m = Some u \<longleftrightarrow> whold m u \<or> needs_m (st m u)" using t by (elim conjE)
  moreover have "whold m u \<or> needs_m (st m u) \<longrightarrow> os = st m u \<and> wb = whold m u" using t by (elim conjE)
  moreover have "whold m u \<longrightarrow> st m u = Idle \<or> st m u = Mtx" using t by (elim conjE)
  ultimately show w: "wmtx m = Some u" "wb" "st m u = Idle \<or> st m u = Mtx" using assms(2) by auto
  show "\<not> rhold m v" using tok_reader(1) [OF ginvD(1) [OF assms(1) [unfolded gi_def], of v]] w(2) by blast
qed

lemma reader_not_pending:
  assumes "gi n m wb os lst" "rhold m u"
  shows "st m u \<noteq> PwWait"
proof
  assume "st m u = PwWait"
  then show False using ginvD(1) [OF assms(1) [unfolded gi_def], of u] assms(2) by (simp add: tok_def)
qed

lemma grabbed:
  assumes "gi n m wb os lst" "os = Grab v"
  shows "st m v = Asleep" "pend m v"
proof -
  note t = ginvD(1) [OF assms(1) [unfolded gi_def], of v, unfolded tok_def]
  have "os = Grab v \<longrightarrow> st m v = Asleep \<and> \<not> rhold m v \<and> \<not> cleared m v \<and> v \<notin> set (read_waiters m)" using t by (elim conjE)
  moreover have "pend m v \<longleftrightarrow> st m v = Pend \<or> st m v = Commit \<or> st m v = Asleep \<and> \<not> rhold m v" using t by (elim conjE)
  ultimately show "st m v = Asleep" "pend m v" using assms(2) by simp_all
qed

lemma rwinvE:
  assumes "rwinv n m"
  obtains wb os lst where "gi n m wb os lst" "\<And>u. locs n m u" "depth_ok m"
  using assms unfolding rwinv_def by metis

lemma rw_stutter:
  assumes "rwinv n m" "stage_of p = stage_of (rw_pcs m t)" "loc n (wdepth m) (writer_wait m) (rhold m t) (whold m t) p" "t < n"
  shows "rwinv n (at_pc t p m)"
proof -
  obtain wb os lst where i: "gi n m wb os lst" "\<And>u. locs n m u" "depth_ok m" using rwinvE [OF assms(1)] by blast
  have "(st m)(t := stage_of p) = st m" using assms(2) by (auto simp: st_def)
  then have "gi n (at_pc t p m) wb os lst" using i(1) by (simp add: gi_def)
  then show ?thesis
    by (rule rwinv_act [OF assms(1), where t = t]) (use i(2,3) assms(3,4) in \<open>simp_all add: locs_def depth_ok_def\<close>)
qed

lemma not_too_many:
  assumes "gi n m wb os lst" "t < n" "\<not> rhold m t" "n < 2 ^ 14"
  shows "\<not> too_many_readers (readers m)"
  using gword_tests(10) [OF ginvD(3) [OF assms(1) [unfolded gi_def]] assms(4)] cnt_less [OF assms(2), of "rhold m"] assms(3,4)
  by simp

text \<open>Acquiring the lock for reading at once, in \<open>try_rlock\<close> and \<open>rlock\<close>.\<close>

lemma rw_read:
  assumes "rwinv n m" "stage_of (rw_pcs m t) = Idle" "\<not> rhold m t" "t < n" "n < 2 ^ 14" "readers m < PENDING_WRITER"
  shows "rwinv n (at_pc t Out (read_held t True (m\<lparr>readers := readers m + READER_LOCK_INC\<rparr>)))"
proof -
  obtain wb os lst where i: "gi n m wb os lst" "\<And>u. locs n m u" "depth_ok m" using rwinvE [OF assms(1)] by blast
  have s: "st m t = Idle" "(st m)(t := Idle) = st m" using assms(2) by (auto simp: st_def)
  have "gi n (at_pc t Out (read_held t True (m\<lparr>readers := readers m + READER_LOCK_INC\<rparr>))) wb os lst"
    using g_read [OF i(1) [unfolded gi_def] s(1) assms(3,4,6,5)] s(2) by (simp add: gi_def ghosts)
  then show ?thesis
    by (rule rwinv_act [OF assms(1), where t = t]) (use i(2,3) assms(4) in \<open>simp_all add: locs_def depth_ok_def ghosts\<close>)
qed

lemma try_rlock_inv:
  assumes "rwinv n m" "rw_pcs m t = TR p" "n < 2 ^ 14"
  shows "rwinv n (try_rlock_step t spurious p m)"
proof -
  obtain wb os lst where i: "gi n m wb os lst" "\<And>u. locs n m u" "depth_ok m" using rwinvE [OF assms(1)] by blast
  have t: "t < n" "\<not> rhold m t" "\<not> whold m t" using i(2) [of t] assms(2) by (auto simp: locs_def not_le [symmetric])
  note st = rw_stutter [OF assms(1), where t = t] and rd = rw_read [OF assms(1) _ t(2,1) assms(3)]
  show ?thesis
  proof (cases p)
    case TrLoad
    then show ?thesis using not_too_many [OF i(1) t(1,2) assms(3)] st [of "TR (TrCas (readers m))"] assms(2) t by simp
  next
    case (TrCas v)
    consider "\<not> v < PENDING_WRITER" | "v < PENDING_WRITER" "readers m = v \<and> \<not> spurious"
      | "v < PENDING_WRITER" "\<not> (readers m = v \<and> \<not> spurious)" by blast
    then show ?thesis
      by cases (use TrCas st [of Out] st [of "TR (TrCas (readers m))"] rd assms(2) t in auto)
  qed
qed

lemma rlock_inv:
  assumes "rwinv n m" "rw_pcs m t = R p" "n < 2 ^ 14"
  shows "rwinv n (rlock_step t spurious p m)"
proof -
  obtain wb os lst where i: "gi n m wb os lst" "\<And>u. locs n m u" "depth_ok m" using rwinvE [OF assms(1)] by blast
  note g = i(1) [unfolded gi_def]
  have t: "t < n" using i(2) [of t] assms(2) by (auto simp: locs_def not_le [symmetric])
  have l: "loc n (wdepth m) (writer_wait m) (rhold m t) (whold m t) (R p)" using i(2) [of t] assms(2) by (simp add: locs_def)
  note stut = rw_stutter [OF assms(1), where t = t]
  have few: "unat (readers m AND PENDING_READERS_MASK) < n" if "\<not> pend m t"
    using gword_tests(9) [OF ginvD(3) [OF g] assms(3)] cnt_less [OF t, of "pend m"] that by simp
  have tok: "tok n (wmtx m) (writer_wait m) wb os lst t (stage_of (R p)) (rhold m t) (whold m t) (pend m t) (cleared m t) (t \<in> set (read_waiters m))"
    using ginvD(1) [OF g, of t] assms(2) by (simp add: st_def)
  have st: "st m t = stage_of (R p)" using assms(2) by (simp add: st_def)
  note act = rwinv_act [OF assms(1), where t = t]
  show ?thesis
  proof (cases p)
    case RLoad
    then show ?thesis
      using not_too_many [OF i(1) t _ assms(3)] stut [of "R (RCas (readers m))"] assms(2) t l few tok by (simp add: tok_def)
  next
    case (RCas v)
    have "\<not> pend m t" using tok RCas by (simp add: tok_def)
    consider "\<not> v < PENDING_WRITER" | "v < PENDING_WRITER" "readers m = v \<and> \<not> spurious"
      | "v < PENDING_WRITER" "\<not> (readers m = v \<and> \<not> spurious)" by blast
    then show ?thesis
      by cases (use RCas stut [of "R (RAdd v)"] stut [of "R (RCas (readers m))"] rw_read [OF assms(1) _ _ t assms(3)]
          assms(2) t l few \<open>\<not> pend m t\<close> in auto)
  next
    case (RAdd v)
    then have l': "\<not> rhold m t" "\<not> whold m t" "unat (v AND PENDING_READERS_MASK) < n" using l by auto
    have "(PENDING_READERS_MASK AND v) + 1 < READER_LOCK_INC"
      using l'(3) assms(3) by (simp add: word_less_nat_alt unat_word_ariths and.commute READER_LOCK_INC_def)
    moreover have "gi n (at_pc t (R (RCas2 (readers m + 1))) (pending t True (m\<lparr>readers := readers m + 1\<rparr>))) wb os lst"
      using g_pend [OF g _ l'(1,2) t assms(3)] st RAdd by (simp add: gi_def ghosts)
    then have "rwinv n (at_pc t (R (RCas2 (readers m + 1))) (pending t True (m\<lparr>readers := readers m + 1\<rparr>)))"
      by (rule act) (use i(2,3) t in \<open>simp_all add: locs_def depth_ok_def ghosts\<close>)
    ultimately show ?thesis using RAdd by simp
  next
    case (RCas2 v)
    show ?thesis
    proof (cases "v < PENDING_WRITER")
      case False
      then show ?thesis using RCas2 stut [of "R RPush"] assms(2) t by simp
    next
      case True
      then have s: "st m t = Pend" using st RCas2 by simp
      show ?thesis
      proof (cases "readers m = v \<and> \<not> spurious")
        case ok: True
        let ?m = "at_pc t Out (read_held t True (pending t False (m\<lparr>readers := v + READER_LOCK_INC - 1\<rparr>)))"
        have "gi n ?m wb os lst" using g_grant_self [OF g s _ assms(3)] True ok by (simp add: gi_def ghosts)
        then have "rwinv n ?m" by (rule act) (use i(2,3) t in \<open>simp_all add: locs_def depth_ok_def ghosts\<close>)
        then show ?thesis using RCas2 True ok by simp
      next
        case retry: False
        let ?m = "at_pc t (R (RCas2 (readers m))) m"
        have "gi n ?m wb os lst" using g_repend [OF g s assms(3)] by (simp add: gi_def)
        then have "rwinv n ?m" by (rule act) (use i(2,3) t in \<open>simp_all add: locs_def depth_ok_def\<close>)
        then show ?thesis using RCas2 True retry by auto
      qed
    qed
  next
    case RPush
    let ?m = "at_pc t (R RWait) (m\<lparr>cleared := (cleared m)(t := False), read_waiters := read_waiters m @ [t]\<rparr>)"
    have "gi n ?m wb os lst" using g_push [OF g] st RPush by (simp add: gi_def)
    then have "rwinv n ?m" by (rule act) (use i(2,3) t in \<open>simp_all add: locs_def depth_ok_def\<close>)
    then show ?thesis using RPush by simp
  next
    case RWait
    have "rwinv n (at_pc t Out m)" if "cleared m t"
    proof -
      have "gi n (at_pc t Out m) wb os lst" using g_wake [OF g _ that] st RWait by (simp add: gi_def)
      then show ?thesis by (rule act) (use i(2,3) t in \<open>simp_all add: locs_def depth_ok_def\<close>)
    qed
    then show ?thesis using RWait assms(1) by simp
  qed
qed

lemma runlock_inv:
  assumes "rwinv n m" "rw_pcs m t = RU p" "n < 2 ^ 14"
  shows "rwinv n (runlock_step t p m)"
proof -
  obtain wb os lst where i: "gi n m wb os lst" "\<And>u. locs n m u" "depth_ok m" using rwinvE [OF assms(1)] by blast
  note g = i(1) [unfolded gi_def]
  have t: "t < n" using i(2) [of t] assms(2) by (auto simp: locs_def not_le [symmetric])
  have st: "st m t = stage_of (RU p)" using assms(2) by (simp add: st_def)
  note act = rwinv_act [OF assms(1), where t = t]
  show ?thesis
  proof (cases p)
    case RuAdd
    then have r: "rhold m t" "st m t = Idle" "(st m)(t := Idle) = st m"
      using i(2) [of t] assms(2) st by (auto simp: locs_def)
    have "\<not> wb" using ginvD(1) [OF g, of t] r by (simp add: tok_def)
    then have tests: "0 < readers m" "readers m < WRITER_LOCK"
      using gword_tests(3,11) [OF ginvD(3) [OF g] assms(3)] r(1) t by blast+
    define p' where "p' = (if readers m AND READERS_MASK = READER_LOCK_INC \<and> readers m AND PENDING_WRITER \<noteq> 0 then RU RuOwner else Out)"
    let ?m = "at_pc t p' (read_held t False (m\<lparr>readers := readers m - READER_LOCK_INC\<rparr>))"
    have "\<exists>lst'. gi n ?m wb os lst'"
      using g_runlock [OF g r(2,1) assms(3)] r(3)
      by (cases "readers m AND READERS_MASK = READER_LOCK_INC \<and> readers m AND PENDING_WRITER \<noteq> 0")
        (auto simp: gi_def ghosts p'_def)
    then obtain lst' where "gi n ?m wb os lst'" by blast
    then have "rwinv n ?m"
      by (rule act) (use i(2,3) t in \<open>simp_all add: locs_def depth_ok_def ghosts p'_def\<close>)
    moreover have "runlock_step t p m = ?m" using RuAdd tests by (simp add: Let_def p'_def)
    ultimately show ?thesis by simp
  next
    case RuOwner
    have "lst = Some t" using ginvD(1) [OF g, of t] st RuOwner by (simp add: tok_def)
    then have "wmtx m \<noteq> None" using ginvD(2) [OF g] by (auto simp: glob_def)
    then show ?thesis using RuOwner rw_stutter [OF assms(1), of "RU RuStore" t] assms(2) t by auto
  next
    case RuStore
    have "lst = Some t" using ginvD(1) [OF g, of t] st RuStore by (simp add: tok_def)
    then have pw: "os = PwWait" using ginvD(2) [OF g] by (simp add: glob_def)
    have "gi n (at_pc t Out (m\<lparr>writer_wait := False\<rparr>)) wb os None" using g_woke [OF g] st RuStore by (simp add: gi_def)
    then have "rwinv n (at_pc t Out (m\<lparr>writer_wait := False\<rparr>))"
    proof (rule act)
      fix u assume u: "u \<noteq> t" "locs n m u"
      have "rw_pcs m u \<noteq> W WOr" using owner_stage(1) [OF i(1), of u] pw by (auto simp: st_def)
      then have "loc n (wdepth m) False (rhold m u) (whold m u) (rw_pcs m u)"
        using u(2) loc_flag [of n "wdepth m" "writer_wait m"] by (simp add: locs_def)
      then show "locs n (at_pc t Out (m\<lparr>writer_wait := False\<rparr>)) u" using u by (simp add: locs_def)
    qed (use i(3) t in \<open>simp_all add: locs_def depth_ok_def\<close>)
    then show ?thesis using RuStore by simp
  qed
qed

section \<open>Writers\<close>

text \<open>Taking and releasing the mutex; \<open>p\<close> is where the thread is next.\<close>

lemma others_free:
  assumes "gi n m wb os lst" "u \<noteq> t" "wmtx m = None \<or> wmtx m = Some t" "locs n m u"
  shows "loc n d ww (rhold m u) (whold m u) (rw_pcs m u)"
proof -
  have "wmtx m \<noteq> Some u" using assms(2,3) by auto
  moreover have "wmtx m = Some u \<longleftrightarrow> whold m u \<or> needs_m (st m u)"
    using ginvD(1) [OF assms(1) [unfolded gi_def], of u, unfolded tok_def] by (elim conjE)
  ultimately have "\<not> needs_m (stage_of (rw_pcs m u))" "\<not> whold m u" by (simp_all add: st_def)
  then show ?thesis using loc_free [of n "wdepth m" "writer_wait m"] assms(4) by (simp add: locs_def)
qed

text \<open>When the mutex can be taken, its depth says whether the thread is a writer already.\<close>

lemma free_depth:
  assumes "gi n m wb os lst" "depth_ok m" "wmtx_free t m" "st m t = Idle"
  shows "whold m t \<Longrightarrow> 1 \<le> wdepth m" "\<not> whold m t \<Longrightarrow> wdepth m = 0"
proof -
  have "wmtx m = Some t \<longleftrightarrow> whold m t \<or> needs_m (st m t)"
    using ginvD(1) [OF assms(1) [unfolded gi_def], of t, unfolded tok_def] by (elim conjE)
  then show "whold m t \<Longrightarrow> 1 \<le> wdepth m" "\<not> whold m t \<Longrightarrow> wdepth m = 0"
    using assms(2-4) by (auto simp: depth_ok_def wmtx_free_def)
qed

lemma rw_lock:
  assumes "rwinv n m" "st m t = Idle" "t < n" "wmtx_free t m" "stage_of p = Mtx"
    and "loc n (wdepth m + 1) (writer_wait m) (rhold m t) (whold m t) p"
  shows "rwinv n (at_pc t p (wmtx_lock t m))"
proof -
  obtain wb os lst where i: "gi n m wb os lst" "\<And>u. locs n m u" "depth_ok m" using rwinvE [OF assms(1)] by blast
  note g = i(1) [unfolded gi_def]
  have free: "wmtx m = None \<or> wmtx m = Some t" using assms(4) by (simp add: wmtx_free_def)
  have "\<exists>os'. gi n (at_pc t p (wmtx_lock t m)) wb os' lst"
  proof (cases "wmtx m")
    case None
    then show ?thesis using g_lock [OF g [unfolded None] assms(2,3)] assms(5) by (auto simp: gi_def ghosts)
  next
    case (Some v)
    then have "wmtx m = Some t" using free by simp
    then have "whold m t" using ginvD(1) [OF g, of t] assms(2) by (simp add: tok_def)
    then show ?thesis using g_relock [OF g assms(2)] assms(5) \<open>wmtx m = Some t\<close> by (auto simp: gi_def ghosts)
  qed
  then obtain os' where "gi n (at_pc t p (wmtx_lock t m)) wb os' lst" by blast
  then show ?thesis
  proof (rule rwinv_act [OF assms(1), where t = t])
    fix u assume "u \<noteq> t" "locs n m u"
    then show "locs n (at_pc t p (wmtx_lock t m)) u"
      using others_free [OF i(1) _ free, of u "wdepth m + 1" "writer_wait m"] by (simp add: locs_def ghosts)
  qed (use assms(3,6) in \<open>simp_all add: locs_def depth_ok_def ghosts\<close>)
qed

lemma rw_unlock:
  assumes "rwinv n m" "st m t = Mtx" "t < n" "\<not> whold m t" "wdepth m = 1" "stage_of p = Idle"
    and "loc n 0 (writer_wait m) (rhold m t) False p"
  shows "rwinv n (wmtx_unlock t p m)"
proof -
  obtain wb os lst where i: "gi n m wb os lst" "\<And>u. locs n m u" "depth_ok m" using rwinvE [OF assms(1)] by blast
  note g = i(1) [unfolded gi_def]
  have mine: "wmtx m = Some t" using ginvD(1) [OF g, of t] assms(2) by (simp add: tok_def)
  have e: "wmtx_unlock t p m = at_pc t p (m\<lparr>wmtx := None, wdepth := 0\<rparr>)" using mine assms(5) by (simp add: wmtx_unlock_def)
  have "gi n (at_pc t p (m\<lparr>wmtx := None, wdepth := 0\<rparr>)) wb Idle lst"
    using g_unlock [OF g assms(2,4)] assms(6) by (simp add: gi_def)
  then show ?thesis unfolding e
  proof (rule rwinv_act [OF assms(1), where t = t])
    fix u assume "u \<noteq> t" "locs n m u"
    then show "locs n (at_pc t p (m\<lparr>wmtx := None, wdepth := 0\<rparr>)) u"
      using others_free [OF i(1), of u t 0 "writer_wait m"] mine by (simp add: locs_def)
  qed (use assms(3,4,7) in \<open>simp_all add: locs_def depth_ok_def\<close>)
qed

text \<open>A step that becomes the owner for writing, or returns with the mutex kept.\<close>

lemma rw_owner:
  assumes "rwinv n m" "wmtx m = Some t" "t < n"
    and "gi n (at_pc t p m') wb os lst" "wmtx m' = Some t" "wdepth m' = wdepth m" "rw_pcs m' = rw_pcs m"
    and "\<And>u. u \<noteq> t \<Longrightarrow> whold m' u = whold m u \<and> (rhold m' u = rhold m u \<or> rw_pcs m u = R RWait)"
    and "loc n (wdepth m) (writer_wait m') (rhold m' t) (whold m' t) p"
  shows "rwinv n (at_pc t p m')"
proof -
  obtain wb' os' lst' where i: "gi n m wb' os' lst'" "\<And>u. locs n m u" "depth_ok m" using rwinvE [OF assms(1)] by blast
  show ?thesis
  proof (rule rwinv_act [OF assms(1,4), where t = t])
    fix u assume u: "u \<noteq> t" "locs n m u"
    show "locs n (at_pc t p m') u"
      using others_free [OF i(1) u(1) _ u(2), of "wdepth m" "writer_wait m'"] assms(2,6,7) assms(8) [OF u(1)] u
      by (auto simp: locs_def)
  qed (use assms(2,3,5-7,9) i(3) in \<open>simp_all add: locs_def depth_ok_def\<close>)
qed

lemma rw_unlock_nested:
  assumes "rwinv n m" "wmtx m = Some t" "t < n" "1 < wdepth m" "stage_of p = st m t"
    and "loc n (wdepth m - 1) (writer_wait m) (rhold m t) (whold m t) p"
  shows "rwinv n (wmtx_unlock t p m)"
proof -
  obtain wb os lst where i: "gi n m wb os lst" "\<And>u. locs n m u" "depth_ok m" using rwinvE [OF assms(1)] by blast
  have e: "wmtx_unlock t p m = at_pc t p (m\<lparr>wdepth := wdepth m - 1\<rparr>)" using assms(2,4) by (simp add: wmtx_unlock_def)
  have "(st m)(t := stage_of p) = st m" using assms(5) by auto
  then have "gi n (at_pc t p (m\<lparr>wdepth := wdepth m - 1\<rparr>)) wb os lst" using i(1) by (simp add: gi_def)
  then show ?thesis unfolding e
  proof (rule rwinv_act [OF assms(1), where t = t])
    fix u assume "u \<noteq> t" "locs n m u"
    then show "locs n (at_pc t p (m\<lparr>wdepth := wdepth m - 1\<rparr>)) u"
      using others_free [OF i(1), of u t "wdepth m - 1" "writer_wait m"] assms(2) by (simp add: locs_def)
  qed (use assms(2-4,6) in \<open>simp_all add: locs_def depth_ok_def\<close>)
qed

lemma try_upgrade_inv:
  assumes "rwinv n m" "rw_pcs m t = UP p" "n < 2 ^ 14"
  shows "rwinv n (try_upgrade_step t p m)"
proof -
  obtain wb os lst where i: "gi n m wb os lst" "\<And>u. locs n m u" "depth_ok m" using rwinvE [OF assms(1)] by blast
  note g = i(1) [unfolded gi_def]
  have t: "t < n" using i(2) [of t] assms(2) by (auto simp: locs_def not_le [symmetric])
  have l: "loc n (wdepth m) (writer_wait m) (rhold m t) (whold m t) (UP p)" using i(2) [of t] assms(2) by (simp add: locs_def)
  have st: "st m t = stage_of (UP p)" using assms(2) by (simp add: st_def)
  have mine: "wmtx m = Some t" if "p \<noteq> UpTry" using owner_stage(2) [OF i(1), of t] st that by simp
  note stut = rw_stutter [OF assms(1), where t = t]
  have unlock: "rwinv n (wmtx_unlock t Out m)" if "p = UpUnlock"
    using rw_unlock [OF assms(1) _ t, of Out] st l that by simp
  show ?thesis
  proof (cases p)
    case UpTry
    then have s: "st m t = Idle" "rhold m t" using st l by simp_all
    have w: "\<not> whold m t" using ginvD(1) [OF g, of t] s by (cases "whold m t"; simp add: tok_def; blast?)
    show ?thesis
    proof (cases "wmtx_free t m")
      case True
      then have "wdepth m = 0" using free_depth(2) [OF i(1,3) True s(1) w] by simp
      then have "rwinv n (at_pc t (UP UpLoad) (wmtx_lock t m))"
        by (intro rw_lock [OF assms(1) s(1) t True]) (use s w in simp_all)
      then show ?thesis using UpTry True by simp
    next
      case False
      then show ?thesis using UpTry stut [of Out] assms(2) t by simp
    qed
  next
    case UpLoad
    then show ?thesis using stut [of "UP UpUnlock"] stut [of "UP (UpCas (readers m))"] assms(2) l t by auto
  next
    case (UpCas v)
    then have own: "wmtx m = Some t" using mine by simp
    show ?thesis
    proof (cases "readers m = v")
      case True
      let ?m = "write_held t True (read_held t False (m\<lparr>readers := WRITER_LOCK OR (v AND PENDING_READERS_MASK)\<rparr>))"
      have "gi n (at_pc t Out ?m) True Idle lst"
        using g_upgrade [OF g _ _ _ _ assms(3), of t] st l UpCas True by (simp add: gi_def ghosts)
      then have "rwinv n (at_pc t Out ?m)"
        by (rule rw_owner [OF assms(1) own t]) (use own in \<open>simp_all add: ghosts\<close>)
      then show ?thesis using UpCas True by simp
    next
      case False
      then show ?thesis using UpCas stut [of "UP UpUnlock"] assms(2) l t by simp
    qed
  next
    case UpUnlock
    then show ?thesis using unlock by simp
  qed
qed

lemma try_wlock_inv:
  assumes "rwinv n m" "rw_pcs m t = WT p" "n < 2 ^ 14"
  shows "rwinv n (try_wlock_step t p m)"
proof -
  obtain wb os lst where i: "gi n m wb os lst" "\<And>u. locs n m u" "depth_ok m" using rwinvE [OF assms(1)] by blast
  note g = i(1) [unfolded gi_def]
  have t: "t < n" using i(2) [of t] assms(2) by (auto simp: locs_def not_le [symmetric])
  have l: "loc n (wdepth m) (writer_wait m) (rhold m t) (whold m t) (WT p)" using i(2) [of t] assms(2) by (simp add: locs_def)
  have st: "st m t = stage_of (WT p)" using assms(2) by (simp add: st_def)
  have mine: "wmtx m = Some t" if "p \<noteq> WtTry" using owner_stage(2) [OF i(1), of t] st that by simp
  note stut = rw_stutter [OF assms(1), where t = t]
  show ?thesis
  proof (cases p)
    case WtTry
    then have s: "st m t = Idle" "\<not> rhold m t" using st l by simp_all
    show ?thesis
    proof (cases "wmtx_free t m")
      case True
      have "rwinv n (at_pc t (WT WtLoad) (wmtx_lock t m))"
        by (intro rw_lock [OF assms(1) s(1) t True]) (use s free_depth [OF i(1,3) True s(1)] in simp_all)
      then show ?thesis using WtTry True by simp
    next
      case False
      then show ?thesis using WtTry stut [of Out] assms(2) t by simp
    qed
  next
    case WtLoad
    then have own: "wmtx m = Some t" using mine by simp
    have wb: "wb = whold m t" using ginvD(1) [OF g, of t] st WtLoad by (simp add: tok_def)
    note tests = gword_tests(2,4) [OF ginvD(3) [OF g] assms(3)]
    have "rwinv n (at_pc t Out m)" if "whold m t"
    proof -
      have "gi n (at_pc t Out m) wb Idle lst" using g_return [OF g _ that] st WtLoad by (simp add: gi_def)
      then show ?thesis by (rule rw_owner [OF assms(1) own t]) (use own in simp_all)
    qed
    then show ?thesis
      using WtLoad stut [of "WT WtUnlock"] stut [of "WT (WtCas (readers m))"] assms(2) l t wb tests(1) by auto
  next
    case (WtCas v)
    then have own: "wmtx m = Some t" using mine by simp
    show ?thesis
    proof (cases "readers m = v")
      case True
      let ?m = "write_held t True (m\<lparr>readers := WRITER_LOCK OR (v AND PENDING_READERS_MASK)\<rparr>)"
      have "gi n (at_pc t Out ?m) True Idle lst"
        using g_write [OF g _ _ _ _ assms(3), of t Idle] st l WtCas True by (simp add: gi_def ghosts)
      then have "rwinv n (at_pc t Out ?m)"
        by (rule rw_owner [OF assms(1) own t]) (use own in \<open>simp_all add: ghosts\<close>)
      then show ?thesis using WtCas True by simp
    next
      case False
      then show ?thesis using WtCas stut [of "WT WtUnlock"] assms(2) l t by simp
    qed
  next
    case WtUnlock
    then show ?thesis using rw_unlock [OF assms(1) _ t, of Out] st l by simp
  qed
qed

lemma wlock_enter_inv:
  assumes "rwinv n m" "rw_pcs m t = W p" "n < 2 ^ 14" "p = WLock \<or> p = WRec \<or> p = WFlag \<or> p = WOr"
  shows "rwinv n (wlock_step t spurious p m)"
proof -
  obtain wb os lst where i: "gi n m wb os lst" "\<And>u. locs n m u" "depth_ok m" using rwinvE [OF assms(1)] by blast
  note g = i(1) [unfolded gi_def]
  have t: "t < n" using i(2) [of t] assms(2) by (auto simp: locs_def not_le [symmetric])
  have l: "loc n (wdepth m) (writer_wait m) (rhold m t) (whold m t) (W p)" using i(2) [of t] assms(2) by (simp add: locs_def)
  have st: "st m t = stage_of (W p)" using assms(2) by (simp add: st_def)
  have own: "wmtx m = Some t" if "st m t = Mtx" using owner_stage(2) [OF i(1), of t] that by simp
  from assms(4) consider "p = WLock" | "p = WRec" | "p = WFlag" | "p = WOr" by blast
  then show ?thesis
  proof cases
    case 1
    have "rwinv n (at_pc t (W WRec) (wmtx_lock t m))" if "wmtx_free t m"
      by (intro rw_lock [OF assms(1) _ t that]) (use st l 1 free_depth [OF i(1,3) that] in simp_all)
    then show ?thesis using 1 assms(1) by simp
  next
    case 2
    then have s: "st m t = Mtx" using st by simp
    have wb: "wb = whold m t" using ginvD(1) [OF g, of t] s by (simp add: tok_def)
    have "rwinv n (at_pc t Out m)" if "whold m t"
    proof -
      have "gi n (at_pc t Out m) wb Idle lst" using g_return [OF g s that] by (simp add: gi_def)
      then show ?thesis by (rule rw_owner [OF assms(1) own [OF s] t]) (use own [OF s] in simp_all)
    qed
    then show ?thesis
      using 2 rw_stutter [OF assms(1), of "W WFlag" t] assms(2) l t wb gword_tests(2) [OF ginvD(3) [OF g] assms(3)] by auto
  next
    case 3
    then have s: "st m t = Mtx" "(st m)(t := Mtx) = st m" using st by auto
    have "gi n (at_pc t (W WOr) (m\<lparr>writer_wait := True\<rparr>)) wb os lst" using g_flag [OF g s(1)] s(2) by (simp add: gi_def)
    then have "rwinv n (at_pc t (W WOr) (m\<lparr>writer_wait := True\<rparr>))"
      by (rule rw_owner [OF assms(1) own [OF s(1)] t]) (use own [OF s(1)] l 3 in simp_all)
    then show ?thesis using 3 by simp
  next
    case 4
    then have s: "st m t = Mtx" using st by simp
    let ?m = "m\<lparr>readers := readers m OR PENDING_WRITER\<rparr>" and ?p = "W (WCas (readers m OR PENDING_WRITER))"
    have "\<exists>os'. gi n (at_pc t ?p ?m) wb os' lst"
      using g_pending_writer [OF g s _ _ _ assms(3)] l 4 by (auto simp: gi_def split: if_splits)
    then obtain os' where "gi n (at_pc t ?p ?m) wb os' lst" by blast
    then have "rwinv n (at_pc t ?p ?m)"
      by (rule rw_owner [OF assms(1) own [OF s] t]) (use own [OF s] l 4 in simp_all)
    then show ?thesis using 4 by simp
  qed
qed

lemma wlock_wait_inv:
  assumes "rwinv n m" "rw_pcs m t = W p" "n < 2 ^ 14" "(\<exists>v. p = WCas v) \<or> p = WClear \<or> p = WWait \<or> p = WAdd"
  shows "rwinv n (wlock_step t spurious p m)"
proof -
  obtain wb os lst where i: "gi n m wb os lst" "\<And>u. locs n m u" "depth_ok m" using rwinvE [OF assms(1)] by blast
  note g = i(1) [unfolded gi_def]
  have t: "t < n" using i(2) [of t] assms(2) by (auto simp: locs_def not_le [symmetric])
  have l: "loc n (wdepth m) (writer_wait m) (rhold m t) (whold m t) (W p)" using i(2) [of t] assms(2) by (simp add: locs_def)
  have st: "st m t = stage_of (W p)" using assms(2) by (simp add: st_def)
  have own: "wmtx m = Some t" "st m t = os" using owner_stage [OF i(1), of t] st assms(4) by auto
  note act = rw_owner [OF assms(1) own(1) t]
  from assms(4) consider v where "p = WCas v" | "p = WClear" | "p = WWait" | "p = WAdd" by blast
  then show ?thesis
  proof cases
    case (1 v)
    show ?thesis
    proof (cases "v AND READERS_MASK = 0")
      case False
      then show ?thesis using 1 rw_stutter [OF assms(1), of "W WWait" t] assms(2) l t by simp
    next
      case True
      then have s: "st m t = PwGo" using st 1 by simp
      have w: "\<not> whold m t" using ginvD(1) [OF g, of t] s by (simp add: tok_def)
      have "\<not> rhold m u" for u using tok_reader(2) [OF ginvD(1) [OF g, of u]] own(2) s by auto
      then have z: "readers m AND READERS_MASK = 0" using gword_tests(4) [OF ginvD(3) [OF g] assms(3)] by blast
      let ?m = "write_held t True (m\<lparr>readers := WRITER_LOCK OR (readers m AND PENDING_READERS_MASK)\<rparr>)"
      have "gi n (at_pc t (W WClear) ?m) True Mtx lst"
        using g_write [OF g _ w _ z assms(3), of Mtx] s by (simp add: gi_def ghosts)
      then have "rwinv n (at_pc t (W WClear) ?m)" by (rule act) (use own l 1 in \<open>simp_all add: ghosts\<close>)
      moreover have "rwinv n (at_pc t (W (WCas (readers m))) m)"
        using rw_stutter [OF assms(1), of "W (WCas (readers m))" t] assms(2) l t z True 1 by simp
      ultimately show ?thesis using 1 True by auto
    qed
  next
    case 2
    then have s: "st m t = Mtx" "whold m t" using st l by auto
    have "gi n (at_pc t Out (m\<lparr>writer_wait := False\<rparr>)) wb Idle lst"
      using g_return [OF g_flag [OF g s(1)] s] by (simp add: gi_def)
    then have "rwinv n (at_pc t Out (m\<lparr>writer_wait := False\<rparr>))" by (rule act) (use own in simp_all)
    then show ?thesis using 2 by simp
  next
    case 3
    have "rwinv n (at_pc t (W WAdd) m)" if "\<not> writer_wait m"
    proof -
      have f: "writer_wait m = False" using that by simp
      note g' = g [unfolded f]
      have "gi n (at_pc t (W WAdd) m) wb PwGo lst"
        using g_proceed [OF g' , of t] st 3 that by (simp add: gi_def)
      then show ?thesis by (rule act) (use own l 3 in simp_all)
    qed
    then show ?thesis using 3 assms(1) by simp
  next
    case 4
    let ?m = "write_held t True (m\<lparr>readers := readers m + PENDING_WRITER\<rparr>)"
    have "gi n (at_pc t Out ?m) True Idle lst" using g_write_add [OF g] st 4 by (simp add: gi_def ghosts)
    then have "rwinv n (at_pc t Out ?m)" by (rule act) (use own in \<open>simp_all add: ghosts\<close>)
    then show ?thesis using 4 by simp
  qed
qed

lemma wlock_inv:
  assumes "rwinv n m" "rw_pcs m t = W p" "n < 2 ^ 14"
  shows "rwinv n (wlock_step t spurious p m)"
  by (cases p; rule wlock_enter_inv [OF assms] wlock_wait_inv [OF assms]; simp)

section \<open>Waking the readers\<close>

lemma stage_asleep: "stage_of p = Asleep \<longleftrightarrow> p = R RWait"
proof (cases p)
  case (R x)
  then show ?thesis by (cases x) auto
next
  case (W x)
  then show ?thesis by (cases x) auto
next
  case (WU x)
  then show ?thesis
  proof (cases x)
    case (UnWake k)
    then show ?thesis using WU by (cases k) auto
  qed auto
next
  case (DG x)
  then show ?thesis
  proof (cases x)
    case (DgWake k)
    then show ?thesis using DG by (cases k) auto
  qed auto
qed auto

text \<open>
  One step of \<open>wake_pending_readers\<close>, called by \<open>wunlock\<close> or \<open>downgrade\<close>: \<open>C\<close> is the place of the call.
\<close>

lemma rw_wake_inv:
  assumes "rwinv n m" "t < n" "n < 2 ^ 14" "st m t = kstage k" "kok k" "\<not> whold m t"
    and "wake_pending_readers_step k m = (Some k', m')"
    and C: "\<And>x. stage_of (C x) = kstage x" "\<And>x ww r. kok x \<Longrightarrow> loc n (wdepth m) ww r False (C x)"
  shows "rwinv n (at_pc t (C k') m')"
proof -
  obtain wb os lst where i: "gi n m wb os lst" "\<And>u. locs n m u" "depth_ok m" using rwinvE [OF assms(1)] by blast
  note g = i(1) [unfolded gi_def]
  have "needs_m (st m t)" using assms(4) by simp
  note own = owner_stage(2,1) [OF i(1) this]
  note act = rw_owner [OF assms(1) own(1) assms(2)]
  show ?thesis
  proof (cases k)
    case (KTest p)
    then have s: "st m t = Serve" "p \<noteq> 0" using assms(4,7) by (auto split: if_splits)
    show ?thesis
    proof (cases "read_waiters m")
      case Nil
      then have e: "k' = KLoad" "m' = m" using assms(7) KTest s(2) by simp_all
      have "gi n (at_pc t (C KLoad) m) wb os lst" using g s(1) C(1) [of KLoad] fun_upd_idem [of "st m" t Serve] by (simp add: gi_def)
      then show ?thesis unfolding e by (rule act) (use own C(2) [of KLoad] assms(6) in simp_all)
    next
      case (Cons v vs)
      then have e: "k' = KAdd v" "m' = m\<lparr>read_waiters := vs\<rparr>" using assms(7) KTest s(2) by simp_all
      have "gi n (at_pc t (C (KAdd v)) (m\<lparr>read_waiters := vs\<rparr>)) wb (Grab v) lst"
        using g_pop [OF g [unfolded Cons] s(1)] C(1) [of "KAdd v"] by (simp add: gi_def)
      then show ?thesis unfolding e by (rule act) (use own C(2) [of "KAdd v"] assms(6) in simp_all)
    qed
  next
    case KLoad
    then have s: "st m t = Serve" using assms(4) by simp
    have e: "k' = KTest (readers m AND PENDING_READERS_MASK)" "m' = m" using assms(7) KLoad by auto
    have "\<exists>os'. gi n (at_pc t (C k') m) wb os' lst"
      using g_recount [OF g s assms(3)] C(1) [of k'] fun_upd_idem [of "st m" t Serve] s
      by (cases "readers m AND PENDING_READERS_MASK = 0") (auto simp: gi_def e)
    then obtain os' where "gi n (at_pc t (C k') m) wb os' lst" by blast
    then show ?thesis unfolding e(2) by (rule act) (use own C(2) [of k'] e(1) assms(6) in simp_all)
  next
    case (KAdd v)
    then have s: "st m t = Grab v" using assms(4) by simp
    have e: "k' = KStore v (readers m AND PENDING_READERS_MASK)"
        "m' = read_held v True (pending v False (m\<lparr>readers := readers m + (READER_LOCK_INC - 1)\<rparr>))"
      using assms(7) KAdd by simp_all
    have v: "st m v = Asleep" "pend m v" using grabbed [OF i(1)] s own(2) by simp_all
    have "v < n" using i(2) [of v] v(1) by (auto simp: locs_def st_def not_le [symmetric])
    then have ok: "kok k'" using gword_tests(8) [OF ginvD(3) [OF g] assms(3)] v(2) e(1) by auto
    have "gi n (at_pc t (C k') m') wb (Give v) lst"
      using g_take [OF g s] C(1) [of k'] by (simp add: gi_def ghosts e)
    then show ?thesis
      by (rule act) (use own C(2) [OF ok] assms(6) v(1) in \<open>auto simp: ghosts e stage_asleep st_def\<close>)
  next
    case (KStore v p)
    then have s: "st m t = Give v" "p \<noteq> 0" using assms(4,5) by simp_all
    have e: "k' = KTest p" "m' = m\<lparr>cleared := (cleared m)(v := True)\<rparr>" using assms(7) KStore by simp_all
    have "gi n (at_pc t (C (KTest p)) (m\<lparr>cleared := (cleared m)(v := True)\<rparr>)) wb Serve lst"
      using g_give [OF g s(1)] C(1) [of "KTest p"] s(2) by (simp add: gi_def)
    then show ?thesis unfolding e by (rule act) (use own C(2) [of "KTest p"] assms(6) in simp_all)
  qed
qed

lemma wake_ends: "wake_pending_readers_step k m = (None, m') \<Longrightarrow> k = KTest 0 \<and> m' = m"
  by (cases k) (auto split: if_splits list.splits)

lemma wunlock_inv:
  assumes "rwinv n m" "rw_pcs m t = WU p" "n < 2 ^ 14"
  shows "rwinv n (wunlock_step t p m)"
proof -
  obtain wb os lst where i: "gi n m wb os lst" "\<And>u. locs n m u" "depth_ok m" using rwinvE [OF assms(1)] by blast
  note g = i(1) [unfolded gi_def]
  have t: "t < n" using i(2) [of t] assms(2) by (auto simp: locs_def not_le [symmetric])
  have l: "loc n (wdepth m) (writer_wait m) (rhold m t) (whold m t) (WU p)" using i(2) [of t] assms(2) by (simp add: locs_def)
  have st: "st m t = stage_of (WU p)" using assms(2) by (simp add: st_def)
  note stut = rw_stutter [OF assms(1), where t = t]
  have own: "wmtx m = Some t" "wb" if "whold m t" using writer_owns [OF i(1) that] by simp_all
  show ?thesis
  proof (cases p)
    case UnDepth
    then have w: "whold m t" using l by simp
    have "readers m AND WRITER_LOCK \<noteq> 0" "0 < wdepth m"
      using gword_tests(2) [OF ginvD(3) [OF g] assms(3)] own [OF w] i(3) by (auto simp: depth_ok_def)
    moreover have "rwinv n (wmtx_unlock t Out m)" if "1 < wdepth m"
      using rw_unlock_nested [OF assms(1) own(1) [OF w] t that, of Out] st UnDepth by simp
    moreover have "rwinv n (at_pc t (WU UnAnd) m)" if "wdepth m = 1"
      using stut [of "WU UnAnd"] assms(2) w t that UnDepth by simp
    ultimately show ?thesis using UnDepth by auto
  next
    case UnAnd
    then have w: "whold m t" "st m t = Idle" using l st by simp_all
    let ?p = "WU (UnWake (KTest (readers m AND PENDING_READERS_MASK)))"
      and ?m = "write_held t False (m\<lparr>readers := readers m AND NOT WRITER_LOCK\<rparr>)"
    have "\<exists>os'. gi n (at_pc t ?p ?m) False os' lst"
      using g_wunlock [OF g w(2,1) assms(3)]
      by (cases "readers m AND PENDING_READERS_MASK = 0") (auto simp: gi_def ghosts)
    then obtain os' where "gi n (at_pc t ?p ?m) False os' lst" by blast
    then have "rwinv n (at_pc t ?p ?m)"
      by (rule rw_owner [OF assms(1) own(1) [OF w(1)] t]) (use own(1) [OF w(1)] l UnAnd in \<open>simp_all add: ghosts\<close>)
    then show ?thesis using UnAnd by simp
  next
    case (UnWake k)
    obtain x m' where x: "wake_pending_readers_step k m = (x, m')" by (cases "wake_pending_readers_step k m")
    show ?thesis
    proof (cases x)
      case None
      then show ?thesis using UnWake x wake_ends [of k m m'] stut [of "WU UnUnlock"] assms(2) l t by simp
    next
      case (Some k')
      have "rwinv n (at_pc t (WU (UnWake k')) m')"
        by (rule rw_wake_inv [OF assms(1) t assms(3), where C = "\<lambda>k. WU (UnWake k)"]) (use st l UnWake x Some in simp_all)
      then show ?thesis using UnWake x Some by simp
    qed
  next
    case UnUnlock
    then show ?thesis using rw_unlock [OF assms(1) _ t, of Out] st l by simp
  qed
qed

lemma downgrade_inv:
  assumes "rwinv n m" "rw_pcs m t = DG p" "n < 2 ^ 14"
  shows "rwinv n (downgrade_step t spurious p m)"
proof -
  obtain wb os lst where i: "gi n m wb os lst" "\<And>u. locs n m u" "depth_ok m" using rwinvE [OF assms(1)] by blast
  note g = i(1) [unfolded gi_def]
  have t: "t < n" using i(2) [of t] assms(2) by (auto simp: locs_def not_le [symmetric])
  have l: "loc n (wdepth m) (writer_wait m) (rhold m t) (whold m t) (DG p)" using i(2) [of t] assms(2) by (simp add: locs_def)
  have st: "st m t = stage_of (DG p)" using assms(2) by (simp add: st_def)
  note stut = rw_stutter [OF assms(1), where t = t]
  have own: "wmtx m = Some t" "wb" "\<not> rhold m t" if "whold m t" using writer_owns [OF i(1) that] by simp_all
  show ?thesis
  proof (cases p)
    case DgAssert
    then show ?thesis
      using gword_tests(2) [OF ginvD(3) [OF g] assms(3)] own l stut [of "DG DgLoad"] assms(2) t by simp
  next
    case DgLoad
    then show ?thesis using not_too_many [OF i(1) t _ assms(3)] own l stut [of "DG (DgCas (readers m))"] assms(2) t by simp
  next
    case (DgCas v)
    then have w: "whold m t" "st m t = Idle" using l st by simp_all
    let ?m = "write_held t False (read_held t True (m\<lparr>readers := (readers m AND NOT WRITER_LOCK) + READER_LOCK_INC\<rparr>))"
    have "gi n (at_pc t (DG DgLoad2) ?m) False Serve lst"
      using g_downgrade [OF g w(2,1) assms(3)] by (simp add: gi_def ghosts)
    then have "rwinv n (at_pc t (DG DgLoad2) ?m)"
      by (rule rw_owner [OF assms(1) own(1) [OF w(1)] t]) (use own(1) [OF w(1)] in \<open>simp_all add: ghosts\<close>)
    moreover have "rwinv n (at_pc t (DG (DgCas (readers m))) m)"
      using stut [of "DG (DgCas (readers m))"] assms(2) l t DgCas by simp
    ultimately show ?thesis using DgCas by auto
  next
    case DgLoad2
    have "rwinv n (at_pc t (DG (DgWake (KTest (readers m AND PENDING_READERS_MASK)))) m)"
      by (rule rw_wake_inv [OF assms(1) t assms(3), where C = "\<lambda>k. DG (DgWake k)" and k = KLoad])
        (use st l DgLoad2 in simp_all)
    then show ?thesis using DgLoad2 by simp
  next
    case (DgWake k)
    obtain x m' where x: "wake_pending_readers_step k m = (x, m')" by (cases "wake_pending_readers_step k m")
    show ?thesis
    proof (cases x)
      case None
      then have k: "k = KTest 0" "m' = m" using wake_ends x by auto
      have "wmtx m = Some t" using owner_stage(2) [OF i(1), of t] st DgWake by simp
      then have "wdepth m \<noteq> 0" using i(3) by (auto simp: depth_ok_def)
      then show ?thesis using DgWake x None k stut [of "DG (DgUnlock (wdepth m))"] assms(2) l t by simp
    next
      case (Some k')
      have "rwinv n (at_pc t (DG (DgWake k')) m')"
        by (rule rw_wake_inv [OF assms(1) t assms(3), where C = "\<lambda>k. DG (DgWake k)"]) (use st l DgWake x Some in simp_all)
      then show ?thesis using DgWake x Some by simp
    qed
  next
    case (DgUnlock d)
    consider "d = 0" | "d = 1" | "1 < d" by linarith
    then show ?thesis
    proof cases
      case 1
      then show ?thesis using DgUnlock stut [of Out] assms(2) t by simp
    next
      case 2
      then show ?thesis using DgUnlock rw_unlock [OF assms(1) _ t, of "DG (DgUnlock 0)"] st l by simp
    next
      case 3
      then have "wmtx m = Some t" using owner_stage(2) [OF i(1), of t] st DgUnlock by simp
      then show ?thesis using 3 DgUnlock rw_unlock_nested [OF assms(1) _ t, of "DG (DgUnlock (d - 1))"] st l by simp
    qed
  qed
qed

section \<open>Reachable states\<close>

lemma rw_step_inv: "rwinv n m \<Longrightarrow> n < 2 ^ 14 \<Longrightarrow> rwinv n (rw_step t spurious m)"
  by (cases "rw_pcs m t")
    (simp_all add: rw_step_def try_rlock_inv rlock_inv runlock_inv try_upgrade_inv try_wlock_inv wlock_inv wunlock_inv downgrade_inv)

lemma rw_call_inv: "rw_call n m m' \<Longrightarrow> rwinv n m \<Longrightarrow> rwinv n m'"
  by (induction rule: rw_call.induct) (auto intro!: rw_stutter)

lemma rw_init_inv: "rwinv n rwlock_init"
proof -
  have "gi n rwlock_init False Idle None"
    by (simp add: gi_def ginv_def st_def tok_def glob_def gword_def rwlock_init_def cnt_def rw_word_def)
  then show ?thesis by (auto simp: rwinv_def locs_def depth_ok_def rwlock_init_def)
qed

lemma rw_run_inv: "rw_run n m \<Longrightarrow> n < 2 ^ 14 \<Longrightarrow> rwinv n m"
  by (induction rule: rw_run.induct) (auto intro: rw_init_inv rw_call_inv rw_step_inv)

text \<open>A run: thread 0 takes the lock for writing, then thread 1 waits to read.\<close>

definition demo_write :: rwlock where
  "demo_write = rw_step 0 False (rw_step 0 False (rw_step 0 False (at_pc 0 (WT WtTry) rwlock_init)))"

definition demo_wait :: rwlock where
  "demo_wait = rw_step 1 False (rw_step 1 False (rw_step 1 False (rw_step 1 False (rw_step 1 False
     (at_pc 1 (R RLoad) demo_write)))))"

lemmas rw_run_simps = rw_step_def at_pc_def rwlock_init_def ghosts wmtx_free_def too_many_readers_def READERS_MASK_def
  WRITER_LOCK_def PENDING_WRITER_def PENDING_READERS_MASK_def READER_LOCK_INC_def

lemma demo_write_run: "rw_run 2 demo_write"
  unfolding demo_write_def
  by (intro rw_run.step rw_run.call [OF rw_run.init rw_call.try_wlock]) (simp_all add: rwlock_init_def)

lemma demo_write_state: "whold demo_write 0" "\<not> rhold demo_write 1" "\<not> whold demo_write 1" "rw_pcs demo_write 1 = Out"
  by (simp_all add: demo_write_def rw_run_simps)

lemma demo_wait_run: "rw_run 2 demo_wait"
  unfolding demo_wait_def
  by (intro rw_run.step rw_run.call [OF demo_write_run rw_call.rlock]) (simp_all add: demo_write_state [simplified])

text \<open>Claim C3: readers and writers exclude each other, in every interleaving of at most 16383 threads. While
  a thread holds the lock for writing, no thread holds it for reading and no other for writing, and
  the writer owns the mutex; \<open>has_readers\<close> is true exactly while some thread holds the lock for
  reading; and no assertion of any operation fails.
\<close>

theorem rwlock_exclusion:
  assumes "rw_run n m" "n < 2 ^ 14"
  shows "(\<forall>t u. whold m t \<longrightarrow> \<not> rhold m u \<and> (whold m u \<longrightarrow> u = t) \<and> wowned t m) \<and>
    (has_readers m \<longleftrightarrow> (\<exists>t. rhold m t)) \<and> (\<forall>t. rw_pcs m t \<noteq> Failed)"
proof -
  obtain wb os lst where i: "gi n m wb os lst" "\<And>u. locs n m u" "depth_ok m" using rwinvE [OF rw_run_inv [OF assms]] by blast
  note g = i(1) [unfolded gi_def]
  have "\<not> rhold m u \<and> (whold m u \<longrightarrow> u = t) \<and> wowned t m" if "whold m t" for t u
    using writer_owns [OF i(1) that] writer_owns(1) [OF i(1), of u] by (auto simp: wowned_def)
  moreover have "has_readers m \<longleftrightarrow> (\<exists>t. rhold m t)"
    using gword_tests(4) [OF ginvD(3) [OF g] assms(2)] ginv_reader_less [OF g] by (auto simp: has_readers_def)
  moreover have "rw_pcs m t \<noteq> Failed" for t using i(2) [of t] by (auto simp: locs_def)
  ultimately show ?thesis by blast
qed

theorem rwlock_exclusion_witness:
  "whold demo_write 0 \<and> wowned 0 demo_write \<and> \<not> rhold demo_write 1 \<and> \<not> has_readers demo_write"
proof -
  have e: "(\<forall>t u. whold demo_write t \<longrightarrow> \<not> rhold demo_write u \<and> (whold demo_write u \<longrightarrow> u = t) \<and> wowned t demo_write) \<and>
      (has_readers demo_write \<longleftrightarrow> (\<exists>t. rhold demo_write t)) \<and> (\<forall>t. rw_pcs demo_write t \<noteq> Failed)"
    by (rule rwlock_exclusion [OF demo_write_run]) simp
  show ?thesis using e demo_write_state(1) by blast
qed

text \<open>A thread that waits: for its record, for the last reader, or for the mutex.\<close>

definition rw_blocked :: "rwlock \<Rightarrow> nat \<Rightarrow> bool" where
  "rw_blocked m t \<longleftrightarrow> rw_pcs m t = R RWait \<and> \<not> cleared m t \<or> rw_pcs m t = W WWait \<and> writer_wait m \<or>
     rw_pcs m t = W WLock \<and> \<not> wmtx_free t m"

lemma blocked_stage:
  assumes "rw_blocked m t"
  shows "st m t = Asleep \<and> \<not> cleared m t \<or> st m t = PwWait \<and> writer_wait m \<or> rw_pcs m t = W WLock \<and> \<not> wmtx_free t m"
  using assms by (auto simp: rw_blocked_def st_def)

lemma blocked_reader:
  assumes "gi n m wb os lst" "st m t = Asleep" "\<not> cleared m t" "os = Idle \<or> os = PwWait"
  shows "\<not> rhold m t \<and> (wb \<or> serving os)"
proof -
  note t = ginvD(1) [OF assms(1) [unfolded gi_def], of t, unfolded tok_def]
  have "st m t = Asleep \<longrightarrow> cleared m t \<and> rhold m t \<or> t \<in> set (read_waiters m) \<or> os = Grab t \<or> os = Give t" using t by (elim conjE)
  moreover have "t \<in> set (read_waiters m) \<longrightarrow> st m t = Asleep \<and> \<not> rhold m t \<and> \<not> cleared m t" using t by (elim conjE)
  moreover have "st m t = Commit \<or> st m t = Asleep \<and> \<not> rhold m t \<longrightarrow> wb \<or> serving os" using t by (elim conjE)
  ultimately show ?thesis using assms(2-4) by auto
qed

text \<open>Claim C7: no wake-up is lost and the lock never deadlocks by itself. Whenever a thread waits inside an
  operation of the lock, some thread holds the lock outside all operations, or some thread is inside
  an operation and can take its next step.
\<close>

theorem rwlock_never_stuck:
  assumes "rw_run n m" "n < 2 ^ 14" "rw_blocked m t"
  shows "\<exists>u. rw_pcs m u = Out \<and> (rhold m u \<or> whold m u) \<or> rw_pcs m u \<noteq> Out \<and> \<not> rw_blocked m u"
proof (rule ccontr)
  assume "\<nexists>u. rw_pcs m u = Out \<and> (rhold m u \<or> whold m u) \<or> rw_pcs m u \<noteq> Out \<and> \<not> rw_blocked m u"
  then have stuck: "rw_pcs m u = Out \<Longrightarrow> \<not> rhold m u \<and> \<not> whold m u" "rw_pcs m u \<noteq> Out \<Longrightarrow> rw_blocked m u" for u by auto
  obtain wb os lst where i: "gi n m wb os lst" "\<And>u. locs n m u" "depth_ok m" using rwinvE [OF rw_run_inv [OF assms(1,2)]] by blast
  note g = i(1) [unfolded gi_def]
  have none: "wmtx m = None"
  proof (rule ccontr)
    assume "wmtx m \<noteq> None"
    then obtain u where u: "wmtx m = Some u" by blast
    have o: "wmtx m = Some u \<longleftrightarrow> whold m u \<or> needs_m (st m u)"
      using ginvD(1) [OF g, of u, unfolded tok_def] by (elim conjE)
    have "rw_pcs m u \<noteq> Out" using stuck(1) [of u] o u by (auto simp: st_def)
    then have "rw_blocked m u" by (rule stuck(2))
    then have b: "st m u = Asleep \<or> st m u = PwWait \<and> writer_wait m" using blocked_stage [of m u] u by (auto simp: wmtx_free_def)
    then have "\<not> whold m u" using writer_owns(4) [OF i(1), of u] by auto
    then have pw: "os = PwWait" "writer_wait m" using b o u owner_stage(1) [OF i(1), of u] by auto
    have no: "\<not> rhold m s" for s
    proof
      assume r: "rhold m s"
      then have "rw_blocked m s" using stuck by blast
      then consider "st m s = Asleep" "\<not> cleared m s" | "st m s = PwWait" | "rw_pcs m s = W WLock" using blocked_stage by blast
      then show False
      proof cases
        case 1
        then show False using blocked_reader [OF i(1)] pw(1) r by blast
      next
        case 2
        then show False using reader_not_pending [OF i(1) r] by simp
      next
        case 3
        then show False using i(2) [of s] r by (simp add: locs_def)
      qed
    qed
    then obtain s where "lst = Some s" using ginvD(2) [OF g] pw by (auto simp: glob_def)
    moreover have "st m s = Last \<longleftrightarrow> lst = Some s" using ginvD(1) [OF g, of s, unfolded tok_def] by (elim conjE)
    ultimately have "st m s = Last" by simp
    then have "rw_pcs m s \<noteq> Out" "\<not> rw_blocked m s" using blocked_stage [of m s] by (auto simp: st_def)
    then show False using stuck(2) by blast
  qed
  then have gl: "\<not> wb" "os = Idle" using ginvD(2) [OF g] by (simp_all add: glob_def)
  from blocked_stage [OF assms(3)] show False
  proof (elim disjE conjE)
    assume "st m t = Asleep" "\<not> cleared m t"
    then show False using blocked_reader [OF i(1)] gl by (auto simp: serving_def)
  next
    assume "st m t = PwWait"
    then show False using owner_stage(2) [OF i(1), of t] none by simp
  next
    assume "\<not> wmtx_free t m"
    then show False using none by (simp add: wmtx_free_def)
  qed
qed

lemma demo_wait_blocked: "rw_blocked demo_wait 1"
  by (simp add: rw_blocked_def demo_wait_def demo_write_def rw_run_simps)

theorem rwlock_never_stuck_witness:
  "rw_blocked demo_wait 1 \<and>
   (\<exists>u. rw_pcs demo_wait u = Out \<and> (rhold demo_wait u \<or> whold demo_wait u) \<or> rw_pcs demo_wait u \<noteq> Out \<and> \<not> rw_blocked demo_wait u)"
proof -
  have "(2 :: nat) < 2 ^ 14" by simp
  from rwlock_never_stuck [OF demo_wait_run this demo_wait_blocked] show ?thesis using demo_wait_blocked by blast
qed

end
