(* ===== verification/Spec2Isabelle.thy ===== *)
theory Spec2Isabelle
  imports CpuSet Timers PageRanges Semaphores LfMutex LibcEnv LibcRandom LibcParse Paging PtElement RwSafety
begin

text \<open>
  A verification development for the miniosv unikernel.
\<close>

end
